(* ===== verification/Prelude.thy ===== *)
theory Prelude
  imports Main "HOL-Library.Word" "HOL-Library.Char_ord" "HOL-Library.List_Lexorder"
begin

text \<open>
  Shared vocabulary of the development: the machine integers and byte strings of the C++ sources,
  thrown exceptions as values, the parts of the standard library the sources call
  (\<open>std::ranges::sort\<close> with \<open>unique\<close>, \<open>lower_bound\<close>, \<open>binary_search\<close>, \<open>std::map\<close>), and the
  generic lemmas on lists and words that the component theories use.

  \<^item> \<open>std::uint64_t\<close>, \<open>std::uint32_t\<close> and \<open>std::uint8_t\<close> are words, so \<open>+\<close>, \<open>-\<close> and \<open>++\<close> wrap
    around as in C++ and \<open><\<close> is the unsigned order.
  \<^item> \<open>std::size_t\<close> values that count elements of a container are \<open>nat\<close>.
  \<^item> \<open>std::string\<close> is \<open>string\<close>; its order is the lexicographic order of bytes.
  \<^item> a time point or a duration of \<open>std::chrono::steady_clock\<close> is an \<open>int\<close> number of ticks.
\<close>

type_synonym u8 = "8 word"
type_synonym u16 = "16 word"
type_synonym u32 = "32 word"
type_synonym u64 = "64 word"
type_synonym byte = "8 word"
type_synonym bytes = "byte list"
type_synonym time = int

text \<open>
  What a \<open>catch\<close> clause sees: an exception derived from \<open>std::exception\<close>, with its \<open>what()\<close>
  string, or any other thrown value.
\<close>

datatype exn = Std_exception string | Other_exception

named_theorems wf_intros \<open>preservation of well-formedness by the operations\<close>
named_theorems frame_simps \<open>fields an operation does not write\<close>
named_theorems codec_simps \<open>decoder steps on encoded input\<close>


subsection \<open>Sorting and duplicates\<close>

definition sort_unique :: "'a::linorder list \<Rightarrow> 'a list" where
  "sort_unique xs = remdups_adj (sort xs)"

definition lower_bound :: "'a::linorder \<Rightarrow> 'a list \<Rightarrow> nat" where
  "lower_bound x ys = length (takeWhile (\<lambda>y. y < x) ys)"

definition binary_search :: "'a::linorder list \<Rightarrow> 'a \<Rightarrow> bool" where
  "binary_search ys x = (let i = lower_bound x ys in i < length ys \<and> \<not> x < ys ! i)"

lemma set_sort_unique [simp]: "set (sort_unique xs) = set xs"
  by (simp add: sort_unique_def)

lemma sort_unique_Nil_iff [simp]: "sort_unique xs = [] \<longleftrightarrow> xs = []"
  by (metis set_empty set_sort_unique)

lemma strict_sorted_remdups_adj: "sorted xs \<Longrightarrow> sorted_wrt (<) (remdups_adj xs)"
  by (induction xs rule: remdups_adj.induct) (auto simp: order_less_le)

lemma strict_sorted_sort_unique [simp, intro]: "sorted_wrt (<) (sort_unique xs)"
  by (simp add: sort_unique_def strict_sorted_remdups_adj)

lemma distinct_sort_unique [simp, intro]: "distinct (sort_unique xs)"
  using strict_sorted_iff strict_sorted_sort_unique by blast

lemma sort_unique_id: "sorted_wrt (<) xs \<Longrightarrow> sort_unique xs = xs"
  by (simp add: sort_unique_def remdups_adj_distinct strict_sorted_iff sorted_sort_id)

lemma takeWhile_less_lookup:
  assumes "sorted_wrt (<) ys"
  shows "(lower_bound x ys < length ys \<and> ys ! lower_bound x ys = x) \<longleftrightarrow> x \<in> set ys"
  using assms
proof (induction ys)
  case Nil
  then show ?case by (simp add: lower_bound_def)
next
  case (Cons y ys)
  then show ?case
    by (cases "y < x") (auto simp: lower_bound_def)
qed

lemma binary_search_iff: "sorted_wrt (<) ys \<Longrightarrow> binary_search ys x \<longleftrightarrow> x \<in> set ys"
proof -
  assume s: "sorted_wrt (<) ys"
  have "lower_bound x ys < length ys \<Longrightarrow> \<not> ys ! lower_bound x ys < x"
    unfolding lower_bound_def by (rule nth_length_takeWhile)
  then show ?thesis
    using takeWhile_less_lookup [OF s, of x] by (auto simp: binary_search_def Let_def)
qed


subsection \<open>Ordered maps\<close>

text \<open>A \<open>std::map\<close> is the list of its items in key order, the order in which it is iterated.\<close>

type_synonym ('k, 'v) smap = "('k \<times> 'v) list"

fun smap_insert :: "'k::linorder \<Rightarrow> 'v \<Rightarrow> ('k, 'v) smap \<Rightarrow> ('k, 'v) smap" where
  "smap_insert k v [] = [(k, v)]"
| "smap_insert k v ((k', v') # m) =
     (if k < k' then (k, v) # (k', v') # m
      else if k = k' then (k, v) # m else (k', v') # smap_insert k v m)"

definition smap_erase :: "'k \<Rightarrow> ('k, 'v) smap \<Rightarrow> ('k, 'v) smap" where
  "smap_erase k m = filter (\<lambda>item. fst item \<noteq> k) m"

definition smap_sorted :: "('k::linorder, 'v) smap \<Rightarrow> bool" where
  "smap_sorted m \<longleftrightarrow> sorted_wrt (<) (map fst m)"

lemma set_smap_insert: "fst ` set (smap_insert k v m) = insert k (fst ` set m)"
  by (induction k v m rule: smap_insert.induct) auto

lemma smap_insert_sorted [wf_intros]: "smap_sorted m \<Longrightarrow> smap_sorted (smap_insert k v m)"
  unfolding smap_sorted_def
proof (induction k v m rule: smap_insert.induct)
  case (2 k v k' v' m)
  then show ?case
    using set_smap_insert [of k v m] by (auto simp: image_iff)
qed simp

lemma smap_erase_sorted [wf_intros]: "smap_sorted m \<Longrightarrow> smap_sorted (smap_erase k m)"
  by (simp add: smap_sorted_def smap_erase_def sorted_wrt_map sorted_wrt_filter)

lemma map_of_smap_insert: "smap_sorted m \<Longrightarrow> map_of (smap_insert k v m) = (map_of m)(k \<mapsto> v)"
  unfolding smap_sorted_def
  by (induction k v m rule: smap_insert.induct) (auto simp: fun_eq_iff)

lemma map_of_smap_erase: "map_of (smap_erase k m) = (map_of m)(k := None)"
  by (induction m) (auto simp: smap_erase_def fun_eq_iff)


subsection \<open>Decimal numerals\<close>

fun dec_digits :: "nat \<Rightarrow> string" where
  "dec_digits n =
     (if n < 10 then [char_of (48 + n)] else dec_digits (n div 10) @ [char_of (48 + n mod 10)])"

declare dec_digits.simps [simp del]

subsection \<open>Words\<close>

lemma unat_inc: "x + 1 \<noteq> 0 \<Longrightarrow> unat (x + 1) = Suc (unat x)" for x :: "'a::len word"
  using unatSuc [of x] by (simp add: add.commute)

lemma word_less_inc: "x + 1 \<noteq> 0 \<Longrightarrow> x < x + 1" for x :: "'a::len word"
  by (simp add: word_less_nat_alt unat_inc)

lemma word_inc_nonzero: "x < y \<Longrightarrow> x + 1 \<noteq> 0" for x y :: "'a::len word"
  using max_word_wrap [of x] by (auto simp: leD)

lemma word_less_inc_iff: "x + 1 \<noteq> 0 \<Longrightarrow> y < x + 1 \<longleftrightarrow> y \<le> x" for x y :: "'a::len word"
  by (simp add: word_less_nat_alt word_le_nat_alt unat_inc less_Suc_eq_le)

lemma unat_dec_less: "y < x \<Longrightarrow> unat (x - 1) < unat x" for x y :: "'a::len word"
  by (metis unat_minus_one diff_less less_numeral_extra(1) not_gr_zero unat_0 word_less_nat_alt
      not_less_zero)

end
