(* ===== verification/Raft_Types.thy ===== *)
theory Raft_Types
  imports Prelude
begin

text \<open>
  The data of the Raft stack, from \<open>src/src/protocol/raft/raft_types.cppm\<close>: one record per struct,
  one datatype per scoped enumeration. Every record comes with its \<open>default_\<close> value, the value of a
  C++ aggregate whose members are left out of a designated initializer.
\<close>

type_synonym term_t = u64
type_synonym log_index = u64
type_synonym node_id = string
type_synonym request_id = u64

datatype node_role = follower | pre_candidate | candidate | leader

text \<open>
  \<open>entry_type\<close> is a scoped enumeration over \<open>int\<close>: a value cast from an integer need not be one of
  the three enumerators, so the type is that of its underlying values.
\<close>

datatype entry_type = Entry_type (entry_type_value: u32)

definition no_op :: entry_type where
  "no_op = Entry_type 0"

definition command :: entry_type where
  "command = Entry_type 1"

definition configuration_entry :: entry_type where
  "configuration_entry = Entry_type 2"

lemma entry_type_distinct [simp]:
  "no_op \<noteq> command" "command \<noteq> no_op" "no_op \<noteq> configuration_entry"
  "configuration_entry \<noteq> no_op" "command \<noteq> configuration_entry" "configuration_entry \<noteq> command"
  by (simp_all add: no_op_def command_def configuration_entry_def)

record configuration_state =
  cs_voters :: "node_id list"
  cs_old_voters :: "node_id list"
  cs_learners :: "node_id list"

definition default_configuration_state :: configuration_state where
  "default_configuration_state = \<lparr>cs_voters = [], cs_old_voters = [], cs_learners = []\<rparr>"

definition cs_joint :: "configuration_state \<Rightarrow> bool" where
  "cs_joint c = (cs_old_voters c \<noteq> [])"

record log_entry =
  le_index :: log_index
  le_term :: term_t
  le_type :: entry_type
  le_command :: string
  le_configuration :: configuration_state

definition default_log_entry :: log_entry where
  "default_log_entry = \<lparr>le_index = 0, le_term = 0, le_type = command, le_command = [],
     le_configuration = default_configuration_state\<rparr>"

record log_id =
  li_index :: log_index
  li_term :: term_t

record snapshot_metadata =
  last_included_index :: log_index
  last_included_term :: term_t
  sm_uri :: string
  sm_configuration :: configuration_state

definition default_snapshot_metadata :: snapshot_metadata where
  "default_snapshot_metadata = \<lparr>last_included_index = 0, last_included_term = 0, sm_uri = [],
     sm_configuration = default_configuration_state\<rparr>"

definition snapshot_valid :: "snapshot_metadata \<Rightarrow> bool" where
  "snapshot_valid m = (last_included_index m \<noteq> 0)"

record hard_state =
  current_term :: term_t
  voted_for :: node_id
  commit_index :: log_index
  last_applied :: log_index

definition default_hard_state :: hard_state where
  "default_hard_state = \<lparr>current_term = 0, voted_for = [], commit_index = 0, last_applied = 0\<rparr>"

record request_vote_request =
  rv_term :: term_t
  rv_candidate_id :: node_id
  rv_last_log_index :: log_index
  rv_last_log_term :: term_t
  rv_pre_vote :: bool

definition default_request_vote_request :: request_vote_request where
  "default_request_vote_request = \<lparr>rv_term = 0, rv_candidate_id = [], rv_last_log_index = 0,
     rv_last_log_term = 0, rv_pre_vote = False\<rparr>"

record request_vote_response =
  rvr_term :: term_t
  rvr_vote_granted :: bool
  rvr_pre_vote :: bool

definition default_request_vote_response :: request_vote_response where
  "default_request_vote_response = \<lparr>rvr_term = 0, rvr_vote_granted = False, rvr_pre_vote = False\<rparr>"

record timeout_now_request =
  tn_term :: term_t
  tn_leader_id :: node_id

definition default_timeout_now_request :: timeout_now_request where
  "default_timeout_now_request = \<lparr>tn_term = 0, tn_leader_id = []\<rparr>"

record read_index_request =
  ri_id :: request_id
  ri_context :: string

record read_index_response =
  rir_id :: request_id
  rir_term :: term_t
  rir_index :: log_index
  rir_ready :: bool

record append_entries_request =
  ae_term :: term_t
  ae_leader_id :: node_id
  ae_prev_log_index :: log_index
  ae_prev_log_term :: term_t
  ae_entries :: "log_entry list"
  ae_leader_commit :: log_index
  ae_read_contexts :: "read_index_request list"

definition default_append_entries_request :: append_entries_request where
  "default_append_entries_request = \<lparr>ae_term = 0, ae_leader_id = [], ae_prev_log_index = 0,
     ae_prev_log_term = 0, ae_entries = [], ae_leader_commit = 0, ae_read_contexts = []\<rparr>"

record append_entries_response =
  aer_term :: term_t
  aer_success :: bool
  aer_match_index :: log_index
  aer_conflict_index :: log_index
  aer_conflict_term :: term_t
  aer_read_acks :: "request_id list"

definition default_append_entries_response :: append_entries_response where
  "default_append_entries_response = \<lparr>aer_term = 0, aer_success = False, aer_match_index = 0,
     aer_conflict_index = 0, aer_conflict_term = 0, aer_read_acks = []\<rparr>"

record install_snapshot_request =
  is_term :: term_t
  is_leader_id :: node_id
  is_metadata :: snapshot_metadata
  is_uri :: string
  is_snapshot_id :: string
  is_offset :: u64
  is_total_size :: u64
  is_chunk_crc32 :: u32
  is_file_crc32 :: u32
  is_done :: bool
  is_data :: bytes

definition default_install_snapshot_request :: install_snapshot_request where
  "default_install_snapshot_request = \<lparr>is_term = 0, is_leader_id = [],
     is_metadata = default_snapshot_metadata, is_uri = [], is_snapshot_id = [], is_offset = 0,
     is_total_size = 0, is_chunk_crc32 = 0, is_file_crc32 = 0, is_done = True, is_data = []\<rparr>"

record install_snapshot_response =
  isr_term :: term_t
  isr_success :: bool
  isr_snapshot_id :: string
  isr_accepted_offset :: u64
  isr_error :: string

definition default_install_snapshot_response :: install_snapshot_response where
  "default_install_snapshot_response = \<lparr>isr_term = 0, isr_success = False, isr_snapshot_id = [],
     isr_accepted_offset = 0, isr_error = []\<rparr>"

record raft_options =
  election_timeout :: time
  heartbeat_interval :: time
  leader_lease_timeout :: time
  read_index_timeout :: time
  pre_vote :: bool
  check_quorum :: bool
  lease_read :: bool
  max_entries_per_append :: nat
  max_inflight_append :: nat
  snapshot_chunk_size :: nat

definition default_raft_options :: raft_options where
  "default_raft_options = \<lparr>election_timeout = 150, heartbeat_interval = 50,
     leader_lease_timeout = 100, read_index_timeout = 1000, pre_vote = True, check_quorum = True,
     lease_read = False, max_entries_per_append = 128, max_inflight_append = 256,
     snapshot_chunk_size = 1024 * 1024\<rparr>"

record raft_snapshot_policy =
  log_entries_threshold :: nat
  min_interval :: time
  uri_prefix :: string

record raft_config =
  rc_id :: node_id
  rc_peers :: "node_id list"
  rc_options :: raft_options

definition initial_configuration :: "raft_config \<Rightarrow> configuration_state" where
  "initial_configuration c =
     default_configuration_state\<lparr>cs_voters := sort_unique (rc_id c # rc_peers c)\<rparr>"

definition cluster_size :: "raft_config \<Rightarrow> nat" where
  "cluster_size c = length (rc_peers c) + 1"

definition rc_majority :: "raft_config \<Rightarrow> nat" where
  "rc_majority c = cluster_size c div 2 + 1"

datatype raft_errc = errc_ok | stale_term | log_inconsistent | not_leader | not_voter
  | configuration_error | snapshot_required | storage_error | state_machine_error | backpressure
  | errc_stopped

record raft_error =
  re_code :: raft_errc
  re_message :: string

definition default_raft_error :: raft_error where
  "default_raft_error = \<lparr>re_code = errc_ok, re_message = []\<rparr>"

abbreviation mk_error :: "raft_errc \<Rightarrow> string \<Rightarrow> raft_error" where
  "mk_error c m \<equiv> \<lparr>re_code = c, re_message = m\<rparr>"

text \<open>The error made in the two \<open>catch\<close> clauses after a throwing call.\<close>

definition caught_error :: "raft_errc \<Rightarrow> exn \<Rightarrow> string \<Rightarrow> raft_error" where
  "caught_error c e fallback =
     (case e of Std_exception what \<Rightarrow> mk_error c what | Other_exception \<Rightarrow> mk_error c fallback)"

record raft_metrics =
  rm_current_term :: term_t
  rm_role :: node_role
  rm_leader_id :: node_id
  rm_first_log_index :: log_index
  rm_last_log_index :: log_index
  rm_commit_index :: log_index
  rm_last_applied :: log_index
  rm_snapshot_index :: log_index
  rm_snapshot_term :: term_t
  rm_voters :: nat
  rm_learners :: nat
  rm_pending_reads :: nat
  rm_active_followers :: nat
  rm_stopped :: bool
  rm_last_error :: string

end
