(* ===== verification/Raft_Configuration.thy ===== *)
theory Raft_Configuration
  imports Raft_Types
begin

text \<open>
  Voter and learner sets, quorums, joint consensus and vote counting, from
  \<open>src/src/protocol/raft/raft_configuration.cpp\<close>, and the two early-exit quorum loops that
  \<open>node.cpp\<close> runs over the same configurations. The class \<open>configuration\<close> wraps one
  \<open>configuration_state\<close>, so its objects are the states its constructor \<open>mk_configuration\<close> builds.
\<close>

type_synonym configuration = configuration_state

definition normalized :: "node_id list \<Rightarrow> node_id list" where
  "normalized ids = sort_unique (filter (\<lambda>id. id \<noteq> []) ids)"

definition majority_of :: "nat \<Rightarrow> nat" where
  "majority_of n = n div 2 + 1"

definition mk_configuration :: "configuration_state \<Rightarrow> configuration" where
  "mk_configuration s =
     (let v = normalized (cs_voters s); ov = normalized (cs_old_voters s) in
      \<lparr>cs_voters = v, cs_old_voters = ov,
       cs_learners = filter (\<lambda>id. \<not> (binary_search v id \<or> binary_search ov id))
                       (normalized (cs_learners s))\<rparr>)"

definition configuration_of_voters :: "node_id list \<Rightarrow> configuration" where
  "configuration_of_voters v = mk_configuration (default_configuration_state\<lparr>cs_voters := v\<rparr>)"

definition conf_empty :: "configuration \<Rightarrow> bool" where
  "conf_empty c = (cs_voters c = [] \<and> cs_old_voters c = [] \<and> cs_learners c = [])"

definition contains :: "configuration \<Rightarrow> node_id \<Rightarrow> bool" where
  "contains c nid = (binary_search (cs_voters c) nid \<or> binary_search (cs_old_voters c) nid)"

definition contains_learner :: "configuration \<Rightarrow> node_id \<Rightarrow> bool" where
  "contains_learner c nid = binary_search (cs_learners c) nid"

definition is_member :: "configuration \<Rightarrow> node_id \<Rightarrow> bool" where
  "is_member c nid = (contains c nid \<or> contains_learner c nid)"

definition all_voters :: "configuration \<Rightarrow> node_id list" where
  "all_voters c = normalized (cs_voters c @ cs_old_voters c)"

definition all_members :: "configuration \<Rightarrow> node_id list" where
  "all_members c = normalized (all_voters c @ cs_learners c)"

definition quorum_size :: "configuration \<Rightarrow> nat" where
  "quorum_size c = majority_of (length (cs_voters c))"

definition old_quorum_size :: "configuration \<Rightarrow> nat" where
  "old_quorum_size c = majority_of (length (cs_old_voters c))"

definition count_in :: "node_id set \<Rightarrow> node_id list \<Rightarrow> nat" where
  "count_in acked voters = length (filter (\<lambda>id. id \<in> acked) voters)"

definition has_quorum :: "configuration \<Rightarrow> node_id set \<Rightarrow> bool" where
  "has_quorum c acked =
     (if cs_voters c = [] then False
      else let new_quorum = count_in acked (cs_voters c) \<ge> quorum_size c in
        if \<not> cs_joint c then new_quorum
        else new_quorum \<and> count_in acked (cs_old_voters c) \<ge> old_quorum_size c)"

definition with_joint :: "configuration \<Rightarrow> node_id list \<Rightarrow> raft_error + configuration" where
  "with_joint c new_voters0 =
     (let new_voters = normalized new_voters0 in
      if new_voters = [] then
        Inl (mk_error configuration_error ''joint configuration cannot be empty'')
      else if cs_joint c then
        Inl (mk_error configuration_error
               ''cannot enter a joint configuration while already joint'')
      else Inr (mk_configuration \<lparr>cs_voters = new_voters, cs_old_voters = cs_voters c,
                                  cs_learners = cs_learners c\<rparr>))"

definition with_learners :: "configuration \<Rightarrow> node_id list \<Rightarrow> raft_error + configuration" where
  "with_learners c learners0 =
     (let learners = filter (\<lambda>nid. \<not> contains c nid) (normalized learners0) in
      Inr (mk_configuration \<lparr>cs_voters = cs_voters c, cs_old_voters = cs_old_voters c,
                             cs_learners = learners\<rparr>))"

definition promote_learner :: "configuration \<Rightarrow> node_id \<Rightarrow> raft_error + configuration" where
  "promote_learner c nid =
     (if \<not> contains_learner c nid then
        Inl (mk_error configuration_error ''cannot promote a node that is not a learner'')
      else
        (let voters = cs_voters c @ [nid]; learners = removeAll nid (cs_learners c) in
         case with_joint c voters of
           Inl e \<Rightarrow> Inl e
         | Inr promoted \<Rightarrow> Inr (mk_configuration (promoted\<lparr>cs_learners := learners\<rparr>))))"

definition remove_member :: "configuration \<Rightarrow> node_id \<Rightarrow> raft_error + configuration" where
  "remove_member c nid =
     (if contains_learner c nid \<and> \<not> contains c nid then
        Inr (mk_configuration \<lparr>cs_voters = cs_voters c, cs_old_voters = cs_old_voters c,
                               cs_learners = removeAll nid (cs_learners c)\<rparr>)
      else if \<not> contains c nid then
        Inl (mk_error configuration_error ''cannot remove a node that is not a member'')
      else
        (let voters = removeAll nid (cs_voters c) in
         if voters = [] then Inl (mk_error configuration_error ''cannot remove the last voter'')
         else with_joint c voters))"

definition leave_joint :: "configuration \<Rightarrow> raft_error + configuration" where
  "leave_joint c =
     (if \<not> cs_joint c then Inl (mk_error configuration_error ''configuration is not joint'')
      else Inr (mk_configuration \<lparr>cs_voters = cs_voters c, cs_old_voters = [],
                                  cs_learners = cs_learners c\<rparr>))"


subsection \<open>Vote tracker\<close>

datatype quorum_result = pending | won | lost

record vote_tracker =
  vt_conf :: configuration
  vt_granted :: "node_id set"
  vt_rejected :: "node_id set"

definition mk_vote_tracker :: "configuration \<Rightarrow> vote_tracker" where
  "mk_vote_tracker c = \<lparr>vt_conf = c, vt_granted = {}, vt_rejected = {}\<rparr>"

definition vt_reset :: "vote_tracker \<Rightarrow> vote_tracker" where
  "vt_reset t = t\<lparr>vt_granted := {}, vt_rejected := {}\<rparr>"

definition vt_grant :: "vote_tracker \<Rightarrow> node_id \<Rightarrow> vote_tracker" where
  "vt_grant t nid =
     (if \<not> contains (vt_conf t) nid then t
      else t\<lparr>vt_rejected := vt_rejected t - {nid}, vt_granted := insert nid (vt_granted t)\<rparr>)"

definition vt_reject :: "vote_tracker \<Rightarrow> node_id \<Rightarrow> vote_tracker" where
  "vt_reject t nid =
     (if \<not> contains (vt_conf t) nid then t
      else t\<lparr>vt_granted := vt_granted t - {nid}, vt_rejected := insert nid (vt_rejected t)\<rparr>)"

definition vt_result :: "vote_tracker \<Rightarrow> quorum_result" where
  "vt_result t =
     (if has_quorum (vt_conf t) (vt_granted t) then won
      else
        let possible = fold (\<lambda>id s. if id \<notin> vt_rejected t then insert id s else s)
                         (all_voters (vt_conf t)) (vt_granted t)
        in if has_quorum (vt_conf t) possible then pending else lost)"


subsection \<open>Quorum loops of the node\<close>

fun group_quorum_loop :: "nat \<Rightarrow> (node_id \<Rightarrow> bool) \<Rightarrow> nat \<Rightarrow> node_id list \<Rightarrow> bool" where
  "group_quorum_loop required acked count [] = False"
| "group_quorum_loop required acked count (voter # voters) =
     (if acked voter then
        (if count + 1 \<ge> required then True
         else group_quorum_loop required acked (count + 1) voters)
      else group_quorum_loop required acked count voters)"

definition group_has_quorum :: "node_id list \<Rightarrow> (node_id \<Rightarrow> bool) \<Rightarrow> bool" where
  "group_has_quorum voters acked = group_quorum_loop (length voters div 2 + 1) acked 0 voters"

definition configuration_has_quorum :: "configuration \<Rightarrow> (node_id \<Rightarrow> bool) \<Rightarrow> bool" where
  "configuration_has_quorum c acked =
     (if cs_voters c = [] then False
      else if \<not> group_has_quorum (cs_voters c) acked then False
      else \<not> cs_joint c \<or> group_has_quorum (cs_old_voters c) acked)"


subsection \<open>Well-formed configurations\<close>

text \<open>
  The class invariant: the three id lists are strictly sorted, hold no empty id, and no learner is a
  voter. The binary searches of \<open>contains\<close> and \<open>contains_learner\<close> rely on it.
\<close>

definition id_list_wf :: "node_id list \<Rightarrow> bool" where
  "id_list_wf ids \<longleftrightarrow> sorted_wrt (<) ids \<and> [] \<notin> set ids"

definition conf_wf :: "configuration \<Rightarrow> bool" where
  "conf_wf c \<longleftrightarrow> id_list_wf (cs_voters c) \<and> id_list_wf (cs_old_voters c) \<and>
     id_list_wf (cs_learners c) \<and>
     set (cs_learners c) \<inter> (set (cs_voters c) \<union> set (cs_old_voters c)) = {}"

lemma set_normalized [simp]: "set (normalized ids) = set ids - {[]}"
  by (auto simp: normalized_def)

lemma id_list_wf_normalized [simp, intro]: "id_list_wf (normalized ids)"
  by (simp add: id_list_wf_def normalized_def)

lemma normalized_id: "id_list_wf ids \<Longrightarrow> normalized ids = ids"
proof -
  assume wf: "id_list_wf ids"
  then have "filter (\<lambda>id. id \<noteq> []) ids = ids"
    by (auto simp: id_list_wf_def intro!: filter_True)
  with wf show ?thesis
    by (simp add: id_list_wf_def normalized_def sort_unique_id)
qed

lemma id_list_wf_filter [simp, intro]: "id_list_wf ids \<Longrightarrow> id_list_wf (filter P ids)"
  by (auto simp: id_list_wf_def sorted_wrt_filter)

lemma id_list_wf_removeAll [simp, intro]: "id_list_wf ids \<Longrightarrow> id_list_wf (removeAll x ids)"
  by (simp add: removeAll_filter_not_eq)

lemma id_list_wf_search: "id_list_wf ids \<Longrightarrow> binary_search ids x \<longleftrightarrow> x \<in> set ids"
  by (simp add: id_list_wf_def binary_search_iff)

lemma id_list_wf_Nil [simp]: "id_list_wf []"
  by (simp add: id_list_wf_def)

lemma conf_wf_lists:
  "conf_wf c \<Longrightarrow> id_list_wf (cs_voters c)"
  "conf_wf c \<Longrightarrow> id_list_wf (cs_old_voters c)"
  "conf_wf c \<Longrightarrow> id_list_wf (cs_learners c)"
  by (simp_all add: conf_wf_def)

lemma mk_configuration_wf [wf_intros, simp]: "conf_wf (mk_configuration s)"
  by (auto simp: conf_wf_def mk_configuration_def Let_def id_list_wf_search)

lemma mk_configuration_sets [simp]:
  "set (cs_voters (mk_configuration s)) = set (cs_voters s) - {[]}"
  "set (cs_old_voters (mk_configuration s)) = set (cs_old_voters s) - {[]}"
  "set (cs_learners (mk_configuration s)) =
     set (cs_learners s) - {[]} - set (cs_voters s) - set (cs_old_voters s)"
  by (auto simp: mk_configuration_def Let_def id_list_wf_search)

lemma mk_configuration_id: "conf_wf c \<Longrightarrow> mk_configuration c = c"
  by (cases c) (auto simp: mk_configuration_def Let_def normalized_id id_list_wf_search conf_wf_def
      intro!: filter_True)

lemma mk_configuration_lists:
  "id_list_wf (cs_voters s) \<Longrightarrow> cs_voters (mk_configuration s) = cs_voters s"
  "id_list_wf (cs_old_voters s) \<Longrightarrow> cs_old_voters (mk_configuration s) = cs_old_voters s"
  by (simp_all add: mk_configuration_def Let_def normalized_id)

lemma contains_iff: "conf_wf c \<Longrightarrow> contains c x \<longleftrightarrow> x \<in> set (cs_voters c) \<union> set (cs_old_voters c)"
  by (simp add: contains_def id_list_wf_search conf_wf_lists)

lemma contains_learner_iff: "conf_wf c \<Longrightarrow> contains_learner c x \<longleftrightarrow> x \<in> set (cs_learners c)"
  by (simp add: contains_learner_def id_list_wf_search conf_wf_lists)

lemma contains_not_empty_id: "conf_wf c \<Longrightarrow> contains c x \<Longrightarrow> x \<noteq> []"
  by (auto simp: contains_iff conf_wf_def id_list_wf_def)

lemma set_all_voters: "conf_wf c \<Longrightarrow> set (all_voters c) = set (cs_voters c) \<union> set (cs_old_voters c)"
  by (auto simp: all_voters_def conf_wf_def id_list_wf_def)

lemma set_all_members: "conf_wf c \<Longrightarrow> set (all_members c) = {x. is_member c x}"
  by (auto simp: all_members_def set_all_voters is_member_def contains_iff contains_learner_iff
      conf_wf_def id_list_wf_def)

lemma with_joint_wf [wf_intros]: "with_joint c vs = Inr c' \<Longrightarrow> conf_wf c'"
  by (auto simp: with_joint_def Let_def split: if_splits)

lemma with_learners_wf [wf_intros]: "with_learners c ls = Inr c' \<Longrightarrow> conf_wf c'"
  by (auto simp: with_learners_def Let_def)

lemma promote_learner_wf [wf_intros]: "promote_learner c x = Inr c' \<Longrightarrow> conf_wf c'"
  by (auto simp: promote_learner_def Let_def split: if_splits sum.splits)

lemma remove_member_wf [wf_intros]: "remove_member c x = Inr c' \<Longrightarrow> conf_wf c'"
  by (auto simp: remove_member_def Let_def dest: with_joint_wf split: if_splits)

lemma leave_joint_wf [wf_intros]: "leave_joint c = Inr c' \<Longrightarrow> conf_wf c'"
  by (auto simp: leave_joint_def split: if_splits)

lemma with_joint_result:
  assumes "conf_wf c" and "with_joint c vs = Inr c'"
  shows "cs_voters c' = normalized vs" and "cs_old_voters c' = cs_voters c"
    and "cs_old_voters c = []"
    and "set (cs_learners c') = set (cs_learners c) - set vs"
  using assms conf_wf_lists(3) [OF assms(1)]
  by (auto simp: with_joint_def Let_def mk_configuration_lists cs_joint_def conf_wf_def [of c]
      id_list_wf_def [of "cs_learners c"] split: if_splits)

lemma leave_joint_result:
  assumes "conf_wf c" and "leave_joint c = Inr c'"
  shows "cs_voters c' = cs_voters c" and "cs_old_voters c' = []"
  using assms by (auto simp: leave_joint_def mk_configuration_lists conf_wf_lists split: if_splits)


subsection \<open>Quorums\<close>

text \<open>
  What the consensus code needs of its quorums, as interfaces: two kinds of quorum that always share
  a member, and one kind that also grows upwards. A single-valued vote relation then has at most one
  winner.
\<close>

locale cross_quorum =
  fixes quorum1 :: "'a set \<Rightarrow> bool" and quorum2 :: "'a set \<Rightarrow> bool"
  assumes quorums_meet: "quorum1 A \<Longrightarrow> quorum2 B \<Longrightarrow> A \<inter> B \<noteq> {}"
begin

lemma unique_winner:
  assumes single: "\<And>v c d. (v, c) \<in> R \<Longrightarrow> (v, d) \<in> R \<Longrightarrow> c = d"
    and "quorum1 A" "\<And>v. v \<in> A \<Longrightarrow> (v, a) \<in> R"
    and "quorum2 B" "\<And>v. v \<in> B \<Longrightarrow> (v, b) \<in> R"
  shows "a = b"
proof -
  from assms(2,4) obtain v where "v \<in> A" "v \<in> B"
    using quorums_meet by blast
  then show ?thesis
    using single [of v a b] assms(3,5) by blast
qed

end

locale quorum_system = cross_quorum quorum quorum for quorum :: "'a set \<Rightarrow> bool" +
  assumes quorum_mono: "quorum A \<Longrightarrow> A \<subseteq> B \<Longrightarrow> quorum B"
begin

lemma quorum_nonempty: "quorum A \<Longrightarrow> A \<noteq> {}"
  using quorums_meet [of A A] by blast

lemma not_both_sides: "quorum A \<Longrightarrow> \<not> quorum (- A)"
  using quorums_meet [of A "- A"] by blast

end

lemma count_in_mono: "A \<subseteq> B \<Longrightarrow> count_in A vs \<le> count_in B vs"
  by (induction vs) (auto simp: count_in_def)

lemma count_in_inter: "set vs \<subseteq> V \<Longrightarrow> count_in (A \<inter> V) vs = count_in A vs"
  unfolding count_in_def by (auto intro!: arg_cong [where f = length] filter_cong)

lemma two_majorities_meet:
  assumes "majority_of (length vs) \<le> count_in A vs" and "majority_of (length vs) \<le> count_in B vs"
  shows "\<exists>v \<in> set vs. v \<in> A \<and> v \<in> B"
proof (rule ccontr)
  assume "\<not> ?thesis"
  then have "A \<inter> set vs \<subseteq> - B" by blast
  then have "count_in A vs \<le> count_in (- B) vs"
    using count_in_mono [of "A \<inter> set vs" "- B" vs] by (simp add: count_in_inter)
  moreover have "count_in B vs + count_in (- B) vs = length vs"
    using sum_length_filter_compl [of "\<lambda>x. x \<in> B" vs] by (simp add: count_in_def)
  ultimately show False
    using assms by (simp add: majority_of_def)
qed

lemma has_quorum_iff:
  "has_quorum c A \<longleftrightarrow> cs_voters c \<noteq> [] \<and> majority_of (length (cs_voters c)) \<le> count_in A (cs_voters c) \<and>
     (cs_old_voters c \<noteq> [] \<longrightarrow>
        majority_of (length (cs_old_voters c)) \<le> count_in A (cs_old_voters c))"
  by (simp add: has_quorum_def Let_def quorum_size_def old_quorum_size_def cs_joint_def)

lemma has_quorum_mono: "has_quorum c A \<Longrightarrow> A \<subseteq> B \<Longrightarrow> has_quorum c B"
  using count_in_mono [of A B] by (auto simp: has_quorum_iff intro: order_trans)

lemma has_quorum_voters_meet:
  assumes "has_quorum c A" "has_quorum c' B" and "cs_voters c = cs_voters c'"
  shows "\<exists>v \<in> set (cs_voters c). v \<in> A \<and> v \<in> B"
  using assms by (intro two_majorities_meet) (auto simp: has_quorum_iff)

interpretation conf_quorum: quorum_system "has_quorum c" for c
proof
  fix A B
  assume "has_quorum c A" "has_quorum c B"
  then show "A \<inter> B \<noteq> {}"
    using has_quorum_voters_meet [of c A c B] by blast
next
  fix A B
  assume "has_quorum c A" "A \<subseteq> B"
  then show "has_quorum c B" by (rule has_quorum_mono)
qed


text \<open>A joint configuration shares a voter with every quorum of the configuration it replaces, and
  with every quorum of the configuration that replaces it.\<close>

lemma joint_meets_old:
  assumes "conf_wf c" "with_joint c vs = Inr j" "has_quorum j J" "has_quorum c A"
  shows "\<exists>v \<in> set (cs_voters c). v \<in> J \<and> v \<in> A"
  using assms with_joint_result [OF assms(1,2)]
  by (intro two_majorities_meet) (auto simp: has_quorum_iff)

lemma joint_meets_new:
  assumes "conf_wf j" "leave_joint j = Inr c'" "has_quorum j J" "has_quorum c' B"
  shows "\<exists>v \<in> set (cs_voters c'). v \<in> J \<and> v \<in> B"
  using assms leave_joint_result [OF assms(1,2)]
  by (intro two_majorities_meet) (auto simp: has_quorum_iff)

interpretation joint_old: cross_quorum
  "\<lambda>J. conf_wf c \<and> (\<exists>vs. with_joint c vs = Inr j) \<and> has_quorum j J" "has_quorum c" for c j
  using joint_meets_old by unfold_locales blast

interpretation joint_new: cross_quorum
  "\<lambda>J. conf_wf j \<and> has_quorum j J" "\<lambda>B. leave_joint j = Inr c' \<and> has_quorum c' B" for j c'
  using joint_meets_new by unfold_locales blast


subsection \<open>Equivalences\<close>

lemma group_quorum_loop_count:
  assumes "count < required"
  shows "group_quorum_loop required acked count voters \<longleftrightarrow>
           required \<le> count + count_in {x. acked x} voters"
  using assms by (induction required acked count voters rule: group_quorum_loop.induct)
    (auto simp: count_in_def)

lemma group_has_quorum_iff:
  "group_has_quorum voters acked \<longleftrightarrow> majority_of (length voters) \<le> count_in {x. acked x} voters"
  by (simp add: group_has_quorum_def group_quorum_loop_count majority_of_def)

lemma possible_votes:
  "fold (\<lambda>x s. if x \<notin> R then insert x s else s) vs G = G \<union> (set vs - R)"
  by (induction vs arbitrary: G) auto

definition vt_wf :: "vote_tracker \<Rightarrow> bool" where
  "vt_wf t \<longleftrightarrow> conf_wf (vt_conf t) \<and> vt_granted t \<inter> vt_rejected t = {} \<and>
     vt_granted t \<union> vt_rejected t \<subseteq> {x. contains (vt_conf t) x}"

lemma mk_vote_tracker_wf [wf_intros]: "conf_wf c \<Longrightarrow> vt_wf (mk_vote_tracker c)"
  by (simp add: vt_wf_def mk_vote_tracker_def)

lemma vt_ops_wf [wf_intros]:
  "vt_wf t \<Longrightarrow> vt_wf (vt_reset t)" "vt_wf t \<Longrightarrow> vt_wf (vt_grant t x)"
  "vt_wf t \<Longrightarrow> vt_wf (vt_reject t x)"
  by (auto simp: vt_wf_def vt_reset_def vt_grant_def vt_reject_def)

lemma has_quorum_voters_only:
  "has_quorum c (A \<inter> (set (cs_voters c) \<union> set (cs_old_voters c))) \<longleftrightarrow> has_quorum c A"
  by (simp add: has_quorum_iff count_in_inter)

lemma winnable_iff:
  assumes "vt_wf t"
  shows "has_quorum (vt_conf t) (vt_granted t \<union> (set (all_voters (vt_conf t)) - vt_rejected t)) \<longleftrightarrow>
           (\<exists>A. A \<inter> vt_rejected t = {} \<and> has_quorum (vt_conf t) A)" (is "?L \<longleftrightarrow> ?R")
proof
  assume ?L
  moreover have "(vt_granted t \<union> (set (all_voters (vt_conf t)) - vt_rejected t)) \<inter> vt_rejected t = {}"
    using assms by (auto simp: vt_wf_def)
  ultimately show ?R by blast
next
  assume ?R
  then obtain A where A: "A \<inter> vt_rejected t = {}" "has_quorum (vt_conf t) A" by blast
  let ?V = "set (cs_voters (vt_conf t)) \<union> set (cs_old_voters (vt_conf t))"
  have "has_quorum (vt_conf t) (A \<inter> ?V)"
    using A(2) by (simp only: has_quorum_voters_only)
  moreover have "A \<inter> ?V \<subseteq> vt_granted t \<union> (set (all_voters (vt_conf t)) - vt_rejected t)"
    using A(1) assms by (auto simp: vt_wf_def set_all_voters)
  ultimately show ?L by (rule has_quorum_mono)
qed


subsection \<open>Properties\<close>

text \<open>C10: Every configuration that the constructor and the membership operations return satisfies
  the class invariant, so that the binary searches of \<open>contains\<close> and \<open>contains_learner\<close> decide
  membership, and a voter is never also a learner.\<close>

theorem configuration_invariant:
  assumes "c' = mk_configuration s \<or> with_joint c vs = Inr c' \<or> with_learners c vs = Inr c' \<or>
    promote_learner c x = Inr c' \<or> remove_member c x = Inr c' \<or> leave_joint c = Inr c'"
  shows "conf_wf c' \<and> (contains c' y \<longleftrightarrow> y \<in> set (cs_voters c') \<union> set (cs_old_voters c')) \<and>
     (contains_learner c' y \<longleftrightarrow> y \<in> set (cs_learners c')) \<and>
     \<not> (contains c' y \<and> contains_learner c' y)"
proof -
  have "conf_wf c'"
    using assms with_joint_wf with_learners_wf promote_learner_wf remove_member_wf leave_joint_wf
    by auto
  then show ?thesis
    by (auto simp: contains_iff contains_learner_iff conf_wf_def)
qed

theorem configuration_invariant_witness:
  "promote_learner \<lparr>cs_voters = [''a''], cs_old_voters = [], cs_learners = [''b'']\<rparr> ''b'' =
     Inr \<lparr>cs_voters = [''a'', ''b''], cs_old_voters = [''a''], cs_learners = []\<rparr> \<and>
   conf_wf \<lparr>cs_voters = [''a'', ''b''], cs_old_voters = [''a''], cs_learners = []\<rparr>"
proof -
  have p: "promote_learner \<lparr>cs_voters = [''a''], cs_old_voters = [], cs_learners = [''b'']\<rparr> ''b'' =
     Inr \<lparr>cs_voters = [''a'', ''b''], cs_old_voters = [''a''], cs_learners = []\<rparr>"
    by code_simp
  then show ?thesis
    using configuration_invariant [OF disjI2 [OF disjI2 [OF disjI2 [OF disjI1 [OF p]]]]] by blast
qed

text \<open>C11: The early-exit quorum loops of the node decide exactly what counting decides: over any
  predicate on ids they return the value of \<open>has_quorum\<close> on the ids that satisfy it.\<close>

theorem configuration_has_quorum_eq:
  "configuration_has_quorum c acked = has_quorum c {x. acked x}"
  by (auto simp: configuration_has_quorum_def has_quorum_iff group_has_quorum_iff cs_joint_def)

text \<open>C12: The vote tracker decides an election exactly: it reports \<open>won\<close> when the grants form a
  quorum, \<open>lost\<close> when no set of voters that avoids the rejections can ever form one, and
  \<open>pending\<close> otherwise.\<close>

theorem vt_result_exact:
  assumes "vt_wf t"
  shows "vt_result t =
    (if has_quorum (vt_conf t) (vt_granted t) then won
     else if \<exists>A. A \<inter> vt_rejected t = {} \<and> has_quorum (vt_conf t) A then pending else lost)"
  using winnable_iff [OF assms] by (simp add: vt_result_def possible_votes Let_def)

theorem vt_result_exact_witness:
  "vt_result (vt_reject (vt_reject (mk_vote_tracker (configuration_of_voters [''a'', ''b'', ''c'']))
     ''a'') ''c'') = lost \<and>
   \<not> (\<exists>A. A \<inter> vt_rejected (vt_reject (vt_reject (mk_vote_tracker
        (configuration_of_voters [''a'', ''b'', ''c''])) ''a'') ''c'') = {} \<and>
       has_quorum (configuration_of_voters [''a'', ''b'', ''c'']) A)"
proof -
  let ?t = "vt_reject (vt_reject (mk_vote_tracker (configuration_of_voters [''a'', ''b'', ''c'']))
     ''a'') ''c''"
  have wf: "vt_wf ?t"
    by (intro vt_ops_wf mk_vote_tracker_wf) (simp add: configuration_of_voters_def)
  have l: "vt_result ?t = lost" by code_simp
  have c: "vt_conf ?t = configuration_of_voters [''a'', ''b'', ''c'']"
    by (simp add: vt_reject_def mk_vote_tracker_def)
  show ?thesis
    using vt_result_exact [OF wf] l by (auto simp: c split: if_splits)
qed

end
