(* ===== verification/Raft_Progress.thy ===== *)
theory Raft_Progress
  imports Raft_Types
begin

text \<open>
  Per-follower replication progress of a leader, from \<open>src/src/protocol/raft/progress.cpp\<close>: the
  window of in-flight appends, and the table of peers sorted by id. A \<open>peer_progress*\<close> through which
  the C++ code updates an element in place is an update function given to \<open>pt_modify\<close>.
\<close>

datatype replication_state = probe | replicate | snapshot

record inflight_window =
  iw_capacity :: nat
  iw_entries :: "log_index list"

definition iw_full :: "inflight_window \<Rightarrow> bool" where
  "iw_full w = (length (iw_entries w) \<ge> iw_capacity w)"

definition iw_add :: "log_index \<Rightarrow> inflight_window \<Rightarrow> inflight_window" where
  "iw_add index w =
     (if iw_capacity w = 0 then w
      else
        let es = (if iw_full w then drop 1 (iw_entries w) else iw_entries w)
        in w\<lparr>iw_entries := es @ [index]\<rparr>)"

definition iw_free_to :: "log_index \<Rightarrow> inflight_window \<Rightarrow> inflight_window" where
  "iw_free_to index w = w\<lparr>iw_entries := dropWhile (\<lambda>e. e \<le> index) (iw_entries w)\<rparr>"

definition iw_reset :: "inflight_window \<Rightarrow> inflight_window" where
  "iw_reset w = w\<lparr>iw_entries := []\<rparr>"

record peer_progress =
  next_index :: log_index
  match_index :: log_index
  pending_snapshot :: log_index
  pp_state :: replication_state
  recent_active :: bool
  inflight :: inflight_window

type_synonym progress_tracker = "(node_id \<times> peer_progress) list"

definition pt_reset :: "node_id list \<Rightarrow> log_index \<Rightarrow> nat \<Rightarrow> progress_tracker" where
  "pt_reset peers next_index0 inflight_capacity =
     map (\<lambda>peer. (peer, \<lparr>next_index = next_index0, match_index = 0, pending_snapshot = 0,
            pp_state = probe, recent_active = False,
            inflight = \<lparr>iw_capacity = inflight_capacity, iw_entries = []\<rparr>\<rparr>))
       (sort_unique peers)"

definition find_peer :: "progress_tracker \<Rightarrow> node_id \<Rightarrow> nat option" where
  "find_peer ps peer =
     (let i = lower_bound peer (map fst ps)
      in if i = length ps \<or> fst (ps ! i) \<noteq> peer then None else Some i)"

definition pt_get :: "progress_tracker \<Rightarrow> node_id \<Rightarrow> peer_progress option" where
  "pt_get ps peer = (case find_peer ps peer of None \<Rightarrow> None | Some i \<Rightarrow> Some (snd (ps ! i)))"

definition pt_modify :: "(peer_progress \<Rightarrow> peer_progress) \<Rightarrow> node_id \<Rightarrow> progress_tracker \<Rightarrow>
    progress_tracker" where
  "pt_modify f peer ps =
     (case find_peer ps peer of None \<Rightarrow> ps | Some i \<Rightarrow> ps[i := (fst (ps ! i), f (snd (ps ! i)))])"

definition mark_sent :: "node_id \<Rightarrow> log_index \<Rightarrow> progress_tracker \<Rightarrow> progress_tracker" where
  "mark_sent peer last_index =
     pt_modify (\<lambda>p.
       let p = p\<lparr>recent_active := True\<rparr> in
       if last_index \<noteq> 0 \<and> pp_state p = replicate then
         p\<lparr>next_index := max (next_index p) (last_index + 1),
           inflight := iw_add last_index (inflight p)\<rparr>
       else p) peer"

definition optimistic_update :: "node_id \<Rightarrow> log_index \<Rightarrow> progress_tracker \<Rightarrow> progress_tracker" where
  "optimistic_update peer last_index =
     pt_modify (\<lambda>p.
       if last_index \<noteq> 0 then p\<lparr>next_index := max (next_index p) (last_index + 1)\<rparr> else p) peer"

definition mark_replicated :: "node_id \<Rightarrow> log_index \<Rightarrow> progress_tracker \<Rightarrow> progress_tracker" where
  "mark_replicated peer index =
     pt_modify (\<lambda>p.
       let m = max (match_index p) index in
       p\<lparr>match_index := m, next_index := max (next_index p) (m + 1), pending_snapshot := 0,
         pp_state := replicate, recent_active := True, inflight := iw_free_to index (inflight p)\<rparr>)
     peer"

definition mark_rejected :: "node_id \<Rightarrow> log_index \<Rightarrow> log_index \<Rightarrow> progress_tracker \<Rightarrow>
    progress_tracker" where
  "mark_rejected peer rejected_next_index conflict_index =
     pt_modify (\<lambda>p.
       p\<lparr>pp_state := probe, inflight := iw_reset (inflight p), recent_active := True,
         next_index :=
           (if conflict_index \<noteq> 0 then conflict_index
            else if rejected_next_index > 1 then rejected_next_index - 1 else 1)\<rparr>) peer"

definition mark_snapshot :: "node_id \<Rightarrow> log_index \<Rightarrow> progress_tracker \<Rightarrow> progress_tracker" where
  "mark_snapshot peer snapshot_index =
     pt_modify (\<lambda>p.
       p\<lparr>pp_state := snapshot, pending_snapshot := snapshot_index,
         inflight := iw_reset (inflight p)\<rparr>) peer"

definition committed_index :: "progress_tracker \<Rightarrow> log_index \<Rightarrow> nat \<Rightarrow> log_index" where
  "committed_index ps leader_match majority =
     (let matches = rev (sort (leader_match # map (\<lambda>(_, p). match_index p) ps))
      in if majority = 0 \<or> majority > length matches then 0 else matches ! (majority - 1))"

definition active_followers :: "progress_tracker \<Rightarrow> nat" where
  "active_followers ps = length (filter (\<lambda>item. recent_active (snd item)) ps)"


subsection \<open>The table as a map\<close>

definition pt_sorted :: "progress_tracker \<Rightarrow> bool" where
  "pt_sorted ps \<longleftrightarrow> sorted_wrt (<) (map fst ps)"

lemma find_peer_Some:
  assumes "find_peer ps peer = Some i"
  shows "i < length ps" and "fst (ps ! i) = peer"
proof -
  have "lower_bound peer (map fst ps) \<le> length ps"
    unfolding lower_bound_def by (metis length_map length_takeWhile_le)
  with assms show "i < length ps" and "fst (ps ! i) = peer"
    by (auto simp: find_peer_def Let_def split: if_splits)
qed

lemma find_peer_unique:
  assumes "pt_sorted ps" and "i < length ps" and "fst (ps ! i) = peer"
  shows "find_peer ps peer = Some i"
proof -
  let ?j = "lower_bound peer (map fst ps)"
  have "peer \<in> set (map fst ps)"
    using assms(2,3) by (metis length_map nth_map nth_mem)
  with assms(1) have j: "?j < length ps" "map fst ps ! ?j = peer"
    using takeWhile_less_lookup [of "map fst ps" peer] by (auto simp: pt_sorted_def)
  moreover have "distinct (map fst ps)"
    using assms(1) by (simp add: pt_sorted_def strict_sorted_iff)
  ultimately have "?j = i"
    using assms(2,3) by (metis length_map nth_eq_iff_index_eq nth_map)
  with j show ?thesis
    by (simp add: find_peer_def Let_def)
qed

lemma map_fst_pt_modify [simp]: "map fst (pt_modify f peer ps) = map fst ps"
proof (cases "find_peer ps peer")
  case (Some i)
  then show ?thesis
    using find_peer_Some [OF Some] by (auto simp: pt_modify_def map_update list_update_same_conv)
qed (simp add: pt_modify_def)

lemma length_pt_modify [simp]: "length (pt_modify f peer ps) = length ps"
  by (metis length_map map_fst_pt_modify)

lemma pt_modify_sorted [wf_intros, simp]: "pt_sorted (pt_modify f peer ps) \<longleftrightarrow> pt_sorted ps"
  by (simp add: pt_sorted_def)

lemma find_peer_modify [simp]: "find_peer (pt_modify f peer ps) q = find_peer ps q"
proof -
  let ?i = "lower_bound q (map fst ps)"
  have "?i = length ps \<or> ?i < length ps"
    unfolding lower_bound_def by (metis le_neq_implies_less length_map length_takeWhile_le)
  moreover have "?i < length ps \<Longrightarrow> fst (pt_modify f peer ps ! ?i) = fst (ps ! ?i)"
    by (metis length_pt_modify map_fst_pt_modify nth_map)
  ultimately show ?thesis
    by (auto simp: find_peer_def Let_def)
qed

lemma pt_get_modify:
  "pt_get (pt_modify f peer ps) q = (if q = peer then map_option f (pt_get ps q) else pt_get ps q)"
proof (cases "find_peer ps q")
  case None
  then show ?thesis by (auto simp: pt_get_def)
next
  case (Some i)
  note i = find_peer_Some [OF Some]
  show ?thesis
  proof (cases "q = peer")
    case True
    then have "pt_modify f peer ps ! i = (peer, f (snd (ps ! i)))"
      using Some i by (simp add: pt_modify_def)
    with Some True show ?thesis by (simp add: pt_get_def)
  next
    case False
    have "pt_modify f peer ps ! i = ps ! i"
    proof (cases "find_peer ps peer")
      case (Some j)
      then have "j \<noteq> i" using find_peer_Some(2) [OF Some] i(2) False by auto
      with Some show ?thesis by (simp add: pt_modify_def)
    qed (simp add: pt_modify_def)
    with Some False show ?thesis by (simp add: pt_get_def)
  qed
qed

lemma pt_reset_sorted [wf_intros, simp]: "pt_sorted (pt_reset peers n cap)"
  by (simp add: pt_sorted_def pt_reset_def comp_def)

lemma pt_get_Some_in: "pt_get ps peer = Some p \<Longrightarrow> (peer, p) \<in> set ps"
proof -
  assume "pt_get ps peer = Some p"
  then obtain i where i: "find_peer ps peer = Some i" and p: "p = snd (ps ! i)"
    by (auto simp: pt_get_def split: option.splits)
  have "(peer, p) = ps ! i" using find_peer_Some(2) [OF i] p by (simp add: prod_eq_iff)
  then show ?thesis using find_peer_Some(1) [OF i] by simp
qed

lemma pt_get_iff: "pt_sorted ps \<Longrightarrow> pt_get ps peer = Some p \<longleftrightarrow> (peer, p) \<in> set ps"
proof
  assume s: "pt_sorted ps" and "(peer, p) \<in> set ps"
  then obtain i where "i < length ps" "ps ! i = (peer, p)"
    by (auto simp: in_set_conv_nth)
  then show "pt_get ps peer = Some p"
    using find_peer_unique [OF s, of i peer] by (simp add: pt_get_def)
qed (rule pt_get_Some_in)


subsection \<open>Runs of progress updates\<close>

text \<open>
  The updates a leader makes to the table between two calls of \<open>reset\<close>, as one step function, and
  the invariant they keep: the table stays sorted by id, no \<open>next_index\<close> is ever 0, and no window
  holds more entries than its capacity.
\<close>

datatype progress_op =
    Mark_sent node_id log_index
  | Optimistic_update node_id log_index
  | Mark_replicated node_id log_index
  | Mark_rejected node_id log_index log_index
  | Mark_snapshot node_id log_index

fun progress_step :: "progress_op \<Rightarrow> progress_tracker \<Rightarrow> progress_tracker" where
  "progress_step (Mark_sent peer i) = mark_sent peer i"
| "progress_step (Optimistic_update peer i) = optimistic_update peer i"
| "progress_step (Mark_replicated peer i) = mark_replicated peer i"
| "progress_step (Mark_rejected peer n c) = mark_rejected peer n c"
| "progress_step (Mark_snapshot peer i) = mark_snapshot peer i"

definition window_wf :: "inflight_window \<Rightarrow> bool" where
  "window_wf w \<longleftrightarrow> length (iw_entries w) \<le> iw_capacity w"

definition progress_wf :: "peer_progress \<Rightarrow> bool" where
  "progress_wf p \<longleftrightarrow> next_index p \<noteq> 0 \<and> window_wf (inflight p)"

definition pt_wf :: "progress_tracker \<Rightarrow> bool" where
  "pt_wf ps \<longleftrightarrow> pt_sorted ps \<and> (\<forall>peer p. pt_get ps peer = Some p \<longrightarrow> progress_wf p)"

lemma window_ops_wf [simp]:
  "window_wf w \<Longrightarrow> window_wf (iw_add i w)"
  "window_wf w \<Longrightarrow> window_wf (iw_free_to i w)"
  "window_wf (iw_reset w)"
  using le_trans [OF length_dropWhile_le]
  by (auto simp: window_wf_def iw_add_def iw_full_def iw_free_to_def iw_reset_def Let_def)

lemma max_word_nonzero: "a \<noteq> 0 \<Longrightarrow> max a (b :: 'a::len word) \<noteq> 0"
  by (auto simp: max_def)

lemma word_pred_nonzero: "1 < (a :: 'a::len word) \<Longrightarrow> a - 1 \<noteq> 0"
  by auto

lemma pt_modify_wf:
  "pt_wf ps \<Longrightarrow> (\<And>p. progress_wf p \<Longrightarrow> progress_wf (f p)) \<Longrightarrow> pt_wf (pt_modify f peer ps)"
  by (auto simp: pt_wf_def pt_get_modify split: if_splits)

lemma progress_step_wf [wf_intros]: "pt_wf ps \<Longrightarrow> pt_wf (progress_step op ps)"
  by (cases op)
    (auto simp: mark_sent_def optimistic_update_def mark_replicated_def mark_rejected_def
      mark_snapshot_def progress_wf_def Let_def max_word_nonzero word_pred_nonzero
      intro!: pt_modify_wf)

lemma pt_reset_wf [wf_intros]: "n \<noteq> 0 \<Longrightarrow> pt_wf (pt_reset peers n cap)"
  by (auto simp: pt_wf_def pt_reset_def progress_wf_def window_wf_def dest!: pt_get_Some_in)
    (simp add: pt_sorted_def comp_def)

lemma window_ops_capacity [simp]:
  "iw_capacity (iw_add i w) = iw_capacity w" "iw_capacity (iw_free_to i w) = iw_capacity w"
  "iw_capacity (iw_reset w) = iw_capacity w"
  by (simp_all add: iw_add_def iw_free_to_def iw_reset_def Let_def)

lemma pt_modify_grows:
  assumes "pt_get ps peer = Some p" and "match_index p \<le> match_index (f p)"
    and "iw_capacity (inflight (f p)) = iw_capacity (inflight p)"
  shows "\<exists>p'. pt_get (pt_modify f q ps) peer = Some p' \<and> match_index p \<le> match_index p' \<and>
           iw_capacity (inflight p') = iw_capacity (inflight p)"
  using assms by (cases "peer = q") (auto simp: pt_get_modify)

lemma progress_step_get:
  assumes "pt_get ps peer = Some p"
  shows "\<exists>p'. pt_get (progress_step op ps) peer = Some p' \<and> match_index p \<le> match_index p' \<and>
           iw_capacity (inflight p') = iw_capacity (inflight p)"
  by (cases op; simp only: progress_step.simps mark_sent_def optimistic_update_def
      mark_replicated_def mark_rejected_def mark_snapshot_def)
    (rule pt_modify_grows [OF assms]; simp add: Let_def)+

lemma progress_run_get:
  assumes "pt_get ps peer = Some p"
  shows "\<exists>p'. pt_get (fold progress_step ops ps) peer = Some p' \<and> match_index p \<le> match_index p' \<and>
           iw_capacity (inflight p') = iw_capacity (inflight p)"
  using assms
proof (induction ops arbitrary: ps p)
  case (Cons op ops)
  from progress_step_get [OF Cons.prems, of op] obtain q where
    q: "pt_get (progress_step op ps) peer = Some q" "match_index p \<le> match_index q"
      "iw_capacity (inflight q) = iw_capacity (inflight p)"
    by blast
  from Cons.IH [OF q(1)] q(2,3) show ?case
    by (auto intro: order_trans)
qed auto

lemma progress_run_wf: "pt_wf ps \<Longrightarrow> pt_wf (fold progress_step ops ps)"
  by (induction ops arbitrary: ps) (auto intro: progress_step_wf)


subsection \<open>Majority of match indexes\<close>

lemma count_ge_sorted_desc:
  assumes "sorted (rev xs)" and "k < length xs"
  shows "k + 1 \<le> length (filter (\<lambda>x. xs ! k \<le> x) xs)"
    and "xs ! k < v \<Longrightarrow> length (filter (\<lambda>x. v \<le> x) xs) \<le> k"
proof -
  have desc: "xs ! j \<le> xs ! i" if "i \<le> j" "j < length xs" for i j
    using assms(1) that by (simp add: sorted_rev_nth_mono)
  have "{..k} \<subseteq> {i. i < length xs \<and> xs ! k \<le> xs ! i}"
    using assms(2) desc by auto
  then have "card {..k} \<le> card {i. i < length xs \<and> xs ! k \<le> xs ! i}"
    by (intro card_mono) auto
  then show "k + 1 \<le> length (filter (\<lambda>x. xs ! k \<le> x) xs)"
    by (simp add: length_filter_conv_card)
  assume v: "xs ! k < v"
  have "i < k" if "i < length xs" "v \<le> xs ! i" for i
  proof (rule ccontr)
    assume "\<not> i < k"
    with desc [of k i] that have "v \<le> xs ! k" by (simp add: order_trans)
    with v show False by simp
  qed
  then have "{i. i < length xs \<and> v \<le> xs ! i} \<subseteq> {..<k}" by auto
  then have "card {i. i < length xs \<and> v \<le> xs ! i} \<le> card {..<k}"
    by (intro card_mono) auto
  then show "length (filter (\<lambda>x. v \<le> x) xs) \<le> k"
    by (simp add: length_filter_conv_card)
qed

definition reached_by :: "log_index list \<Rightarrow> log_index \<Rightarrow> nat" where
  "reached_by matches v = length (filter (\<lambda>m. v \<le> m) matches)"

lemma length_filter_rev_sort: "length (filter P (rev (sort xs))) = length (filter P xs)"
  by (metis filter_sort length_rev length_sort rev_filter)


subsection \<open>Properties\<close>

text \<open>C13: After a reset with a non-zero next index, every sequence of progress updates keeps the
  table sorted, every \<open>next_index\<close> non-zero and every in-flight window within the capacity it was
  given, and the match index of a peer never decreases along the way.\<close>

theorem progress_run_invariant:
  assumes "n \<noteq> 0" and "pt_get (fold progress_step ops (pt_reset peers n cap)) peer = Some p"
  shows "pt_wf (fold progress_step ops (pt_reset peers n cap)) \<and>
    next_index p \<noteq> 0 \<and> length (iw_entries (inflight p)) \<le> iw_capacity (inflight p) \<and>
    (\<exists>p'. pt_get (fold progress_step (ops @ rest) (pt_reset peers n cap)) peer = Some p' \<and>
       match_index p \<le> match_index p' \<and> length (iw_entries (inflight p')) \<le> iw_capacity (inflight p))"
proof -
  let ?run = "\<lambda>xs. fold progress_step xs (pt_reset peers n cap)"
  have wf: "pt_wf (?run xs)" for xs
    using assms(1) by (intro progress_run_wf pt_reset_wf)
  from progress_run_get [OF assms(2), of rest] obtain p' where
    p': "pt_get (?run (ops @ rest)) peer = Some p'" "match_index p \<le> match_index p'"
      "iw_capacity (inflight p') = iw_capacity (inflight p)"
    by auto
  have "progress_wf p" "progress_wf p'"
    using wf [of ops] wf [of "ops @ rest"] assms(2) p'(1) unfolding pt_wf_def by blast+
  then show ?thesis
    using wf [of ops] p' unfolding progress_wf_def window_wf_def by metis
qed

theorem progress_run_invariant_witness:
  "(3::log_index) \<noteq> 0 \<and>
   pt_wf (fold progress_step [Mark_replicated ''b'' 2, Mark_sent ''b'' 3]
     (pt_reset [''b'', ''a''] 3 1))"
proof -
  have n: "(3::log_index) \<noteq> 0" by simp
  have g: "pt_get (fold progress_step [Mark_replicated ''b'' 2, Mark_sent ''b'' 3]
      (pt_reset [''b'', ''a''] 3 1)) ''b'' =
    Some \<lparr>next_index = 4, match_index = 2, pending_snapshot = 0, pp_state = replicate,
      recent_active = True, inflight = \<lparr>iw_capacity = 1, iw_entries = [3]\<rparr>\<rparr>"
    by code_simp
  show ?thesis using n progress_run_invariant [OF n g] by blast
qed

text \<open>C14: \<open>committed_index\<close> is the greatest index that a majority has: at least \<open>majority\<close> of the
  match indexes (the leader's own included) reach it, and fewer reach any greater index.\<close>

theorem committed_index_greatest:
  assumes "0 < majority" and "majority \<le> length ps + 1"
  shows "majority \<le> reached_by (leader_match # map (match_index \<circ> snd) ps)
                       (committed_index ps leader_match majority) \<and>
    (\<forall>v. committed_index ps leader_match majority < v \<longrightarrow>
         reached_by (leader_match # map (match_index \<circ> snd) ps) v < majority)"
proof -
  let ?ms = "leader_match # map (match_index \<circ> snd) ps"
  let ?d = "rev (sort ?ms)"
  have eq: "map (\<lambda>(_, p). match_index p) ps = map (match_index \<circ> snd) ps"
    by (simp add: case_prod_beta comp_def)
  have c: "committed_index ps leader_match majority = ?d ! (majority - 1)"
    using assms(1,2) unfolding committed_index_def eq by (simp add: Let_def)
  have "sorted (rev ?d)" unfolding rev_rev_ident by (rule sorted_sort)
  moreover have "majority - 1 < length ?d" using assms(1,2) by simp
  ultimately have d: "sorted (rev ?d)" "majority - 1 < length ?d" .
  have r: "reached_by ?ms v = length (filter (\<lambda>m. v \<le> m) ?d)" for v
    unfolding reached_by_def by (rule length_filter_rev_sort [symmetric])
  have "majority \<le> reached_by ?ms (?d ! (majority - 1))"
    using count_ge_sorted_desc(1) [OF d] assms(1) unfolding r by linarith
  moreover have "reached_by ?ms v < majority" if "?d ! (majority - 1) < v" for v
    using count_ge_sorted_desc(2) [OF d that] assms(1) unfolding r by linarith
  ultimately show ?thesis unfolding c by blast
qed

theorem committed_index_greatest_witness:
  "committed_index (fold progress_step [Mark_replicated ''b'' 7, Mark_replicated ''c'' 4]
     (pt_reset [''b'', ''c''] 1 8)) 9 2 = 7 \<and>
   2 \<le> reached_by [9, 7, 4] 7"
proof -
  let ?ps = "fold progress_step [Mark_replicated ''b'' 7, Mark_replicated ''c'' 4]
     (pt_reset [''b'', ''c''] 1 8)"
  have c: "committed_index ?ps 9 2 = 7" and l: "length ?ps = 2"
    and m: "map (match_index \<circ> snd) ?ps = [7, 4]"
    by code_simp+
  have h: "0 < (2::nat)" "2 \<le> length ?ps + 1" using l by simp_all
  show ?thesis
    using committed_index_greatest [OF h, of 9] unfolding c m by blast
qed

end
