(* ===== verification/Raft_Storage.thy ===== *)
theory Raft_Storage
  imports Raft_Types
begin

text \<open>
  The storage interface of \<open>src/src/protocol/raft/storage.cppm\<close>. The abstract class
  \<open>raft_storage\<close> is a record with one function per virtual member (its vtable) over a type \<open>'s\<close> of
  store states. A reader returns its value; a writer returns the exception it throws, if any, and the
  store it leaves behind. Readers do not throw here.

  What the rest of the stack relies on is the locale \<open>raft_store\<close>: a store has a view, the hard
  state, the snapshot metadata and the log entries in strictly increasing order of index; each reader
  reads the view, each writer that returns has the stated effect on it, and a writer that throws
  leaves it as it was.
\<close>

type_synonym 's writer = "'s \<Rightarrow> exn option \<times> 's"

record 's raft_storage =
  load_hard_state :: "'s \<Rightarrow> hard_state"
  save_hard_state :: "hard_state \<Rightarrow> 's writer"
  load_snapshot_metadata :: "'s \<Rightarrow> snapshot_metadata"
  save_snapshot_metadata :: "snapshot_metadata \<Rightarrow> 's writer"
  first_log_index :: "'s \<Rightarrow> log_index"
  last_log_index :: "'s \<Rightarrow> log_index"
  term_at :: "'s \<Rightarrow> log_index \<Rightarrow> term_t"
  entry_at :: "'s \<Rightarrow> log_index \<Rightarrow> log_entry option"
  stored_entries :: "'s \<Rightarrow> log_index \<Rightarrow> nat \<Rightarrow> log_entry list"
  store_append :: "log_entry list \<Rightarrow> 's writer"
  store_append_one :: "log_entry \<Rightarrow> 's writer"
  truncate_prefix :: "log_index \<Rightarrow> 's writer"
  truncate_suffix :: "log_index \<Rightarrow> 's writer"
  reset_to_snapshot :: "snapshot_metadata \<Rightarrow> 's writer"

definition last_log_term :: "'s raft_storage \<Rightarrow> 's \<Rightarrow> term_t" where
  "last_log_term S s = term_at S s (last_log_index S s)"

definition last_log_id :: "'s raft_storage \<Rightarrow> 's \<Rightarrow> log_id" where
  "last_log_id S s =
     (let last = last_log_index S s in \<lparr>li_index = last, li_term = term_at S s last\<rparr>)"

definition is_log_at_least_up_to_date :: "'s raft_storage \<Rightarrow> 's \<Rightarrow> log_index \<Rightarrow> term_t \<Rightarrow> bool" where
  "is_log_at_least_up_to_date S s candidate_last_index candidate_last_term =
     (let local_last_term = last_log_term S s in
      if candidate_last_term \<noteq> local_last_term then candidate_last_term > local_last_term
      else candidate_last_index \<ge> last_log_index S s)"


subsection \<open>The view of a store\<close>

record store_view =
  sv_hard :: hard_state
  sv_snap :: snapshot_metadata
  sv_entries :: "log_entry list"

definition strict_log :: "log_entry list \<Rightarrow> bool" where
  "strict_log es \<longleftrightarrow> sorted_wrt (\<lambda>a b. le_index a < le_index b) es"

definition log_find :: "log_entry list \<Rightarrow> log_index \<Rightarrow> log_entry option" where
  "log_find es i = find (\<lambda>e. le_index e = i) es"

definition view_first :: "store_view \<Rightarrow> log_index" where
  "view_first v = (if sv_entries v = [] then last_included_index (sv_snap v) + 1
                   else le_index (hd (sv_entries v)))"

definition view_last :: "store_view \<Rightarrow> log_index" where
  "view_last v = (if sv_entries v = [] then last_included_index (sv_snap v)
                  else le_index (last (sv_entries v)))"

definition view_term :: "store_view \<Rightarrow> log_index \<Rightarrow> term_t" where
  "view_term v i =
     (if i = 0 then 0
      else if i = last_included_index (sv_snap v) then last_included_term (sv_snap v)
      else case log_find (sv_entries v) i of Some e \<Rightarrow> le_term e | None \<Rightarrow> 0)"

definition view_append :: "log_entry list \<Rightarrow> store_view \<Rightarrow> store_view" where
  "view_append es v =
     v\<lparr>sv_entries := filter (\<lambda>e. le_index e < le_index (hd es)) (sv_entries v) @ es\<rparr>"

definition view_reset :: "snapshot_metadata \<Rightarrow> store_view \<Rightarrow> store_view" where
  "view_reset m v =
     v\<lparr>sv_snap := m, sv_entries := [],
       sv_hard := (sv_hard v)
         \<lparr>commit_index := max (commit_index (sv_hard v)) (last_included_index m),
          last_applied := max (last_applied (sv_hard v)) (last_included_index m)\<rparr>\<rparr>"

text \<open>A batch the store accepts: strictly increasing indexes, all beyond the snapshot.\<close>

definition appendable :: "store_view \<Rightarrow> log_entry list \<Rightarrow> bool" where
  "appendable v es \<longleftrightarrow> es \<noteq> [] \<and> strict_log es \<and> (\<forall>e \<in> set es. last_included_index (sv_snap v) < le_index e)"

definition writes :: "('s \<Rightarrow> store_view) \<Rightarrow> ('s \<Rightarrow> bool) \<Rightarrow> 's writer \<Rightarrow> 's \<Rightarrow>
    (store_view \<Rightarrow> store_view) \<Rightarrow> bool" where
  "writes view invar w s f \<longleftrightarrow>
     (case w s of
        (None, s') \<Rightarrow> invar s' \<and> view s' = f (view s)
      | (Some _, s') \<Rightarrow> invar s' \<and> view s' = view s)"

locale raft_store =
  fixes S :: "'s raft_storage" and view :: "'s \<Rightarrow> store_view" and invar :: "'s \<Rightarrow> bool"
  assumes view_strict: "invar s \<Longrightarrow> strict_log (sv_entries (view s))"
    and load_hard: "invar s \<Longrightarrow> load_hard_state S s = sv_hard (view s)"
    and load_snap: "invar s \<Longrightarrow> load_snapshot_metadata S s = sv_snap (view s)"
    and first_index: "invar s \<Longrightarrow> first_log_index S s = view_first (view s)"
    and last_index: "invar s \<Longrightarrow> last_log_index S s = view_last (view s)"
    and term_lookup: "invar s \<Longrightarrow> term_at S s i = view_term (view s) i"
    and entry_lookup: "invar s \<Longrightarrow> entry_at S s i = log_find (sv_entries (view s)) i"
    and entries_range: "invar s \<Longrightarrow>
      stored_entries S s i n = take n (filter (\<lambda>e. i \<le> le_index e) (sv_entries (view s)))"
    and save_hard: "invar s \<Longrightarrow> writes view invar (save_hard_state S h) s (\<lambda>v. v\<lparr>sv_hard := h\<rparr>)"
    and save_snap: "invar s \<Longrightarrow>
      writes view invar (save_snapshot_metadata S m) s (\<lambda>v. v\<lparr>sv_snap := m\<rparr>)"
    and append_many: "invar s \<Longrightarrow> appendable (view s) es \<Longrightarrow>
      writes view invar (store_append S es) s (view_append es)"
    and append_single: "invar s \<Longrightarrow> appendable (view s) [e] \<Longrightarrow>
      writes view invar (store_append_one S e) s (view_append [e])"
    and drop_prefix: "invar s \<Longrightarrow> writes view invar (truncate_prefix S i) s
      (\<lambda>v. v\<lparr>sv_entries := filter (\<lambda>e. i \<le> le_index e) (sv_entries v)\<rparr>)"
    and drop_suffix: "invar s \<Longrightarrow> writes view invar (truncate_suffix S i) s
      (\<lambda>v. v\<lparr>sv_entries := filter (\<lambda>e. le_index e < i) (sv_entries v)\<rparr>)"
    and reset_snap: "invar s \<Longrightarrow> writes view invar (reset_to_snapshot S m) s (view_reset m)"
begin

lemmas reads = load_hard load_snap first_index last_index term_lookup entry_lookup entries_range

end


subsection \<open>Strictly sorted logs\<close>

lemma strict_log_simps [simp]:
  "strict_log []" "strict_log (e # es) \<longleftrightarrow> (\<forall>x \<in> set es. le_index e < le_index x) \<and> strict_log es"
  by (auto simp: strict_log_def)

lemma strict_log_append:
  "strict_log (xs @ ys) \<longleftrightarrow> strict_log xs \<and> strict_log ys \<and>
     (\<forall>x \<in> set xs. \<forall>y \<in> set ys. le_index x < le_index y)"
  by (auto simp: strict_log_def sorted_wrt_append)

lemma strict_log_filter [simp]: "strict_log es \<Longrightarrow> strict_log (filter P es)"
  by (simp add: strict_log_def sorted_wrt_filter)

lemma strict_log_hd_least: "strict_log es \<Longrightarrow> e \<in> set es \<Longrightarrow> le_index (hd es) \<le> le_index e"
  by (cases es) (auto intro: less_imp_le)

lemma strict_log_last_greatest: "strict_log es \<Longrightarrow> e \<in> set es \<Longrightarrow> le_index e \<le> le_index (last es)"
  by (induction es) (auto intro: less_imp_le)

lemma log_find_simps [simp]:
  "log_find [] i = None"
  "log_find (e # es) i = (if le_index e = i then Some e else log_find es i)"
  by (simp_all add: log_find_def)

lemma log_find_append:
  "log_find (xs @ ys) i = (case log_find xs i of Some e \<Rightarrow> Some e | None \<Rightarrow> log_find ys i)"
  by (induction xs) auto

lemma log_find_Some_in: "log_find es i = Some e \<Longrightarrow> e \<in> set es \<and> le_index e = i"
  by (induction es) (auto split: if_splits)

lemma log_find_None_iff: "log_find es i = None \<longleftrightarrow> (\<forall>e \<in> set es. le_index e \<noteq> i)"
  by (induction es) auto

lemma log_find_iff: "strict_log es \<Longrightarrow> log_find es i = Some e \<longleftrightarrow> e \<in> set es \<and> le_index e = i"
  by (induction es) auto

lemma log_find_filter_index [simp]:
  "log_find (filter (\<lambda>e. le_index e < k) es) i = (if i < k then log_find es i else None)"
  "log_find (filter (\<lambda>e. k \<le> le_index e) es) i = (if k \<le> i then log_find es i else None)"
  by (induction es) auto

lemma find_eq_log_find: "find (\<lambda>e. le_index e = i) es = log_find es i"
  by (simp add: log_find_def)

lemma view_append_strict:
  "strict_log (sv_entries v) \<Longrightarrow> appendable v es \<Longrightarrow> strict_log (sv_entries (view_append es v))"
  by (auto simp: view_append_def appendable_def strict_log_append
      intro: less_le_trans strict_log_hd_least)

lemma view_append_find:
  assumes "strict_log es" "es \<noteq> []"
  shows "log_find (sv_entries (view_append es v)) i =
    (if i < le_index (hd es) then log_find (sv_entries v) i else log_find es i)"
proof (cases "i < le_index (hd es)")
  case True
  then have "log_find es i = None"
    using assms strict_log_hd_least [of es] by (fastforce simp: log_find_None_iff)
  with True show ?thesis
    by (simp add: view_append_def log_find_append split: option.split)
next
  case False
  then show ?thesis
    by (simp add: view_append_def log_find_append)
qed

lemma view_append_last: "es \<noteq> [] \<Longrightarrow> view_last (view_append es v) = le_index (last es)"
  by (simp add: view_last_def view_append_def)

end
