(* ===== verification/Raft_Memory_Store.thy ===== *)
theory Raft_Memory_Store
  imports Raft_Storage
begin

text \<open>
  The in-memory store, from \<open>src/src/protocol/raft/raft_memory_store.cpp\<close>, and its interpretation
  as a \<open>raft_store\<close>. The entries are a vector searched by \<open>lower_bound\<close> on the index; the standard
  defines that search on a partitioned range, which the invariant \<open>ms_wf\<close> (strictly increasing
  indexes) guarantees. \<open>sort\<close> by index is a stable sort here; entries of one batch with equal
  indexes, whose order the standard leaves open, do not occur in the batches the log manager appends.
\<close>

record memory_store =
  ms_state :: hard_state
  ms_snapshot :: snapshot_metadata
  ms_entries :: "log_entry list"

definition empty_memory_store :: memory_store where
  "empty_memory_store = \<lparr>ms_state = default_hard_state, ms_snapshot = default_snapshot_metadata,
     ms_entries = []\<rparr>"

definition ms_save_hard_state :: "hard_state \<Rightarrow> memory_store \<Rightarrow> memory_store" where
  "ms_save_hard_state h s = s\<lparr>ms_state := h\<rparr>"

definition ms_save_snapshot_metadata :: "snapshot_metadata \<Rightarrow> memory_store \<Rightarrow> memory_store" where
  "ms_save_snapshot_metadata m s = s\<lparr>ms_snapshot := m\<rparr>"

definition ms_first_log_index :: "memory_store \<Rightarrow> log_index" where
  "ms_first_log_index s =
     (if ms_entries s = [] then last_included_index (ms_snapshot s) + 1
      else le_index (hd (ms_entries s)))"

definition ms_last_log_index :: "memory_store \<Rightarrow> log_index" where
  "ms_last_log_index s =
     (if ms_entries s = [] then last_included_index (ms_snapshot s)
      else le_index (last (ms_entries s)))"

definition lower_bound_offset :: "memory_store \<Rightarrow> log_index \<Rightarrow> nat" where
  "lower_bound_offset s index = lower_bound index (map le_index (ms_entries s))"

definition find_offset :: "memory_store \<Rightarrow> log_index \<Rightarrow> nat option" where
  "find_offset s index =
     (let pos = lower_bound_offset s index in
      if pos < length (ms_entries s) \<and> le_index (ms_entries s ! pos) = index then Some pos else None)"

definition ms_term_at :: "memory_store \<Rightarrow> log_index \<Rightarrow> term_t" where
  "ms_term_at s index =
     (if index = 0 then 0
      else if index = last_included_index (ms_snapshot s) then last_included_term (ms_snapshot s)
      else case find_offset s index of Some pos \<Rightarrow> le_term (ms_entries s ! pos) | None \<Rightarrow> 0)"

definition ms_entry_at :: "memory_store \<Rightarrow> log_index \<Rightarrow> log_entry option" where
  "ms_entry_at s index =
     (case find_offset s index of Some pos \<Rightarrow> Some (ms_entries s ! pos) | None \<Rightarrow> None)"

definition ms_entries_range :: "memory_store \<Rightarrow> log_index \<Rightarrow> nat \<Rightarrow> log_entry list" where
  "ms_entries_range s first_index max_entries =
     (if max_entries = 0 then []
      else
        let first = lower_bound_offset s first_index in
        if first \<ge> length (ms_entries s) then []
        else
          let count = min max_entries (length (ms_entries s) - first)
          in take count (drop first (ms_entries s)))"

definition ms_truncate_prefix :: "log_index \<Rightarrow> memory_store \<Rightarrow> memory_store" where
  "ms_truncate_prefix first_kept_index s =
     s\<lparr>ms_entries := drop (lower_bound_offset s first_kept_index) (ms_entries s)\<rparr>"

definition ms_truncate_suffix :: "log_index \<Rightarrow> memory_store \<Rightarrow> memory_store" where
  "ms_truncate_suffix first_removed_index s =
     (if first_removed_index = 0 then s\<lparr>ms_entries := []\<rparr>
      else s\<lparr>ms_entries := take (lower_bound_offset s first_removed_index) (ms_entries s)\<rparr>)"

definition ms_append_one :: "log_entry \<Rightarrow> memory_store \<Rightarrow> memory_store" where
  "ms_append_one entry s =
     (if le_index entry \<le> last_included_index (ms_snapshot s) then s
      else if (ms_entries s \<noteq> [] \<and> le_index entry = le_index (last (ms_entries s)) + 1) \<or>
              (ms_entries s = [] \<and> le_index entry = last_included_index (ms_snapshot s) + 1) then
        s\<lparr>ms_entries := ms_entries s @ [entry]\<rparr>
      else
        let s = ms_truncate_suffix (le_index entry) s
        in s\<lparr>ms_entries := ms_entries s @ [entry]\<rparr>)"

definition ms_append :: "log_entry list \<Rightarrow> memory_store \<Rightarrow> memory_store" where
  "ms_append entries s =
     (if length entries = 1 then ms_append_one (hd entries) s
      else
        let to_append = filter (\<lambda>e. le_index e > last_included_index (ms_snapshot s)) entries in
        if to_append = [] then s
        else
          let to_append = sort_key le_index to_append;
              s = ms_truncate_suffix (le_index (hd to_append)) s
          in s\<lparr>ms_entries := ms_entries s @ to_append\<rparr>)"

definition ms_reset_to_snapshot :: "snapshot_metadata \<Rightarrow> memory_store \<Rightarrow> memory_store" where
  "ms_reset_to_snapshot metadata s =
     s\<lparr>ms_snapshot := metadata, ms_entries := [],
       ms_state := (ms_state s)
         \<lparr>commit_index := max (commit_index (ms_state s)) (last_included_index metadata),
          last_applied := max (last_applied (ms_state s)) (last_included_index metadata)\<rparr>\<rparr>"

definition memory_store_ops :: "memory_store raft_storage" where
  "memory_store_ops =
     \<lparr>load_hard_state = ms_state,
      save_hard_state = (\<lambda>h s. (None, ms_save_hard_state h s)),
      load_snapshot_metadata = ms_snapshot,
      save_snapshot_metadata = (\<lambda>m s. (None, ms_save_snapshot_metadata m s)),
      first_log_index = ms_first_log_index,
      last_log_index = ms_last_log_index,
      term_at = ms_term_at,
      entry_at = ms_entry_at,
      stored_entries = ms_entries_range,
      store_append = (\<lambda>es s. (None, ms_append es s)),
      store_append_one = (\<lambda>e s. (None, ms_append_one e s)),
      truncate_prefix = (\<lambda>i s. (None, ms_truncate_prefix i s)),
      truncate_suffix = (\<lambda>i s. (None, ms_truncate_suffix i s)),
      reset_to_snapshot = (\<lambda>m s. (None, ms_reset_to_snapshot m s))\<rparr>"


subsection \<open>The memory store is a store\<close>

definition ms_view :: "memory_store \<Rightarrow> store_view" where
  "ms_view s = \<lparr>sv_hard = ms_state s, sv_snap = ms_snapshot s, sv_entries = ms_entries s\<rparr>"

definition ms_wf :: "memory_store \<Rightarrow> bool" where
  "ms_wf s \<longleftrightarrow> strict_log (ms_entries s)"

lemma empty_memory_store_wf [wf_intros, simp]: "ms_wf empty_memory_store"
  by (simp add: ms_wf_def empty_memory_store_def)

lemma takeWhile_index_eq_filter:
  "strict_log es \<Longrightarrow> takeWhile (\<lambda>e. le_index e < i) es = filter (\<lambda>e. le_index e < i) es"
proof (induction es)
  case (Cons e es)
  show ?case
  proof (cases "le_index e < i")
    case False
    then have "filter (\<lambda>e. le_index e < i) es = []"
      using Cons.prems by (auto simp: filter_empty_conv)
    with False show ?thesis by simp
  qed (use Cons in simp)
qed simp

lemma dropWhile_index_eq_filter:
  "strict_log es \<Longrightarrow> dropWhile (\<lambda>e. le_index e < i) es = filter (\<lambda>e. i \<le> le_index e) es"
proof (induction es)
  case (Cons e es)
  show ?case
  proof (cases "le_index e < i")
    case False
    then have "filter (\<lambda>e. i \<le> le_index e) es = es"
      using Cons.prems by (auto intro!: filter_True)
    with False show ?thesis by simp
  qed (use Cons in simp)
qed simp

lemma lower_bound_offset_eq:
  "lower_bound_offset s i = length (takeWhile (\<lambda>e. le_index e < i) (ms_entries s))"
  by (simp add: lower_bound_offset_def lower_bound_def takeWhile_map comp_def)

lemma take_offset: "ms_wf s \<Longrightarrow>
    take (lower_bound_offset s i) (ms_entries s) = filter (\<lambda>e. le_index e < i) (ms_entries s)"
  using takeWhile_index_eq_filter [of "ms_entries s" i]
  by (metis lower_bound_offset_eq ms_wf_def takeWhile_eq_take)

lemma drop_offset: "ms_wf s \<Longrightarrow>
    drop (lower_bound_offset s i) (ms_entries s) = filter (\<lambda>e. i \<le> le_index e) (ms_entries s)"
  using dropWhile_index_eq_filter [of "ms_entries s" i]
  by (simp add: lower_bound_offset_eq ms_wf_def dropWhile_eq_drop [symmetric])

lemma find_offset_lookup:
  assumes "ms_wf s"
  shows "(case find_offset s i of Some pos \<Rightarrow> Some (ms_entries s ! pos) | None \<Rightarrow> None) =
           log_find (ms_entries s) i"
proof -
  let ?es = "ms_entries s" and ?p = "lower_bound_offset s i"
  have "log_find ?es i = log_find (drop ?p ?es) i"
    using assms by (simp add: drop_offset)
  also have "\<dots> = (if ?p < length ?es \<and> le_index (?es ! ?p) = i then Some (?es ! ?p) else None)"
  proof (cases "?p < length ?es")
    case True
    then have d: "drop ?p ?es = ?es ! ?p # drop (Suc ?p) ?es"
      by (rule Cons_nth_drop_Suc [symmetric])
    have ge: "e \<in> set (drop ?p ?es) \<Longrightarrow> i \<le> le_index e" for e
      using assms by (simp add: drop_offset)
    have "strict_log (drop ?p ?es)"
      using assms by (simp add: drop_offset ms_wf_def)
    then have "log_find (drop (Suc ?p) ?es) i = None" if "le_index (?es ! ?p) \<noteq> i"
      using ge that unfolding d by (fastforce simp: log_find_None_iff)
    then show ?thesis using True unfolding d by auto
  qed simp
  finally show ?thesis
    by (simp add: find_offset_def Let_def)
qed

lemma find_offset_term:
  assumes "ms_wf s"
  shows "(case find_offset s i of Some pos \<Rightarrow> le_term (ms_entries s ! pos) | None \<Rightarrow> 0) =
           (case log_find (ms_entries s) i of Some e \<Rightarrow> le_term e | None \<Rightarrow> 0)"
  unfolding find_offset_lookup [OF assms, symmetric] by (simp split: option.split)

lemma ms_entries_range_eq:
  "ms_wf s \<Longrightarrow> ms_entries_range s i n = take n (filter (\<lambda>e. i \<le> le_index e) (ms_entries s))"
  by (auto simp: ms_entries_range_def Let_def drop_offset [symmetric] min_def)

lemma ms_truncate_suffix_eq:
  "ms_wf s \<Longrightarrow> ms_truncate_suffix i s = s\<lparr>ms_entries := filter (\<lambda>e. le_index e < i) (ms_entries s)\<rparr>"
  by (simp add: ms_truncate_suffix_def take_offset)

lemma ms_append_one_view:
  assumes "ms_wf s" and "appendable (ms_view s) [e]"
  shows "ms_view (ms_append_one e s) = view_append [e] (ms_view s)"
proof -
  have gt: "last_included_index (ms_snapshot s) < le_index e"
    using assms(2) by (simp add: appendable_def ms_view_def)
  show ?thesis
  proof (cases "ms_entries s \<noteq> [] \<and> le_index e = le_index (last (ms_entries s)) + 1")
    case True
    have "le_index e \<noteq> 0" using gt by (metis word_zero_le leD)
    with True have "le_index (last (ms_entries s)) < le_index e"
      using word_less_inc [of "le_index (last (ms_entries s))"] by auto
    then have "filter (\<lambda>x. le_index x < le_index e) (ms_entries s) = ms_entries s"
      using strict_log_last_greatest assms(1) by (fastforce simp: ms_wf_def intro!: filter_True)
    with True gt show ?thesis
      by (simp add: ms_append_one_def ms_view_def view_append_def)
  next
    case False
    with gt assms(1) show ?thesis
      by (auto simp: ms_append_one_def ms_view_def view_append_def Let_def ms_truncate_suffix_eq)
  qed
qed

lemma ms_append_view:
  assumes "ms_wf s" and "appendable (ms_view s) es"
  shows "ms_view (ms_append es s) = view_append es (ms_view s)"
proof (cases "length es = 1")
  case True
  then obtain e where "es = [e]" by (auto simp: length_Suc_conv)
  with assms show ?thesis by (simp add: ms_append_def ms_append_one_view)
next
  case False
  have f: "filter (\<lambda>e. last_included_index (ms_snapshot s) < le_index e) es = es"
    using assms(2) by (auto simp: appendable_def ms_view_def intro!: filter_True)
  have "sorted (map le_index es)"
    using assms(2) by (auto simp: appendable_def strict_log_def sorted_wrt_map
        intro: sorted_wrt_mono_rel [rotated] less_imp_le)
  then have k: "sort_key le_index es = es" by (rule sort_key_id_if_sorted)
  show ?thesis
    using False assms f k
    by (auto simp: ms_append_def Let_def ms_truncate_suffix_eq ms_view_def view_append_def
        appendable_def)
qed

lemma ms_wf_view: "ms_wf s \<longleftrightarrow> strict_log (sv_entries (ms_view s))"
  by (simp add: ms_wf_def ms_view_def)

interpretation mem: raft_store memory_store_ops ms_view ms_wf
proof
  fix s :: memory_store and es :: "log_entry list" and e
  assume wf: "ms_wf s"
  show "strict_log (sv_entries (ms_view s))" using wf by (simp add: ms_wf_view)
  show "appendable (ms_view s) es \<Longrightarrow>
      writes ms_view ms_wf (store_append memory_store_ops es) s (view_append es)"
    using wf by (simp add: writes_def memory_store_ops_def ms_wf_view ms_append_view
        view_append_strict)
  show "appendable (ms_view s) [e] \<Longrightarrow>
      writes ms_view ms_wf (store_append_one memory_store_ops e) s (view_append [e])"
    using wf by (simp add: writes_def memory_store_ops_def ms_wf_view ms_append_one_view
        view_append_strict)
qed (auto simp: memory_store_ops_def writes_def ms_wf_def ms_view_def view_first_def view_last_def
    view_term_def ms_first_log_index_def ms_last_log_index_def ms_term_at_def ms_entry_at_def
    find_offset_lookup [unfolded ms_wf_def] find_offset_term [unfolded ms_wf_def]
    ms_entries_range_eq [unfolded ms_wf_def] ms_save_hard_state_def ms_save_snapshot_metadata_def
    ms_truncate_prefix_def drop_offset [unfolded ms_wf_def]
    ms_truncate_suffix_eq [unfolded ms_wf_def] ms_reset_to_snapshot_def view_reset_def)


subsection \<open>Properties\<close>

text \<open>C16: Appending a batch of strictly increasing entries beyond the snapshot replaces the log from
  the first new index on and keeps everything before it: afterwards a lookup below the first new
  index finds what it found before, a lookup from there on finds the batch's entry or nothing, the
  last index is the batch's last one, and the index order the binary searches need is kept.\<close>

theorem memory_store_append_lookup:
  assumes "ms_wf s" and "appendable (ms_view s) es"
  shows "ms_wf (ms_append es s) \<and>
    (\<forall>i. ms_entry_at (ms_append es s) i =
          (if i < le_index (hd es) then ms_entry_at s i else log_find es i)) \<and>
    ms_last_log_index (ms_append es s) = le_index (last es)"
proof -
  have es: "es \<noteq> []" "strict_log es" using assms(2) by (auto simp: appendable_def)
  have wf: "ms_wf (ms_append es s)"
    and v: "ms_view (ms_append es s) = view_append es (ms_view s)"
    using mem.append_many [OF assms] by (auto simp: writes_def memory_store_ops_def)
  have at: "ms_entry_at t i = log_find (sv_entries (ms_view t)) i" if "ms_wf t" for t i
    using mem.entry_lookup [OF that] by (simp add: memory_store_ops_def)
  have last: "ms_last_log_index t = view_last (ms_view t)" if "ms_wf t" for t
    using mem.last_index [OF that] by (simp add: memory_store_ops_def)
  show ?thesis
    using wf es by (simp add: at [OF wf] at [OF assms(1)] last [OF wf] v view_append_find
        view_append_last)
qed

theorem memory_store_append_lookup_witness:
  "ms_entry_at (ms_append [default_log_entry\<lparr>le_index := 2, le_term := 3\<rparr>]
     (ms_append_one (default_log_entry\<lparr>le_index := 2, le_term := 1\<rparr>)
       (ms_append_one (default_log_entry\<lparr>le_index := 1, le_term := 1\<rparr>) empty_memory_store))) 2 =
   Some (default_log_entry\<lparr>le_index := 2, le_term := 3\<rparr>)"
proof -
  let ?s = "ms_append_one (default_log_entry\<lparr>le_index := 2, le_term := 1\<rparr>)
       (ms_append_one (default_log_entry\<lparr>le_index := 1, le_term := 1\<rparr>) empty_memory_store)"
  let ?es = "[default_log_entry\<lparr>le_index := 2, le_term := 3\<rparr>]"
  have wf: "ms_wf ?s"
    by (simp add: ms_wf_def ms_append_one_def empty_memory_store_def default_snapshot_metadata_def)
  have a: "appendable (ms_view ?s) ?es"
    by (simp add: appendable_def ms_view_def ms_append_one_def empty_memory_store_def
        default_snapshot_metadata_def)
  show ?thesis
    using memory_store_append_lookup [OF wf a] by simp
qed

end
