(* ===== verification/Raft_Log_Manager.thy ===== *)
theory Raft_Log_Manager
  imports Raft_Memory_Store
begin

text \<open>
  Log matching, conflict resolution and leader appends, from
  \<open>src/src/protocol/raft/log_manager.cpp\<close>. The log manager has no state of its own but the store it
  shares with the node, so its operations take the store's vtable and state. An operation that writes
  returns the exception that escapes it or its result, with the store it leaves.
\<close>

record append_result =
  ar_success :: bool
  ar_match_index :: log_index
  ar_conflict_index :: log_index
  ar_conflict_term :: term_t
  ar_error :: raft_error

definition default_append_result :: append_result where
  "default_append_result = \<lparr>ar_success = False, ar_match_index = 0, ar_conflict_index = 0,
     ar_conflict_term = 0, ar_error = default_raft_error\<rparr>"

definition log_match :: "'s raft_storage \<Rightarrow> 's \<Rightarrow> log_index \<Rightarrow> term_t \<Rightarrow> bool" where
  "log_match S s index term0 = (term_at S s index = term0)"

definition log_append_one :: "'s raft_storage \<Rightarrow> log_entry \<Rightarrow> 's \<Rightarrow> (exn + log_entry) \<times> 's" where
  "log_append_one S entry s =
     (case store_append_one S entry s of
        (None, s') \<Rightarrow> (Inr entry, s')
      | (Some e, s') \<Rightarrow> (Inl e, s'))"

definition append_as_leader :: "'s raft_storage \<Rightarrow> term_t \<Rightarrow> string \<Rightarrow> 's \<Rightarrow>
    (exn + log_entry) \<times> 's" where
  "append_as_leader S term0 cmd s =
     log_append_one S (default_log_entry\<lparr>le_index := last_log_index S s + 1, le_term := term0,
       le_type := command, le_command := cmd\<rparr>) s"

definition append_noop :: "'s raft_storage \<Rightarrow> term_t \<Rightarrow> 's \<Rightarrow> (exn + log_entry) \<times> 's" where
  "append_noop S term0 s =
     log_append_one S (default_log_entry\<lparr>le_index := last_log_index S s + 1, le_term := term0,
       le_type := no_op\<rparr>) s"

definition log_append_configuration :: "'s raft_storage \<Rightarrow> term_t \<Rightarrow> configuration_state \<Rightarrow> 's \<Rightarrow>
    (exn + log_entry) \<times> 's" where
  "log_append_configuration S term0 conf s =
     log_append_one S (default_log_entry\<lparr>le_index := last_log_index S s + 1, le_term := term0,
       le_type := configuration_entry, le_configuration := conf\<rparr>) s"

function conflict_loop :: "'s raft_storage \<Rightarrow> 's \<Rightarrow> term_t \<Rightarrow> log_index \<Rightarrow> log_index" where
  "conflict_loop S s local_term index =
     (if index > first_log_index S s \<and> term_at S s (index - 1) = local_term
      then conflict_loop S s local_term (index - 1) else index)"
  by pat_completeness auto
termination
  by (relation "measure (\<lambda>(S, s, local_term, index). unat index)") (auto intro: unat_dec_less)

declare conflict_loop.simps [simp del]

definition conflict_result :: "'s raft_storage \<Rightarrow> 's \<Rightarrow> log_index \<Rightarrow> term_t \<Rightarrow> append_result" where
  "conflict_result S s prev_index prev_term =
     (let result = \<lparr>ar_success = False,
            ar_match_index = (if prev_index > 0 then prev_index - 1 else 0),
            ar_conflict_index = last_log_index S s + 1, ar_conflict_term = 0,
            ar_error = mk_error log_inconsistent ''previous log term mismatch''\<rparr>;
          local_term = term_at S s prev_index
      in if local_term = 0 then result
         else result\<lparr>ar_conflict_term := local_term,
                     ar_conflict_index := conflict_loop S s local_term prev_index\<rparr>)"

text \<open>
  The loop over the leader's entries: the match index reached, and where it breaks, the entries from
  there on with whether the local log conflicts there and is truncated first.
\<close>

fun scan_entries :: "'s raft_storage \<Rightarrow> 's \<Rightarrow> log_index \<Rightarrow> log_index \<Rightarrow> log_entry list \<Rightarrow>
    log_index \<times> (bool \<times> log_entry list) option" where
  "scan_entries S s snapshot_index match_index [] = (match_index, None)"
| "scan_entries S s snapshot_index match_index (entry # entries) =
     (if le_index entry \<le> snapshot_index then
        scan_entries S s snapshot_index (max match_index (le_index entry)) entries
      else
        let local_term = term_at S s (le_index entry) in
        if local_term \<noteq> 0 \<and> local_term \<noteq> le_term entry then
          (match_index, Some (True, entry # entries))
        else if local_term = 0 then (match_index, Some (False, entry # entries))
        else scan_entries S s snapshot_index (max match_index (le_index entry)) entries)"

definition append_from_leader :: "'s raft_storage \<Rightarrow> log_index \<Rightarrow> term_t \<Rightarrow> log_entry list \<Rightarrow> 's \<Rightarrow>
    (exn + append_result) \<times> 's" where
  "append_from_leader S prev_index prev_term entries s =
     (if \<not> log_match S s prev_index prev_term then (Inr (conflict_result S s prev_index prev_term), s)
      else
        let snapshot_index = last_included_index (load_snapshot_metadata S s);
            ok = (\<lambda>m. default_append_result\<lparr>ar_success := True, ar_match_index := m\<rparr>)
        in case scan_entries S s snapshot_index prev_index entries of
             (match_index, None) \<Rightarrow> (Inr (ok match_index), s)
           | (match_index, Some (conflict, rest)) \<Rightarrow>
               (case (if conflict then truncate_suffix S (le_index (hd rest)) s else (None, s)) of
                  (Some e, s1) \<Rightarrow> (Inl e, s1)
                | (None, s1) \<Rightarrow>
                    let to_append = filter (\<lambda>e. \<not> le_index e \<le> snapshot_index) rest in
                    if to_append = [] then (Inr (ok match_index), s1)
                    else
                      case store_append S to_append s1 of
                        (Some e, s2) \<Rightarrow> (Inl e, s2)
                      | (None, s2) \<Rightarrow>
                          (Inr (ok (max match_index (le_index (last to_append)))), s2)))"

definition restore_snapshot :: "'s raft_storage \<Rightarrow> snapshot_metadata \<Rightarrow> 's \<Rightarrow>
    (exn + append_result) \<times> 's" where
  "restore_snapshot S metadata s =
     (if \<not> snapshot_valid metadata then
        (Inr (default_append_result\<lparr>ar_success := False,
                ar_error := mk_error configuration_error ''snapshot metadata is empty''\<rparr>), s)
      else
        case reset_to_snapshot S metadata s of
          (Some e, s') \<Rightarrow> (Inl e, s')
        | (None, s') \<Rightarrow>
            (Inr (default_append_result\<lparr>ar_success := True,
                    ar_match_index := last_included_index metadata\<rparr>), s'))"

definition compact_prefix :: "'s raft_storage \<Rightarrow> log_index \<Rightarrow> 's writer" where
  "compact_prefix S first_kept_index = truncate_prefix S first_kept_index"


subsection \<open>Merging a leader's entries\<close>

text \<open>
  The specification of \<open>append_from_leader\<close> on the view of a store: skip the entries that the snapshot
  covers or whose term the log already has at their index, and let the rest, from the first one that
  does not agree, replace the log from its index on.
\<close>

definition entry_agrees :: "store_view \<Rightarrow> log_entry \<Rightarrow> bool" where
  "entry_agrees v e \<longleftrightarrow> le_index e \<le> last_included_index (sv_snap v) \<or>
     (view_term v (le_index e) \<noteq> 0 \<and> view_term v (le_index e) = le_term e)"

definition log_merge :: "log_entry list \<Rightarrow> store_view \<Rightarrow> store_view" where
  "log_merge es v =
     (let rest = dropWhile (entry_agrees v) es in if rest = [] then v else view_append rest v)"

lemma foldl_max_strict:
  "strict_log es \<Longrightarrow> es \<noteq> [] \<Longrightarrow> foldl max m (map le_index es) = max m (le_index (last es))"
proof (induction es arbitrary: m)
  case (Cons e es)
  show ?case
  proof (cases "es = []")
    case False
    then have "le_index e \<le> le_index (last es)"
      using Cons.prems by (auto intro: less_imp_le)
    with False Cons show ?thesis by (simp add: max.assoc max_absorb2)
  qed simp
qed simp

lemma strict_log_dropWhile [simp]: "strict_log es \<Longrightarrow> strict_log (dropWhile P es)"
  by (metis strict_log_append takeWhile_dropWhile_id)

lemma merge_rest_beyond_snapshot:
  assumes "strict_log es" and "e \<in> set (dropWhile (entry_agrees v) es)"
  shows "last_included_index (sv_snap v) < le_index e"
proof -
  let ?rest = "dropWhile (entry_agrees v) es"
  have "?rest \<noteq> []" using assms(2) by (metis empty_iff list.set(1))
  then have "\<not> entry_agrees v (hd ?rest)" by (rule hd_dropWhile)
  then have "last_included_index (sv_snap v) < le_index (hd ?rest)"
    by (auto simp: entry_agrees_def)
  also have "\<dots> \<le> le_index e"
    using assms by (intro strict_log_hd_least) simp_all
  finally show ?thesis .
qed

lemma merge_rest_appendable:
  "strict_log es \<Longrightarrow> dropWhile (entry_agrees v) es \<noteq> [] \<Longrightarrow>
     appendable v (dropWhile (entry_agrees v) es)"
  using merge_rest_beyond_snapshot by (auto simp: appendable_def)

lemma merge_last_index:
  assumes "strict_log es" and "dropWhile P es = e # rest"
  shows "max (foldl max m (map le_index (takeWhile P es))) (le_index (last (e # rest))) =
           max m (le_index (last es))"
proof -
  let ?pre = "takeWhile P es"
  have es: "es = ?pre @ (e # rest)" using assms(2) by (metis takeWhile_dropWhile_id)
  then have last: "last es = last (e # rest)" by (metis last_appendR list.distinct(1))
  show ?thesis
  proof (cases "?pre = []")
    case False
    have "strict_log (?pre @ (e # rest))" using assms(1) es by simp
    moreover have "last ?pre \<in> set ?pre" and "last (e # rest) \<in> set (e # rest)"
      using False last_in_set [of ?pre] last_in_set [of "e # rest"] by blast+
    ultimately have "strict_log ?pre" and "le_index (last ?pre) < le_index (last (e # rest))"
      unfolding strict_log_append by blast+
    then show ?thesis
      using False last by (simp add: foldl_max_strict max.assoc max_absorb2 del: last.simps)
  qed (use last in simp)
qed

lemma log_merge_strict [wf_intros]:
  "strict_log (sv_entries v) \<Longrightarrow> strict_log es \<Longrightarrow> strict_log (sv_entries (log_merge es v))"
  by (simp add: log_merge_def Let_def view_append_strict merge_rest_appendable)

lemma log_merge_snap [simp]:
  "sv_snap (log_merge es v) = sv_snap v" "sv_hard (log_merge es v) = sv_hard v"
  by (simp_all add: log_merge_def Let_def view_append_def)

lemma view_append_snap [simp]:
  "sv_snap (view_append es v) = sv_snap v" "sv_hard (view_append es v) = sv_hard v"
  by (simp_all add: view_append_def)

lemma view_append_term:
  assumes "appendable v es"
  shows "view_term (view_append es v) i =
    (if i < le_index (hd es) then view_term v i
     else case log_find es i of Some e \<Rightarrow> le_term e | None \<Rightarrow> 0)"
proof (cases "i < le_index (hd es)")
  case True
  with assms show ?thesis
    by (simp add: view_term_def appendable_def view_append_find)
next
  case False
  have "last_included_index (sv_snap v) < le_index (hd es)"
    using assms by (auto simp: appendable_def)
  with False have "i \<noteq> last_included_index (sv_snap v)" "i \<noteq> 0"
    by (auto simp: not_less)
  with False assms show ?thesis
    by (simp add: view_term_def appendable_def view_append_find)
qed

text \<open>Every entry of the request is in the merged log with its term.\<close>

lemma log_merge_contains:
  assumes "strict_log es" and "e \<in> set es" and "last_included_index (sv_snap v) < le_index e"
  shows "view_term (log_merge es v) (le_index e) = le_term e"
proof -
  let ?pre = "takeWhile (entry_agrees v) es" and ?rest = "dropWhile (entry_agrees v) es"
  have es: "es = ?pre @ ?rest" by simp
  consider (pre) "e \<in> set ?pre" | (rest) "e \<in> set ?rest"
    using assms(2) es by (metis Un_iff set_append)
  then show ?thesis
  proof cases
    case pre
    then have t: "view_term v (le_index e) = le_term e"
      using assms(3) set_takeWhileD [OF pre] by (auto simp: entry_agrees_def)
    show ?thesis
    proof (cases "?rest = []")
      case False
      then have "le_index e < le_index (hd ?rest)"
        using assms(1) pre es by (metis hd_in_set strict_log_append)
      then show ?thesis
        using t False merge_rest_appendable [OF assms(1) False]
        by (simp add: log_merge_def Let_def view_append_term)
    qed (use t in \<open>simp add: log_merge_def Let_def\<close>)
  next
    case rest
    then have ne: "?rest \<noteq> []" by (metis empty_iff list.set(1))
    have "log_find ?rest (le_index e) = Some e"
      using rest assms(1) by (simp add: log_find_iff)
    moreover have "\<not> le_index e < le_index (hd ?rest)"
      using strict_log_hd_least [of ?rest e] rest assms(1) by (simp add: not_less)
    moreover have "log_merge es v = view_append ?rest v"
      using ne unfolding log_merge_def Let_def by (rule if_not_P)
    ultimately show ?thesis
      by (simp add: view_append_term [OF merge_rest_appendable [OF assms(1) ne]])
  qed
qed

text \<open>Merging the same request again changes nothing.\<close>

lemma log_merge_idem:
  assumes "strict_log es" and "\<forall>e \<in> set es. le_term e \<noteq> 0"
  shows "log_merge es (log_merge es v) = log_merge es v"
proof -
  have "entry_agrees (log_merge es v) e" if "e \<in> set es" for e
    using log_merge_contains [OF assms(1) that, of v] assms(2) that
    by (auto simp: entry_agrees_def not_le)
  then have "dropWhile (entry_agrees (log_merge es v)) es = []" by simp
  then show ?thesis by (simp add: log_merge_def [of es "log_merge es v"])
qed

text \<open>Entries below the first one that does not agree stay as they are.\<close>

lemma log_merge_prefix:
  assumes "strict_log es" and "\<forall>e \<in> set es. le_index e \<le> i \<longrightarrow> entry_agrees v e"
  shows "log_find (sv_entries (log_merge es v)) i = log_find (sv_entries v) i"
proof (cases "dropWhile (entry_agrees v) es = []")
  case True
  then show ?thesis by (simp add: log_merge_def)
next
  case False
  let ?rest = "dropWhile (entry_agrees v) es"
  have "\<not> entry_agrees v (hd ?rest)" using False by (rule hd_dropWhile)
  moreover have "hd ?rest \<in> set es" using False by (metis hd_in_set set_dropWhileD)
  ultimately have "i < le_index (hd ?rest)" using assms(2) by (auto simp: not_le)
  with False assms(1) show ?thesis
    by (simp add: log_merge_def Let_def view_append_find)
qed


context raft_store
begin

lemma scan_entries_spec:
  assumes "invar s"
  shows "scan_entries S s (last_included_index (sv_snap (view s))) m es =
    (foldl max m (map le_index (takeWhile (entry_agrees (view s)) es)),
     case dropWhile (entry_agrees (view s)) es of
       [] \<Rightarrow> None
     | e # rest \<Rightarrow> Some (view_term (view s) (le_index e) \<noteq> 0, e # rest))"
  by (induction es arbitrary: m) (auto simp: entry_agrees_def Let_def term_lookup [OF assms])

lemma truncate_then_append:
  "view_append es (v\<lparr>sv_entries := filter (\<lambda>e. le_index e < le_index (hd es)) (sv_entries v)\<rparr>) =
     view_append es v"
  by (simp add: view_append_def)

lemma append_from_leader_agreeing:
  assumes "invar s" and "view_term (view s) prev_index = prev_term"
    and "dropWhile (entry_agrees (view s)) es = []"
  shows "append_from_leader S prev_index prev_term es s =
    (Inr (default_append_result\<lparr>ar_success := True,
       ar_match_index := foldl max prev_index (map le_index es)\<rparr>), s)"
proof -
  have tw: "takeWhile (entry_agrees (view s)) es = es"
    using assms(3) by (metis append.right_neutral takeWhile_dropWhile_id)
  show ?thesis
    using assms(1,2) scan_entries_spec [OF assms(1), of prev_index es, unfolded assms(3) tw]
    by (simp add: append_from_leader_def log_match_def term_lookup load_snap Let_def)
qed

lemma append_from_leader_replacing:
  assumes "invar s" and "view_term (view s) prev_index = prev_term" and "strict_log es"
    and "dropWhile (entry_agrees (view s)) es = e # rest"
  shows "append_from_leader S prev_index prev_term es s =
    (case (if view_term (view s) (le_index e) \<noteq> 0 then truncate_suffix S (le_index e) s else (None, s)) of
       (Some x, s1) \<Rightarrow> (Inl x, s1)
     | (None, s1) \<Rightarrow>
         (case store_append S (e # rest) s1 of
            (Some x, s2) \<Rightarrow> (Inl x, s2)
          | (None, s2) \<Rightarrow> (Inr (default_append_result\<lparr>ar_success := True,
              ar_match_index := max prev_index (le_index (last es))\<rparr>), s2)))"
proof -
  have "a \<in> set (e # rest) \<Longrightarrow> \<not> le_index a \<le> last_included_index (sv_snap (view s))" for a
    using merge_rest_beyond_snapshot [OF assms(3), of a "view s"] assms(4) by (simp add: not_le)
  then have fil: "filter (\<lambda>a. \<not> le_index a \<le> last_included_index (sv_snap (view s))) (e # rest) =
      e # rest"
    by (intro filter_True) blast
  show ?thesis
    using assms(1,2) fil merge_last_index [OF assms(3,4), of prev_index]
      scan_entries_spec [OF assms(1), of prev_index es, unfolded assms(4) list.case]
    by (simp add: append_from_leader_def log_match_def term_lookup load_snap Let_def
        del: filter.simps last.simps cong: option.case_cong)
qed

lemma truncate_step:
  assumes "invar s"
    and "(if c then truncate_suffix S i s else (None, s)) = (x1, s1)"
  shows "invar s1"
    and "x1 \<noteq> None \<Longrightarrow> view s1 = view s"
    and "view s1 = view s \<or>
      view s1 = (view s)\<lparr>sv_entries := filter (\<lambda>a. le_index a < i) (sv_entries (view s))\<rparr>"
  using assms drop_suffix [OF assms(1), of i]
  by (auto simp: writes_def split: if_splits option.splits)

text \<open>
  A request whose previous entry matches: the operation reports success with the index of its last
  entry, and the store's view is the merged log. If the store throws on the way, the view is the old
  one or the old one cut at the conflict.
\<close>

lemma append_from_leader_merge:
  assumes inv: "invar s" and strict: "strict_log es" and match: "view_term (view s) prev_index = prev_term"
    and run: "append_from_leader S prev_index prev_term es s = (res, s')"
  shows "invar s' \<and> (case res of
      Inr r \<Rightarrow> view s' = log_merge es (view s) \<and> ar_success r \<and>
        ar_match_index r = (if es = [] then prev_index else max prev_index (le_index (last es)))
    | Inl _ \<Rightarrow> view s' = view s \<or> (\<exists>e \<in> set es. \<not> entry_agrees (view s) e \<and> view s' = (view s)
        \<lparr>sv_entries := filter (\<lambda>a. le_index a < le_index e) (sv_entries (view s))\<rparr>))"
proof (cases "dropWhile (entry_agrees (view s)) es")
  case Nil
  then have "log_merge es (view s) = view s" by (simp add: log_merge_def)
  then show ?thesis
    using run inv append_from_leader_agreeing [OF inv match Nil] foldl_max_strict [OF strict]
    by (auto simp: default_append_result_def)
next
  case (Cons e rest)
  have e: "e \<in> set es" "\<not> entry_agrees (view s) e"
    using Cons by (metis list.set_intros(1) set_dropWhileD)
      (metis Cons hd_dropWhile list.distinct(1) list.sel(1))
  have merged: "log_merge es (view s) = view_append (e # rest) (view s)"
    using Cons by (simp only: log_merge_def Let_def list.distinct if_False)
  obtain x1 s1 where t: "(if view_term (view s) (le_index e) \<noteq> 0
      then truncate_suffix S (le_index e) s else (None, s)) = (x1, s1)"
    by fastforce
  note t' = truncate_step [OF inv t]
  have ap: "appendable (view s1) (e # rest)"
    using merge_rest_appendable [OF strict, of "view s"] Cons t'(3) by (auto simp: appendable_def)
  have va: "view_append (e # rest) (view s1) = view_append (e # rest) (view s)"
    using t'(3) truncate_then_append [of "e # rest" "view s"] by auto
  show ?thesis
    using run append_from_leader_replacing [OF inv match strict Cons] t t' e merged va
      append_many [OF t'(1) ap] Cons
    by (auto simp: writes_def default_append_result_def split: option.splits prod.splits)
qed

end


subsection \<open>The conflict hint\<close>

lemma word_between_dec:
  fixes i j :: "'a::len word"
  assumes "j \<le> i" and "j \<noteq> i"
  shows "j \<le> i - 1"
proof -
  have "j < i" using assms by simp
  then have "unat (i - 1) = unat i - 1" by (metis unat_minus_one word_not_simps(1))
  with \<open>j < i\<close> show ?thesis by (simp add: word_less_nat_alt word_le_nat_alt)
qed

lemma conflict_loop_bounds:
  assumes "term_at S s index = local_term"
  shows "conflict_loop S s local_term index \<le> index \<and>
    (\<forall>j. conflict_loop S s local_term index \<le> j \<and> j \<le> index \<longrightarrow> term_at S s j = local_term) \<and>
    (first_log_index S s < conflict_loop S s local_term index \<longrightarrow>
       term_at S s (conflict_loop S s local_term index - 1) \<noteq> local_term)"
  using assms
proof (induction S s local_term index rule: conflict_loop.induct)
  case (1 S s local_term index)
  let ?go = "first_log_index S s < index \<and> term_at S s (index - 1) = local_term"
  show ?case
  proof (cases ?go)
    case False
    have eq: "conflict_loop S s local_term index = index"
      by (subst conflict_loop.simps) (rule if_not_P [OF False])
    show ?thesis
      unfolding eq using False "1.prems" order_antisym [of index] by auto
  next
    case True
    have eq: "conflict_loop S s local_term index = conflict_loop S s local_term (index - 1)"
      by (subst conflict_loop.simps) (rule if_P [OF True])
    have "index - 1 \<le> index"
      using True unat_dec_less [of "first_log_index S s" index] by (simp add: word_le_nat_alt)
    note ih = "1.IH" [OF True conjunct2 [OF True]]
    have "term_at S s j = local_term"
      if "conflict_loop S s local_term (index - 1) \<le> j" "j \<le> index" for j
      using ih that "1.prems" word_between_dec [of j index] by (cases "j = index") blast+
    moreover have "conflict_loop S s local_term (index - 1) \<le> index"
      using ih \<open>index - 1 \<le> index\<close> order_trans by blast
    ultimately show ?thesis
      unfolding eq using ih by blast
  qed
qed


subsection \<open>Properties\<close>

lemma view_term_cong:
  "log_find (sv_entries v) i = log_find (sv_entries w) i \<Longrightarrow> sv_snap v = sv_snap w \<Longrightarrow>
     view_term v i = view_term w i"
  by (simp add: view_term_def)

lemma memory_term_at: "ms_wf s \<Longrightarrow> ms_term_at s i = view_term (ms_view s) i"
  using mem.term_lookup [of s i] by (simp add: memory_store_ops_def)

lemma memory_entry_at: "ms_wf s \<Longrightarrow> ms_entry_at s i = log_find (sv_entries (ms_view s)) i"
  using mem.entry_lookup [of s i] by (simp add: memory_store_ops_def)

lemma ms_view_inject: "ms_view s = ms_view t \<Longrightarrow> s = t"
  by (cases s; cases t) (simp add: ms_view_def)

lemma memory_merge:
  assumes "ms_wf s" and "ms_view s' = log_merge es (ms_view s)"
  shows "case dropWhile (\<lambda>e. le_index e \<le> last_included_index (ms_snapshot s) \<or>
      ms_term_at s (le_index e) \<noteq> 0 \<and> ms_term_at s (le_index e) = le_term e) es of
    [] \<Rightarrow> s' = s
  | e # rest \<Rightarrow> s' = s\<lparr>ms_entries := filter (\<lambda>x. le_index x < le_index e) (ms_entries s) @ e # rest\<rparr>"
proof -
  have eq: "entry_agrees (ms_view s) = (\<lambda>e. le_index e \<le> last_included_index (ms_snapshot s) \<or>
      ms_term_at s (le_index e) \<noteq> 0 \<and> ms_term_at s (le_index e) = le_term e)"
    using assms(1) by (simp add: fun_eq_iff entry_agrees_def memory_term_at ms_view_def)
  show ?thesis
  proof (cases "dropWhile (entry_agrees (ms_view s)) es")
    case Nil
    then have "s' = s" using assms(2) by (intro ms_view_inject) (simp add: log_merge_def)
    then show ?thesis using Nil [unfolded eq] by (simp only: list.case)
  next
    case (Cons e rest)
    then have "ms_view s' = view_append (e # rest) (ms_view s)"
      using assms(2) by (simp only: log_merge_def Let_def list.distinct if_False)
    then have "s' = s\<lparr>ms_entries := filter (\<lambda>x. le_index x < le_index e) (ms_entries s) @ e # rest\<rparr>"
      by (intro ms_view_inject) (simp add: view_append_def ms_view_def)
    then show ?thesis using Cons [unfolded eq] by simp
  qed
qed

lemma memory_append_from_leader:
  assumes "ms_wf s" and "strict_log es" and "ms_term_at s prev = prev_term"
  obtains r s' where "append_from_leader memory_store_ops prev prev_term es s = (Inr r, s')"
    and "ms_wf s'" and "ms_view s' = log_merge es (ms_view s)" and "ar_success r"
    and "ar_match_index r = (if es = [] then prev else max prev (le_index (last es)))"
    and "r = default_append_result\<lparr>ar_success := True, ar_match_index := ar_match_index r\<rparr>"
proof -
  obtain res s' where run: "append_from_leader memory_store_ops prev prev_term es s = (res, s')"
    by fastforce
  have t: "view_term (ms_view s) prev = prev_term"
    using assms(1,3) by (simp add: memory_term_at)
  have "\<exists>m. res = Inr (default_append_result\<lparr>ar_success := True, ar_match_index := m\<rparr>)"
    using run t mem.term_lookup [OF assms(1), of prev]
    by (auto simp: append_from_leader_def log_match_def Let_def memory_store_ops_def
        split: prod.splits option.splits if_splits)
  then obtain m where res: "res = Inr (default_append_result\<lparr>ar_success := True, ar_match_index := m\<rparr>)"
    by blast
  show thesis
    using that [OF run [unfolded res]] mem.append_from_leader_merge [OF assms(1,2) t run] res
    by (simp add: default_append_result_def)
qed

text \<open>C7: A follower whose log has the leader's previous entry accepts the request: it reports
  success and the index of the last entry sent, and its store is the merge of the two logs. The entries
  sent that the snapshot covers, or whose terms the log has at their indexes, are skipped; when none is
  left the store is unchanged; otherwise the entries sent from the first one left on stand, whole and in
  order, behind the entries the log had below its index, and all the log had from that index on is gone.
  So every entry sent beyond the snapshot is in the log with the leader's term, and what lies below the
  first disagreement is untouched.\<close>

theorem append_from_leader_merges:
  assumes "ms_wf s" and "strict_log es" and "ms_term_at s prev = prev_term"
  shows "\<exists>r s'. append_from_leader memory_store_ops prev prev_term es s = (Inr r, s') \<and>
    ms_wf s' \<and> ar_success r \<and>
    ar_match_index r = (if es = [] then prev else max prev (le_index (last es))) \<and>
    (case dropWhile (\<lambda>e. le_index e \<le> last_included_index (ms_snapshot s) \<or>
         ms_term_at s (le_index e) \<noteq> 0 \<and> ms_term_at s (le_index e) = le_term e) es of
       [] \<Rightarrow> s' = s
     | e # rest \<Rightarrow>
         s' = s\<lparr>ms_entries := filter (\<lambda>x. le_index x < le_index e) (ms_entries s) @ e # rest\<rparr>) \<and>
    (\<forall>e \<in> set es. last_included_index (ms_snapshot s) < le_index e \<longrightarrow>
        ms_term_at s' (le_index e) = le_term e) \<and>
    (\<forall>i. (\<forall>e \<in> set es. le_index e \<le> i \<longrightarrow> entry_agrees (ms_view s) e) \<longrightarrow>
        ms_entry_at s' i = ms_entry_at s i)"
proof -
  obtain r s' where run: "append_from_leader memory_store_ops prev prev_term es s = (Inr r, s')"
    and wf: "ms_wf s'" and v: "ms_view s' = log_merge es (ms_view s)" and ok: "ar_success r"
    and m: "ar_match_index r = (if es = [] then prev else max prev (le_index (last es)))"
    using memory_append_from_leader [OF assms] by blast
  have "ms_term_at s' (le_index e) = le_term e"
    if "e \<in> set es" "last_included_index (ms_snapshot s) < le_index e" for e
    using log_merge_contains [OF assms(2) that(1), of "ms_view s"] that(2) v memory_term_at [OF wf]
    by (simp add: ms_view_def)
  moreover have "ms_entry_at s' i = ms_entry_at s i"
    if "\<forall>e \<in> set es. le_index e \<le> i \<longrightarrow> entry_agrees (ms_view s) e" for i
    using log_merge_prefix [OF assms(2) that] v memory_entry_at [OF wf] memory_entry_at [OF assms(1)]
    by simp
  ultimately show ?thesis using run wf ok m memory_merge [OF assms(1) v] by blast
qed

theorem append_from_leader_merges_witness:
  "\<exists>r s'. append_from_leader memory_store_ops 0 0 [default_log_entry\<lparr>le_index := 1, le_term := 2\<rparr>]
     (ms_append_one (default_log_entry\<lparr>le_index := 1, le_term := 1\<rparr>) empty_memory_store) = (Inr r, s') \<and>
     ar_success r \<and> ms_term_at s' 1 = 2 \<and>
     ms_entries s' = [default_log_entry\<lparr>le_index := 1, le_term := 2\<rparr>]"
proof -
  let ?s = "ms_append_one (default_log_entry\<lparr>le_index := 1, le_term := 1\<rparr>) empty_memory_store"
  let ?es = "[default_log_entry\<lparr>le_index := 1, le_term := 2\<rparr>]"
  have wf: "ms_wf ?s" and snap: "last_included_index (ms_snapshot ?s) = 0"
    by (simp_all add: ms_wf_def ms_append_one_def empty_memory_store_def
        default_snapshot_metadata_def)
  have t: "ms_term_at ?s 0 = 0" by (simp add: ms_term_at_def)
  have st: "strict_log ?es" by simp
  have "ms_term_at ?s 1 = 1" and "filter (\<lambda>x. le_index x < 1) (ms_entries ?s) = []"
    by code_simp+
  then show ?thesis
    using append_from_leader_merges [OF wf st t] snap by auto
qed

text \<open>C8: A retransmitted append is harmless: handling the same request a second time reports the
  same result and leaves the log as the first time left it.\<close>

theorem append_from_leader_idempotent:
  assumes "ms_wf s" and "strict_log es" and "ms_term_at s prev = prev_term"
    and "\<forall>e \<in> set es. prev < le_index e \<and> le_term e \<noteq> 0"
    and "append_from_leader memory_store_ops prev prev_term es s = (res, s')"
  shows "append_from_leader memory_store_ops prev prev_term es s' = (res, s')"
proof -
  obtain r s1 where run1: "append_from_leader memory_store_ops prev prev_term es s = (Inr r, s1)"
    and wf1: "ms_wf s1" and v1: "ms_view s1 = log_merge es (ms_view s)"
    and m: "ar_match_index r = (if es = [] then prev else max prev (le_index (last es)))"
    and r: "r = default_append_result\<lparr>ar_success := True, ar_match_index := ar_match_index r\<rparr>"
    using memory_append_from_leader [OF assms(1-3)] by blast
  have run: "res = Inr r" and wf: "ms_wf s'" and v: "ms_view s' = log_merge es (ms_view s)"
    using run1 wf1 v1 assms(5) by simp_all
  have "log_find (sv_entries (ms_view s')) prev = log_find (sv_entries (ms_view s)) prev"
    unfolding v by (rule log_merge_prefix [OF assms(2)]) (use assms(4) in \<open>auto simp: leD\<close>)
  then have t: "ms_term_at s' prev = prev_term"
    using assms(1,3) wf v view_term_cong [of "ms_view s'" prev "ms_view s"]
    by (simp add: memory_term_at)
  obtain r' s'' where run': "append_from_leader memory_store_ops prev prev_term es s' = (Inr r', s'')"
    and v': "ms_view s'' = log_merge es (ms_view s')"
    and m': "ar_match_index r' = (if es = [] then prev else max prev (le_index (last es)))"
    and r': "r' = default_append_result\<lparr>ar_success := True, ar_match_index := ar_match_index r'\<rparr>"
    using memory_append_from_leader [OF wf assms(2) t] by blast
  have "s'' = s'"
    using v' v log_merge_idem [OF assms(2)] assms(4) by (intro ms_view_inject) simp
  moreover have "r' = r" using r r' m m' by metis
  ultimately show ?thesis using run run' by simp
qed

theorem append_from_leader_idempotent_witness:
  "append_from_leader memory_store_ops 0 0 [default_log_entry\<lparr>le_index := 1, le_term := 2\<rparr>]
     (snd (append_from_leader memory_store_ops 0 0 [default_log_entry\<lparr>le_index := 1, le_term := 2\<rparr>]
        empty_memory_store)) =
   append_from_leader memory_store_ops 0 0 [default_log_entry\<lparr>le_index := 1, le_term := 2\<rparr>]
     empty_memory_store"
proof -
  let ?es = "[default_log_entry\<lparr>le_index := 1, le_term := 2\<rparr>]"
  have wf: "ms_wf empty_memory_store" by simp
  have t: "ms_term_at empty_memory_store 0 = 0" by (simp add: ms_term_at_def)
  have st: "strict_log ?es" by simp
  have h: "\<forall>e \<in> set ?es. 0 < le_index e \<and> le_term e \<noteq> 0" by simp
  show ?thesis
    using append_from_leader_idempotent [OF wf st t h prod.collapse [symmetric]] by simp
qed

text \<open>C9: The hint of a rejected append is exact: with a local entry at the previous index, the
  reported conflict term is that entry's term, every entry from the conflict index up to the previous
  index has it, and the entry before the conflict index, if the log still has one, does not.\<close>

theorem conflict_result_exact:
  assumes "term_at S s prev \<noteq> 0" and "r = conflict_result S s prev prev_term"
  shows "\<not> ar_success r \<and> ar_conflict_term r = term_at S s prev \<and> ar_conflict_index r \<le> prev \<and>
    (\<forall>j. ar_conflict_index r \<le> j \<and> j \<le> prev \<longrightarrow> term_at S s j = ar_conflict_term r) \<and>
    (first_log_index S s < ar_conflict_index r \<longrightarrow>
       term_at S s (ar_conflict_index r - 1) \<noteq> ar_conflict_term r)"
proof -
  have "\<not> ar_success r" and t: "ar_conflict_term r = term_at S s prev"
    and i: "ar_conflict_index r = conflict_loop S s (term_at S s prev) prev"
    using assms by (simp_all add: conflict_result_def Let_def)
  then show ?thesis
    unfolding t i using conflict_loop_bounds [of S s prev, OF refl] by blast
qed

theorem conflict_result_exact_witness:
  "ar_conflict_index (conflict_result memory_store_ops
     (ms_append [default_log_entry\<lparr>le_index := 1, le_term := 1\<rparr>, default_log_entry\<lparr>le_index := 2, le_term := 3\<rparr>,
        default_log_entry\<lparr>le_index := 3, le_term := 3\<rparr>] empty_memory_store) 3 4) \<le> 3"
proof -
  let ?s = "ms_append [default_log_entry\<lparr>le_index := 1, le_term := 1\<rparr>,
      default_log_entry\<lparr>le_index := 2, le_term := 3\<rparr>,
      default_log_entry\<lparr>le_index := 3, le_term := 3\<rparr>] empty_memory_store"
  have t: "term_at memory_store_ops ?s 3 \<noteq> 0" by code_simp
  show ?thesis
    using conflict_result_exact [OF t refl, of 4] by blast
qed

end
