(* ===== verification/Raft_Fsm.thy ===== *)
theory Raft_Fsm
  imports Raft_Storage
begin

text \<open>
  The caller of the user's state machine, from \<open>src/src/protocol/raft/raft_fsm.cpp\<close>. The user's
  class is not part of the repository: \<open>state_machine\<close> is a record with one function per virtual
  member, over a type \<open>'m\<close> of machine states, and a parameter of every definition that calls it.
  \<open>on_apply\<close>, \<open>save_snapshot\<close> and \<open>load_snapshot\<close> may throw (a left value); the notifications
  \<open>on_leader_start\<close>, \<open>on_leader_stop\<close> and \<open>on_snapshot_load\<close> return.
\<close>

record snapshot_writer =
  sw_metadata :: snapshot_metadata
  sw_uri :: string

record snapshot_reader =
  sr_metadata :: snapshot_metadata
  sr_uri :: string

record 'm state_machine =
  on_apply :: "log_entry \<Rightarrow> 'm \<Rightarrow> exn option \<times> 'm"
  on_snapshot_load :: "snapshot_metadata \<Rightarrow> 'm \<Rightarrow> 'm"
  sm_save_snapshot :: "snapshot_writer \<Rightarrow> 'm \<Rightarrow> (exn + raft_error option) \<times> 'm"
  sm_load_snapshot :: "snapshot_reader \<Rightarrow> 'm \<Rightarrow> (exn + raft_error option) \<times> 'm"
  on_leader_start :: "term_t \<Rightarrow> 'm \<Rightarrow> 'm"
  on_leader_stop :: "term_t \<Rightarrow> 'm \<Rightarrow> 'm"

text \<open>The members a user class inherits when it does not override them.\<close>

definition default_save_snapshot :: "(snapshot_metadata \<Rightarrow> 'm \<Rightarrow> 'm) \<Rightarrow> snapshot_writer \<Rightarrow> 'm \<Rightarrow>
    (exn + raft_error option) \<times> 'm" where
  "default_save_snapshot on_snapshot_save w m = (Inr None, on_snapshot_save (sw_metadata w) m)"

definition default_load_snapshot :: "(snapshot_metadata \<Rightarrow> 'm \<Rightarrow> 'm) \<Rightarrow> snapshot_reader \<Rightarrow> 'm \<Rightarrow>
    (exn + raft_error option) \<times> 'm" where
  "default_load_snapshot on_load r m = (Inr None, on_load (sr_metadata r) m)"

definition base_state_machine :: "(log_entry \<Rightarrow> 'm \<Rightarrow> exn option \<times> 'm) \<Rightarrow> 'm state_machine" where
  "base_state_machine apply_fn =
     \<lparr>on_apply = apply_fn, on_snapshot_load = (\<lambda>_ m. m),
      sm_save_snapshot = default_save_snapshot (\<lambda>_ m. m),
      sm_load_snapshot = default_load_snapshot (\<lambda>_ m. m),
      on_leader_start = (\<lambda>_ m. m), on_leader_stop = (\<lambda>_ m. m)\<rparr>"

record 'm fsm_caller =
  fc_machine :: "'m option"
  fc_last_applied :: log_index

definition mk_fsm_caller :: "'m option \<Rightarrow> 'm fsm_caller" where
  "mk_fsm_caller machine = \<lparr>fc_machine = machine, fc_last_applied = 0\<rparr>"

definition fc_reset :: "'m option \<Rightarrow> 'm fsm_caller \<Rightarrow> 'm fsm_caller" where
  "fc_reset machine c = c\<lparr>fc_machine := machine\<rparr>"

definition set_last_applied :: "log_index \<Rightarrow> 'm fsm_caller \<Rightarrow> 'm fsm_caller" where
  "set_last_applied index c = c\<lparr>fc_last_applied := index\<rparr>"

text \<open>
  \<open>apply_committed\<close>: the outer left value is an exception of \<open>on_apply\<close>, which this member does not
  catch; \<open>None\<close> is a loop that does not end.
\<close>

partial_function (option) fc_apply_loop :: "'m state_machine \<Rightarrow> 's raft_storage \<Rightarrow> 's \<Rightarrow> log_index \<Rightarrow>
    log_index \<Rightarrow> 'm \<Rightarrow> 'm fsm_caller \<Rightarrow> ((exn + raft_error + log_index) \<times> 'm fsm_caller) option" where
  "fc_apply_loop M S s committed index m c =
     (if \<not> index \<le> committed then Some (Inr (Inr (fc_last_applied c)), c)
      else
        case entry_at S s index of
          None \<Rightarrow> Some (Inr (Inl (mk_error log_inconsistent ''committed log entry is missing'')), c)
        | Some entry \<Rightarrow>
            (case (if le_type entry = command \<or> le_type entry = configuration_entry
                   then on_apply M entry m else (None, m)) of
               (Some e, m') \<Rightarrow> Some (Inl e, c\<lparr>fc_machine := Some m'\<rparr>)
             | (None, m') \<Rightarrow> fc_apply_loop M S s committed (index + 1) m'
                 (c\<lparr>fc_machine := Some m', fc_last_applied := index\<rparr>)))"

definition fc_apply_committed :: "'m state_machine \<Rightarrow> 's raft_storage \<Rightarrow> 's \<Rightarrow> log_index \<Rightarrow>
    'm fsm_caller \<Rightarrow> ((exn + raft_error + log_index) \<times> 'm fsm_caller) option" where
  "fc_apply_committed M S s committed c =
     (case fc_machine c of
        None \<Rightarrow> (let la = max (fc_last_applied c) committed
                 in Some (Inr (Inr la), c\<lparr>fc_last_applied := la\<rparr>))
      | Some m \<Rightarrow> fc_apply_loop M S s committed (fc_last_applied c + 1) m c)"

definition apply_entry :: "'m state_machine \<Rightarrow> log_entry \<Rightarrow> 'm fsm_caller \<Rightarrow>
    (raft_error + log_index) \<times> 'm fsm_caller" where
  "apply_entry M entry c =
     (if le_index entry \<noteq> fc_last_applied c + 1 then
        (Inl (mk_error log_inconsistent ''committed log entry is not contiguous''), c)
      else
        case (case fc_machine c of
                Some m \<Rightarrow>
                  if le_type entry = command \<or> le_type entry = configuration_entry then
                    (case on_apply M entry m of (x, m') \<Rightarrow> (x, c\<lparr>fc_machine := Some m'\<rparr>))
                  else (None, c)
              | None \<Rightarrow> (None, c)) of
          (Some e, c') \<Rightarrow> (Inl (caught_error state_machine_error e ''state machine apply failed''), c')
        | (None, c') \<Rightarrow>
            (Inr (le_index entry), c'\<lparr>fc_last_applied := le_index entry\<rparr>))"

definition fc_on_snapshot_load :: "'m state_machine \<Rightarrow> snapshot_metadata \<Rightarrow> 'm fsm_caller \<Rightarrow>
    'm fsm_caller" where
  "fc_on_snapshot_load M metadata c =
     c\<lparr>fc_last_applied := max (fc_last_applied c) (last_included_index metadata),
       fc_machine := map_option (on_snapshot_load M metadata) (fc_machine c)\<rparr>"

definition save_snapshot :: "'m state_machine \<Rightarrow> snapshot_writer \<Rightarrow> 'm fsm_caller \<Rightarrow>
    raft_error option \<times> 'm fsm_caller" where
  "save_snapshot M w c =
     (case fc_machine c of
        None \<Rightarrow> (None, c)
      | Some m \<Rightarrow>
          (case sm_save_snapshot M w m of
             (Inr r, m') \<Rightarrow> (r, c\<lparr>fc_machine := Some m'\<rparr>)
           | (Inl e, m') \<Rightarrow> (Some (caught_error state_machine_error e ''state machine snapshot save failed''),
                c\<lparr>fc_machine := Some m'\<rparr>)))"

definition load_snapshot :: "'m state_machine \<Rightarrow> snapshot_reader \<Rightarrow> 'm fsm_caller \<Rightarrow>
    raft_error option \<times> 'm fsm_caller" where
  "load_snapshot M r c0 =
     (let c = c0\<lparr>fc_last_applied :=
                max (fc_last_applied c0) (last_included_index (sr_metadata r))\<rparr> in
      case fc_machine c of
        None \<Rightarrow> (None, c)
      | Some m \<Rightarrow>
          (case sm_load_snapshot M r m of
             (Inr x, m') \<Rightarrow> (x, c\<lparr>fc_machine := Some m'\<rparr>)
           | (Inl e, m') \<Rightarrow> (Some (caught_error state_machine_error e ''state machine snapshot load failed''),
                c\<lparr>fc_machine := Some m'\<rparr>)))"

definition fc_on_leader_start :: "'m state_machine \<Rightarrow> term_t \<Rightarrow> 'm fsm_caller \<Rightarrow> 'm fsm_caller" where
  "fc_on_leader_start M t c = c\<lparr>fc_machine := map_option (on_leader_start M t) (fc_machine c)\<rparr>"

definition fc_on_leader_stop :: "'m state_machine \<Rightarrow> term_t \<Rightarrow> 'm fsm_caller \<Rightarrow> 'm fsm_caller" where
  "fc_on_leader_stop M t c = c\<lparr>fc_machine := map_option (on_leader_stop M t) (fc_machine c)\<rparr>"


subsection \<open>Lemmas\<close>

lemma fc_last_applied_frame [simp]:
  "fc_last_applied (fc_on_leader_start M t c) = fc_last_applied c"
  "fc_last_applied (fc_on_leader_stop M t c) = fc_last_applied c"
  "fc_last_applied (set_last_applied i c) = i"
  "fc_last_applied (mk_fsm_caller mo) = 0"
  by (simp_all add: fc_on_leader_start_def fc_on_leader_stop_def set_last_applied_def
      mk_fsm_caller_def)

lemma apply_entry_Inr:
  "apply_entry M e c = (Inr i, c') \<Longrightarrow>
     i = le_index e \<and> le_index e = fc_last_applied c + 1 \<and> fc_last_applied c' = le_index e"
  by (auto simp: apply_entry_def split: if_splits option.splits prod.splits)

lemma apply_entry_Inl: "apply_entry M e c = (Inl err, c') \<Longrightarrow> fc_last_applied c' = fc_last_applied c"
  by (auto simp: apply_entry_def split: if_splits option.splits prod.splits)

text \<open>The loop of \<open>apply_committed\<close> ends for every committed index but the greatest one.\<close>

lemma fc_apply_loop_returns:
  assumes "committed + 1 \<noteq> 0"
  shows "\<exists>r. fc_apply_loop M S s committed index m c = Some r"
proof (induction "Suc (unat committed) - unat index" arbitrary: index m c rule: less_induct)
  case less
  show ?case
  proof (cases "index \<le> committed")
    case False
    then show ?thesis by (subst fc_apply_loop.simps) simp
  next
    case True
    have "index + 1 \<noteq> 0"
      using True assms by (metis max_word_wrap word_order.extremum_uniqueI)
    then have "Suc (unat committed) - unat (index + 1) < Suc (unat committed) - unat index"
      using True by (simp add: unat_inc word_le_nat_alt)
    then show ?thesis
      using less by (subst fc_apply_loop.simps) (auto split: option.split prod.split)
  qed
qed

end
