(* ===== verification/Raft_Node.thy ===== *)
theory Raft_Node
  imports Raft_Configuration Raft_Progress Raft_Log_Manager Raft_Fsm
begin

text \<open>
  The Raft node, from \<open>src/src/protocol/raft/node.cpp\<close>. \<open>raft_node\<close> has one field per data member
  of the class; \<open>store_\<close> and \<open>log_\<close> share one object, the field \<open>n_store\<close>. \<open>raft_env\<close> holds what a
  call of a member function finds outside of the object: the vtable of the storage, the vtable of the
  user's state machine, and the reading of the steady clock. A member function reads the clock once
  for the call; the functions it calls see the same reading. \<open>std::set\<close> is a set, and the
  \<open>std::map\<close> of pending reads is the list of its items in key order.

  A member function \<open>f(args)\<close> becomes \<open>f E args n\<close>, which returns its result with the node it leaves,
  or the node alone when the function is \<open>void\<close>. Each \<open>catch\<close> clause is a branch. The reads of the
  storage interface (\<open>const\<close> members) return.
\<close>

record ('s, 'm) raft_env =
  env_storage :: "'s raft_storage"
  env_machine :: "'m state_machine"
  env_now :: time

record pending_read =
  pr_id :: request_id
  pr_term :: term_t
  pr_index :: log_index
  pr_context :: string
  pr_acked :: "node_id set"
  pr_created_at :: time
  pr_ready :: bool

record ('s, 'm) raft_node =
  n_cfg :: raft_config
  n_store :: 's
  n_state :: hard_state
  n_role :: node_role
  n_leader_id :: node_id
  n_conf :: configuration
  n_votes_granted :: "node_id set"
  n_votes_rejected :: "node_id set"
  n_progress :: progress_tracker
  n_fsm :: "'m fsm_caller"
  n_last_leader_contact :: time
  n_last_quorum_contact :: time
  n_pending_reads :: "(request_id, pending_read) smap"
  n_stopped :: bool
  n_fatal_error :: raft_error
  n_pending_configuration_index :: "log_index option"
  n_pending_leader_transfer :: "node_id option"
  n_last_auto_snapshot :: time

abbreviation n_id :: "('s, 'm) raft_node \<Rightarrow> node_id" where
  "n_id n \<equiv> rc_id (n_cfg n)"

abbreviation n_term :: "('s, 'm) raft_node \<Rightarrow> term_t" where
  "n_term n \<equiv> current_term (n_state n)"

abbreviation n_voted_for :: "('s, 'm) raft_node \<Rightarrow> node_id" where
  "n_voted_for n \<equiv> voted_for (n_state n)"

abbreviation n_commit_index :: "('s, 'm) raft_node \<Rightarrow> log_index" where
  "n_commit_index n \<equiv> commit_index (n_state n)"

abbreviation n_last_applied :: "('s, 'm) raft_node \<Rightarrow> log_index" where
  "n_last_applied n \<equiv> last_applied (n_state n)"

abbreviation n_last_log_index :: "('s, 'm) raft_env \<Rightarrow> ('s, 'm) raft_node \<Rightarrow> log_index" where
  "n_last_log_index E n \<equiv> last_log_index (env_storage E) (n_store n)"

definition set_commit_index :: "log_index \<Rightarrow> ('s, 'm) raft_node \<Rightarrow> ('s, 'm) raft_node" where
  "set_commit_index i n = n\<lparr>n_state := (n_state n)\<lparr>commit_index := i\<rparr>\<rparr>"


subsection \<open>Persistence and roles\<close>

definition stop :: "('s, 'm) raft_env \<Rightarrow> raft_error \<Rightarrow> ('s, 'm) raft_node \<Rightarrow> ('s, 'm) raft_node" where
  "stop E err n =
     (if n_stopped n then n
      else n\<lparr>n_fsm := (if n_role n = leader
                       then fc_on_leader_stop (env_machine E) (n_term n) (n_fsm n) else n_fsm n),
             n_stopped := True,
             n_fatal_error := (if re_code err = errc_ok then err\<lparr>re_code := errc_stopped\<rparr> else err),
             n_role := follower, n_pending_reads := [], n_votes_granted := {},
             n_votes_rejected := {}, n_pending_leader_transfer := None\<rparr>)"

definition persist :: "('s, 'm) raft_env \<Rightarrow> ('s, 'm) raft_node \<Rightarrow> ('s, 'm) raft_node" where
  "persist E n =
     (if n_stopped n then n
      else
        case save_hard_state (env_storage E) (n_state n) (n_store n) of
          (None, s) \<Rightarrow> n\<lparr>n_store := s\<rparr>
        | (Some e, s) \<Rightarrow>
            stop E (caught_error storage_error e ''hard state storage failure'') (n\<lparr>n_store := s\<rparr>))"

definition stopped_error :: "('s, 'm) raft_node \<Rightarrow> raft_error + unit" where
  "stopped_error n = (if n_stopped n then Inl (n_fatal_error n) else Inr ())"

definition reset_election_deadline :: "('s, 'm) raft_env \<Rightarrow> ('s, 'm) raft_node \<Rightarrow>
    ('s, 'm) raft_node" where
  "reset_election_deadline E n = n\<lparr>n_last_leader_contact := env_now E\<rparr>"

definition refresh_leader_quorum :: "('s, 'm) raft_env \<Rightarrow> ('s, 'm) raft_node \<Rightarrow>
    ('s, 'm) raft_node" where
  "refresh_leader_quorum E n =
     (if n_role n \<noteq> leader then n
      else
        let active = (\<lambda>nid. if nid = n_id n then True
              else case pt_get (n_progress n) nid of None \<Rightarrow> False | Some p \<Rightarrow> recent_active p)
        in if configuration_has_quorum (n_conf n) active
           then n\<lparr>n_last_quorum_contact := env_now E\<rparr> else n)"

definition step_down :: "('s, 'm) raft_env \<Rightarrow> term_t \<Rightarrow> ('s, 'm) raft_node \<Rightarrow> ('s, 'm) raft_node" where
  "step_down E new_term n =
     (if n_stopped n then n
      else
        let n1 = n\<lparr>n_fsm := (if n_role n = leader
                             then fc_on_leader_stop (env_machine E) (n_term n) (n_fsm n) else n_fsm n),
                   n_role := follower\<rparr>;
            n2 = (if new_term \<noteq> n_term n1
                  then n1\<lparr>n_state := (n_state n1)\<lparr>current_term := new_term, voted_for := []\<rparr>\<rparr>
                  else n1);
            n3 = n2\<lparr>n_votes_granted := {}, n_votes_rejected := {}, n_pending_reads := [],
                    n_pending_leader_transfer := None\<rparr>
        in persist E (reset_election_deadline E n3))"

text \<open>The constructor; a null storage pointer is \<open>None\<close>, which the member \<open>log_\<close> rejects first.\<close>

definition mk_raft_node :: "('s, 'm) raft_env \<Rightarrow> raft_config \<Rightarrow> 's option \<Rightarrow> 'm option \<Rightarrow>
    exn + ('s, 'm) raft_node" where
  "mk_raft_node E cfg store machine =
     (case store of
        None \<Rightarrow> Inl (Std_exception ''log_manager requires storage'')
      | Some s \<Rightarrow>
          let n0 = \<lparr>n_cfg = cfg, n_store = s, n_state = default_hard_state, n_role = follower,
                    n_leader_id = [], n_conf = mk_configuration (initial_configuration cfg),
                    n_votes_granted = {}, n_votes_rejected = {}, n_progress = [],
                    n_fsm = mk_fsm_caller machine, n_last_leader_contact = 0,
                    n_last_quorum_contact = 0, n_pending_reads = [], n_stopped = False,
                    n_fatal_error = default_raft_error, n_pending_configuration_index = None,
                    n_pending_leader_transfer = None, n_last_auto_snapshot = 0\<rparr>;
              n1 = refresh_leader_quorum E (reset_election_deadline E n0);
              n2 = n1\<lparr>n_state := load_hard_state (env_storage E) s\<rparr>;
              n3 = n2\<lparr>n_fsm := set_last_applied (n_last_applied n2) (n_fsm n2)\<rparr>;
              snap = load_snapshot_metadata (env_storage E) s
          in Inr (if snapshot_valid snap then
                    let n4 = (if cs_voters (sm_configuration snap) \<noteq> []
                              then n3\<lparr>n_conf := mk_configuration (sm_configuration snap)\<rparr> else n3);
                        n5 = n4\<lparr>n_state := (n_state n4)
                               \<lparr>commit_index := max (n_commit_index n4) (last_included_index snap),
                                last_applied := max (n_last_applied n4) (last_included_index snap)\<rparr>\<rparr>
                    in n5\<lparr>n_fsm := set_last_applied (n_last_applied n5) (n_fsm n5)\<rparr>
                  else n3))"


subsection \<open>Applying and committing\<close>

text \<open>The update of the node's own progress after an entry of its own is in the log.\<close>

definition self_replicated :: "log_index \<Rightarrow> ('s, 'm) raft_node \<Rightarrow> ('s, 'm) raft_node" where
  "self_replicated i n =
     n\<lparr>n_progress := pt_modify (\<lambda>self. self\<lparr>match_index := i, next_index := i + 1\<rparr>) (n_id n)
        (n_progress n)\<rparr>"

text \<open>The branch of \<open>apply_one\<close> for a configuration entry.\<close>

definition apply_configuration :: "('s, 'm) raft_env \<Rightarrow> log_entry \<Rightarrow> ('s, 'm) raft_node \<Rightarrow>
    ('s, 'm) raft_node" where
  "apply_configuration E entry n0 =
     (let n = n0\<lparr>n_conf := mk_configuration (le_configuration entry),
            n_pending_configuration_index :=
              (case n_pending_configuration_index n0 of
                 None \<Rightarrow> None
               | Some i \<Rightarrow> if i \<le> le_index entry then None else Some i)\<rparr>
      in if n_role n = leader \<and> \<not> contains (n_conf n) (n_id n) then step_down E (n_term n) n
         else if n_role n = leader \<and> cs_joint (n_conf n) then
           (case leave_joint (n_conf n) of
              Inl _ \<Rightarrow> n
            | Inr next \<Rightarrow>
                (case log_append_configuration (env_storage E) (n_term n) next (n_store n) of
                   (Inr leave, s) \<Rightarrow>
                     self_replicated (le_index leave)
                       (n\<lparr>n_store := s, n_pending_configuration_index := Some (le_index leave)\<rparr>)
                 | (Inl e, s) \<Rightarrow>
                     stop E (caught_error storage_error e ''auto leave-joint append failure'')
                       (n\<lparr>n_store := s\<rparr>)))
         else n)"

definition apply_one :: "('s, 'm) raft_env \<Rightarrow> log_entry \<Rightarrow> ('s, 'm) raft_node \<Rightarrow>
    bool \<times> ('s, 'm) raft_node" where
  "apply_one E entry n =
     (if le_index entry \<noteq> n_last_applied n + 1 then (False, n)
      else
        case apply_entry (env_machine E) entry (n_fsm n) of
          (Inl err, c) \<Rightarrow> (False, stop E err (n\<lparr>n_fsm := c\<rparr>))
        | (Inr applied, c) \<Rightarrow>
            let n1 = n\<lparr>n_fsm := c, n_state := (n_state n)\<lparr>last_applied := applied\<rparr>\<rparr>;
                n2 = (if le_type entry = configuration_entry then apply_configuration E entry n1
                      else n1);
                n3 = persist E n2
            in (\<not> n_stopped n3, n3))"

text \<open>The \<open>for\<close> loop over a batch, left at the first entry that is not applied.\<close>

fun apply_all :: "('s, 'm) raft_env \<Rightarrow> log_entry list \<Rightarrow> ('s, 'm) raft_node \<Rightarrow>
    bool \<times> ('s, 'm) raft_node" where
  "apply_all E [] n = (True, n)"
| "apply_all E (entry # entries) n =
     (case apply_one E entry n of
        (False, n') \<Rightarrow> (False, n')
      | (True, n') \<Rightarrow> apply_all E entries n')"

definition apply_batch :: "('s, 'm) raft_env \<Rightarrow> ('s, 'm) raft_node \<Rightarrow> bool \<times> ('s, 'm) raft_node" where
  "apply_batch E n =
     (let first = n_last_applied n + 1;
          committed_gap = n_commit_index n - n_last_applied n
      in if committed_gap = 1 then
           (case entry_at (env_storage E) (n_store n) first of
              None \<Rightarrow> (False, n)
            | Some entry \<Rightarrow> apply_one E entry n)
         else
           let entries = stored_entries (env_storage E) (n_store n) first (unat committed_gap)
           in if entries = [] \<or> le_index (hd entries) \<noteq> first then (False, n)
              else apply_all E entries n)"

text \<open>
  The \<open>while\<close> loop as it is written: \<open>None\<close> stands for a loop that does not end.
\<close>

partial_function (option) apply_while :: "('s, 'm) raft_env \<Rightarrow> ('s, 'm) raft_node \<Rightarrow>
    ('s, 'm) raft_node option" where
  "apply_while E n =
     (if n_last_applied n < n_commit_index n then
        (case apply_batch E n of (go, n') \<Rightarrow> if go then apply_while E n' else Some n')
      else Some n)"

text \<open>
  The same loop with as much fuel as there are committed entries to apply, for evaluation: a round that does
  not leave the loop applies at least one of them. In \<open>Raft_Node_Commit\<close> the loop above is shown to end, with
  this result.
\<close>

fun apply_loop :: "nat \<Rightarrow> ('s, 'm) raft_env \<Rightarrow> ('s, 'm) raft_node \<Rightarrow> ('s, 'm) raft_node" where
  "apply_loop 0 E n = n"
| "apply_loop (Suc fuel) E n =
     (if n_last_applied n < n_commit_index n then
        (case apply_batch E n of
           (False, n') \<Rightarrow> n'
         | (True, n') \<Rightarrow> apply_loop fuel E n')
      else n)"

definition apply_committed :: "('s, 'm) raft_env \<Rightarrow> ('s, 'm) raft_node \<Rightarrow> ('s, 'm) raft_node" where
  "apply_committed E n =
     (if n_stopped n then n else apply_loop (unat (n_commit_index n - n_last_applied n)) E n)"

text \<open>The three statements that end \<open>append_command\<close>, \<open>become_leader\<close> and others.\<close>

definition commit_to :: "('s, 'm) raft_env \<Rightarrow> log_index \<Rightarrow> ('s, 'm) raft_node \<Rightarrow>
    ('s, 'm) raft_node" where
  "commit_to E i n = apply_committed E (persist E (set_commit_index i n))"

definition become_leader :: "('s, 'm) raft_env \<Rightarrow> ('s, 'm) raft_node \<Rightarrow> ('s, 'm) raft_node" where
  "become_leader E n =
     (if n_stopped n then n
      else
        let last = n_last_log_index E n;
            n1 = n\<lparr>n_role := leader, n_leader_id := n_id n, n_votes_granted := {},
                   n_votes_rejected := {},
                   n_progress := pt_modify (\<lambda>self. self\<lparr>match_index := last\<rparr>) (n_id n)
                     (pt_reset (all_members (n_conf n)) (last + 1)
                        (max_inflight_append (rc_options (n_cfg n))))\<rparr>
        in case append_noop (env_storage E) (n_term n1) (n_store n1) of
             (Inl e, s) \<Rightarrow>
               stop E (caught_error storage_error e ''leader noop append failure'') (n1\<lparr>n_store := s\<rparr>)
           | (Inr noop, s) \<Rightarrow>
               let n2 = self_replicated (le_index noop) (n1\<lparr>n_store := s\<rparr>);
                   n3 = n2\<lparr>n_fsm := fc_on_leader_start (env_machine E) (n_term n2) (n_fsm n2)\<rparr>;
                   n4 = refresh_leader_quorum E n3
               in if quorum_size (n_conf n4) = 1 then commit_to E (le_index noop) n4 else n4)"

definition matched :: "('s, 'm) raft_node \<Rightarrow> log_index \<Rightarrow> node_id \<Rightarrow> bool" where
  "matched n idx nid =
     (if nid = n_id n then True
      else case pt_get (n_progress n) nid of None \<Rightarrow> False | Some p \<Rightarrow> match_index p \<ge> idx)"

function advance_loop :: "('s, 'm) raft_env \<Rightarrow> log_index \<Rightarrow> ('s, 'm) raft_node \<Rightarrow>
    ('s, 'm) raft_node" where
  "advance_loop E idx n =
     (if idx > n_commit_index n then
        if configuration_has_quorum (n_conf n) (matched n idx) \<and>
           term_at (env_storage E) (n_store n) idx = n_term n
        then commit_to E idx n
        else advance_loop E (idx - 1) n
      else n)"
  by pat_completeness auto
termination
  by (relation "measure (\<lambda>(E, idx, n). unat idx)") (auto intro: unat_dec_less)

declare advance_loop.simps [simp del]

definition advance_commit_index :: "('s, 'm) raft_env \<Rightarrow> ('s, 'm) raft_node \<Rightarrow>
    ('s, 'm) raft_node" where
  "advance_commit_index E n =
     (if n_stopped n then n else advance_loop E (n_last_log_index E n) n)"


definition acknowledge_read :: "node_id \<Rightarrow> request_id \<Rightarrow> ('s, 'm) raft_node \<Rightarrow>
    ('s, 'm) raft_node" where
  "acknowledge_read peer rid n =
     (case map_of (n_pending_reads n) rid of
        None \<Rightarrow> n
      | Some r \<Rightarrow>
          if pr_term r \<noteq> n_term n then n
          else
            let acked = insert peer (insert (n_id n) (pr_acked r));
                r' = r\<lparr>pr_acked := acked, pr_ready := (has_quorum (n_conf n) acked \<or> pr_ready r)\<rparr>
            in n\<lparr>n_pending_reads := smap_insert rid r' (n_pending_reads n)\<rparr>)"

definition make_timeout_now :: "('s, 'm) raft_env \<Rightarrow> node_id \<Rightarrow> ('s, 'm) raft_node \<Rightarrow>
    timeout_now_request option" where
  "make_timeout_now E target n =
     (if n_role n \<noteq> leader \<or> \<not> contains (n_conf n) target then None
      else
        case pt_get (n_progress n) target of
          None \<Rightarrow> None
        | Some p \<Rightarrow>
            if match_index p < n_last_log_index E n then None
            else Some \<lparr>tn_term = n_term n, tn_leader_id = n_id n\<rparr>)"

definition append_configuration :: "('s, 'm) raft_env \<Rightarrow> configuration \<Rightarrow> ('s, 'm) raft_node \<Rightarrow>
    (raft_error + log_entry) \<times> ('s, 'm) raft_node" where
  "append_configuration E next n =
     (if n_stopped n then (Inl (n_fatal_error n), n)
      else if n_role n \<noteq> leader then
        (Inl (mk_error not_leader ''configuration change requires leader role''), n)
      else
        case log_append_configuration (env_storage E) (n_term n) next (n_store n) of
          (Inl e, s) \<Rightarrow>
            let n' = stop E (caught_error storage_error e ''configuration append storage failure'')
                  (n\<lparr>n_store := s\<rparr>)
            in (Inl (n_fatal_error n'), n')
        | (Inr entry, s) \<Rightarrow>
            let n1 = n\<lparr>n_store := s, n_pending_configuration_index := Some (le_index entry),
                       n_conf := next\<rparr>;
                n2 = n1\<lparr>n_progress := pt_reset (all_members (n_conf n1)) (n_last_log_index E n1 + 1)
                          (max_inflight_append (rc_options (n_cfg n1)))\<rparr>;
                n3 = self_replicated (le_index entry) n2
            in (Inr entry,
                if quorum_size (n_conf n3) = 1 then commit_to E (le_index entry) n3 else n3))"


subsection \<open>Observers\<close>

definition metrics :: "('s, 'm) raft_env \<Rightarrow> ('s, 'm) raft_node \<Rightarrow> raft_metrics" where
  "metrics E n =
     (let snap = load_snapshot_metadata (env_storage E) (n_store n) in
      \<lparr>rm_current_term = n_term n, rm_role = n_role n, rm_leader_id = n_leader_id n,
       rm_first_log_index = first_log_index (env_storage E) (n_store n),
       rm_last_log_index = n_last_log_index E n, rm_commit_index = n_commit_index n,
       rm_last_applied = n_last_applied n, rm_snapshot_index = last_included_index snap,
       rm_snapshot_term = last_included_term snap, rm_voters = length (cs_voters (n_conf n)),
       rm_learners = length (cs_learners (n_conf n)),
       rm_pending_reads = length (n_pending_reads n),
       rm_active_followers = active_followers (n_progress n), rm_stopped = n_stopped n,
       rm_last_error = re_message (n_fatal_error n)\<rparr>)"

definition election_timeout_elapsed :: "('s, 'm) raft_env \<Rightarrow> time \<Rightarrow> ('s, 'm) raft_node \<Rightarrow> bool" where
  "election_timeout_elapsed E timeout n =
     (if n_role n = leader then False else env_now E - n_last_leader_contact n \<ge> timeout)"

definition leader_lease_valid :: "('s, 'm) raft_env \<Rightarrow> time \<Rightarrow> ('s, 'm) raft_node \<Rightarrow> bool" where
  "leader_lease_valid E timeout n =
     (if n_role n \<noteq> leader then False
      else if quorum_size (n_conf n) = 1 then True
      else env_now E - n_last_quorum_contact n \<le> timeout)"

definition make_append_entries :: "('s, 'm) raft_env \<Rightarrow> node_id \<Rightarrow> ('s, 'm) raft_node \<Rightarrow>
    append_entries_request" where
  "make_append_entries E peer n =
     (let S = env_storage E;
          progress = pt_get (n_progress n) peer;
          next0 = (case progress of None \<Rightarrow> n_last_log_index E n + 1 | Some p \<Rightarrow> next_index p);
          first = first_log_index S (n_store n);
          next = (if next0 < first then first else next0);
          prev = (if next > 0 then next - 1 else 0);
          inflight_full = (case progress of None \<Rightarrow> False
             | Some p \<Rightarrow> pp_state p = replicate \<and> iw_full (inflight p))
      in \<lparr>ae_term = n_term n, ae_leader_id = n_id n, ae_prev_log_index = prev,
          ae_prev_log_term = term_at S (n_store n) prev,
          ae_entries = (if inflight_full then []
             else stored_entries S (n_store n) next (max_entries_per_append (rc_options (n_cfg n)))),
          ae_leader_commit = n_commit_index n,
          ae_read_contexts =
            map (\<lambda>(_, r). \<lparr>ri_id = pr_id r, ri_context = pr_context r\<rparr>)
              (filter (\<lambda>(_, r). \<not> pr_ready r) (n_pending_reads n))\<rparr>)"

definition should_send_snapshot :: "('s, 'm) raft_env \<Rightarrow> node_id \<Rightarrow> ('s, 'm) raft_node \<Rightarrow> bool" where
  "should_send_snapshot E peer n =
     (case pt_get (n_progress n) peer of
        None \<Rightarrow> False
      | Some p \<Rightarrow>
          snapshot_valid (load_snapshot_metadata (env_storage E) (n_store n)) \<and>
          next_index p < first_log_index (env_storage E) (n_store n))"

definition make_install_snapshot :: "('s, 'm) raft_env \<Rightarrow> node_id \<Rightarrow> ('s, 'm) raft_node \<Rightarrow>
    install_snapshot_request" where
  "make_install_snapshot E peer n =
     (let metadata = load_snapshot_metadata (env_storage E) (n_store n)
      in default_install_snapshot_request
           \<lparr>is_term := n_term n, is_leader_id := n_id n, is_metadata := metadata,
            is_uri := sm_uri metadata\<rparr>)"

definition query_read_index :: "request_id \<Rightarrow> ('s, 'm) raft_node \<Rightarrow> read_index_response option" where
  "query_read_index rid n =
     (case map_of (n_pending_reads n) rid of
        None \<Rightarrow> None
      | Some r \<Rightarrow> Some \<lparr>rir_id = pr_id r, rir_term = pr_term r, rir_index = pr_index r,
                       rir_ready = pr_ready r\<rparr>)"

definition pending_read_count :: "('s, 'm) raft_node \<Rightarrow> nat" where
  "pending_read_count n = length (n_pending_reads n)"


subsection \<open>Elections\<close>

definition mark_snapshot_sent :: "('s, 'm) raft_env \<Rightarrow> node_id \<Rightarrow> ('s, 'm) raft_node \<Rightarrow>
    ('s, 'm) raft_node" where
  "mark_snapshot_sent E peer n =
     (let snap = load_snapshot_metadata (env_storage E) (n_store n)
      in if snapshot_valid snap
         then n\<lparr>n_progress := mark_snapshot peer (last_included_index snap) (n_progress n)\<rparr> else n)"

definition mark_append_sent :: "node_id \<Rightarrow> log_index \<Rightarrow> ('s, 'm) raft_node \<Rightarrow>
    ('s, 'm) raft_node" where
  "mark_append_sent peer last_index n = n\<lparr>n_progress := mark_sent peer last_index (n_progress n)\<rparr>"

definition begin_pre_vote :: "('s, 'm) raft_env \<Rightarrow> ('s, 'm) raft_node \<Rightarrow>
    request_vote_request \<times> ('s, 'm) raft_node" where
  "begin_pre_vote E n =
     (if n_stopped n then (default_request_vote_request, n)
      else if \<not> contains (n_conf n) (n_id n) then (default_request_vote_request, n)
      else
        (\<lparr>rv_term = n_term n + 1, rv_candidate_id = n_id n, rv_last_log_index = n_last_log_index E n,
          rv_last_log_term = last_log_term (env_storage E) (n_store n), rv_pre_vote = True\<rparr>,
         n\<lparr>n_role := pre_candidate, n_votes_granted := {n_id n}, n_votes_rejected := {}\<rparr>))"

definition begin_election :: "('s, 'm) raft_env \<Rightarrow> ('s, 'm) raft_node \<Rightarrow>
    request_vote_request \<times> ('s, 'm) raft_node" where
  "begin_election E n =
     (if n_stopped n then (default_request_vote_request, n)
      else if \<not> contains (n_conf n) (n_id n) then (default_request_vote_request, n)
      else
        let n1 = persist E
              (n\<lparr>n_role := candidate, n_leader_id := [],
                 n_state := (n_state n)\<lparr>current_term := n_term n + 1, voted_for := n_id n\<rparr>,
                 n_votes_granted := {n_id n}, n_votes_rejected := {}\<rparr>);
            req = default_request_vote_request
              \<lparr>rv_term := n_term n1, rv_candidate_id := n_id n1,
               rv_last_log_index := n_last_log_index E n1,
               rv_last_log_term := last_log_term (env_storage E) (n_store n1)\<rparr>
        in (req, if has_quorum (n_conf n1) (n_votes_granted n1) then become_leader E n1 else n1))"

definition handle_request_vote :: "('s, 'm) raft_env \<Rightarrow> request_vote_request \<Rightarrow>
    ('s, 'm) raft_node \<Rightarrow> request_vote_response \<times> ('s, 'm) raft_node" where
  "handle_request_vote E req n =
     (if n_stopped n then
        (\<lparr>rvr_term = n_term n, rvr_vote_granted = False, rvr_pre_vote = rv_pre_vote req\<rparr>, n)
      else if \<not> contains (n_conf n) (n_id n) \<or> \<not> contains (n_conf n) (rv_candidate_id req) then
        (\<lparr>rvr_term = n_term n, rvr_vote_granted = False, rvr_pre_vote = rv_pre_vote req\<rparr>, n)
      else if rv_pre_vote req then
        let grant = (rv_term req \<ge> n_term n \<and>
              is_log_at_least_up_to_date (env_storage E) (n_store n) (rv_last_log_index req)
                (rv_last_log_term req))
        in (\<lparr>rvr_term = n_term n, rvr_vote_granted = grant, rvr_pre_vote = True\<rparr>, n)
      else if rv_term req < n_term n then
        (\<lparr>rvr_term = n_term n, rvr_vote_granted = False, rvr_pre_vote = False\<rparr>, n)
      else
        let n1 = (if rv_term req > n_term n then step_down E (rv_term req) n else n);
            can_vote = (n_voted_for n1 = [] \<or> n_voted_for n1 = rv_candidate_id req);
            log_ok = is_log_at_least_up_to_date (env_storage E) (n_store n1) (rv_last_log_index req)
              (rv_last_log_term req);
            grant = (can_vote \<and> log_ok);
            n2 = (if grant then
                    persist E (reset_election_deadline E
                      (n1\<lparr>n_state := (n_state n1)\<lparr>voted_for := rv_candidate_id req\<rparr>,
                          n_leader_id := []\<rparr>))
                  else n1)
        in (\<lparr>rvr_term = n_term n2, rvr_vote_granted = grant, rvr_pre_vote = False\<rparr>, n2))"

definition handle_vote_response :: "('s, 'm) raft_env \<Rightarrow> node_id \<Rightarrow> request_vote_response \<Rightarrow>
    ('s, 'm) raft_node \<Rightarrow> bool \<times> ('s, 'm) raft_node" where
  "handle_vote_response E voter resp n =
     (if n_stopped n then (False, n)
      else if rvr_term resp > n_term n then (False, step_down E (rvr_term resp) n)
      else if rvr_pre_vote resp then
        (if n_role n \<noteq> pre_candidate \<or> \<not> rvr_vote_granted resp then (False, n)
         else
           let n1 = n\<lparr>n_votes_granted := insert voter (n_votes_granted n)\<rparr>
           in (has_quorum (n_conf n1) (n_votes_granted n1), n1))
      else if n_role n \<noteq> candidate \<or> rvr_term resp \<noteq> n_term n then (False, n)
      else
        let n1 = (if rvr_vote_granted resp
                  then n\<lparr>n_votes_granted := insert voter (n_votes_granted n)\<rparr>
                  else n\<lparr>n_votes_rejected := insert voter (n_votes_rejected n)\<rparr>)
        in if has_quorum (n_conf n1) (n_votes_granted n1) then (True, become_leader E n1)
           else (False, n1))"

definition handle_timeout_now :: "('s, 'm) raft_env \<Rightarrow> timeout_now_request \<Rightarrow>
    ('s, 'm) raft_node \<Rightarrow> request_vote_request option \<times> ('s, 'm) raft_node" where
  "handle_timeout_now E req n =
     (if n_stopped n \<or> \<not> contains (n_conf n) (n_id n) \<or> \<not> contains (n_conf n) (tn_leader_id req)
      then (None, n)
      else if tn_term req < n_term n then (None, n)
      else
        let n1 = (if tn_term req > n_term n then step_down E (tn_term req) n else n)
        in if n_leader_id n1 \<noteq> [] \<and> n_leader_id n1 \<noteq> tn_leader_id req then (None, n1)
           else (case begin_election E n1 of (r, n2) \<Rightarrow> (Some r, n2)))"


subsection \<open>Replication\<close>

text \<open>
  \<open>handle_append_entries\<close>: the answer of the refusing branches, what an accepted request does (from
  the call of \<open>append_from_leader\<close> on), and the whole handler.
\<close>

definition append_refusal :: "('s, 'm) raft_env \<Rightarrow> ('s, 'm) raft_node \<Rightarrow> append_entries_response" where
  "append_refusal E n =
     default_append_entries_response
       \<lparr>aer_term := n_term n, aer_success := False, aer_match_index := n_last_log_index E n\<rparr>"

definition append_accepted :: "('s, 'm) raft_env \<Rightarrow> append_entries_request \<Rightarrow>
    ('s, 'm) raft_node \<Rightarrow> append_entries_response \<times> ('s, 'm) raft_node" where
  "append_accepted E req n =
     (case append_from_leader (env_storage E) (ae_prev_log_index req) (ae_prev_log_term req)
             (ae_entries req) (n_store n) of
        (Inl e, s) \<Rightarrow>
          let n1 = stop E (caught_error storage_error e ''append entries storage failure'')
                (n\<lparr>n_store := s\<rparr>)
          in (append_refusal E n1, n1)
      | (Inr appended, s) \<Rightarrow>
          let n1 = n\<lparr>n_store := s\<rparr> in
          if \<not> ar_success appended then
            (default_append_entries_response
               \<lparr>aer_term := n_term n1, aer_success := False,
                aer_match_index := ar_match_index appended,
                aer_conflict_index := ar_conflict_index appended,
                aer_conflict_term := ar_conflict_term appended\<rparr>, n1)
          else
            let n2 = (if ae_leader_commit req > n_commit_index n1
                      then commit_to E (min (ae_leader_commit req) (n_last_log_index E n1)) n1
                      else n1)
            in (default_append_entries_response
                  \<lparr>aer_term := n_term n2, aer_success := True,
                   aer_match_index := ar_match_index appended,
                   aer_read_acks := map ri_id (ae_read_contexts req)\<rparr>, n2))"

definition handle_append_entries :: "('s, 'm) raft_env \<Rightarrow> append_entries_request \<Rightarrow>
    ('s, 'm) raft_node \<Rightarrow> append_entries_response \<times> ('s, 'm) raft_node" where
  "handle_append_entries E req n =
     (if n_stopped n then (append_refusal E n, n)
      else if ae_term req < n_term n then (append_refusal E n, n)
      else if \<not> contains (n_conf n) (ae_leader_id req) then (append_refusal E n, n)
      else
        let n1 = (if ae_term req > n_term n \<or> n_role n \<noteq> follower
                  then step_down E (ae_term req) n else n)
        in append_accepted E req (reset_election_deadline E (n1\<lparr>n_leader_id := ae_leader_id req\<rparr>)))"

definition handle_append_entries_response :: "('s, 'm) raft_env \<Rightarrow> node_id \<Rightarrow>
    append_entries_response \<Rightarrow> ('s, 'm) raft_node \<Rightarrow> bool \<times> ('s, 'm) raft_node" where
  "handle_append_entries_response E peer resp n =
     (if n_stopped n then (False, n)
      else if aer_term resp > n_term n then (False, step_down E (aer_term resp) n)
      else if n_role n \<noteq> leader \<or> aer_term resp \<noteq> n_term n then (False, n)
      else if aer_success resp then
        let n1 = n\<lparr>n_progress := mark_replicated peer (aer_match_index resp) (n_progress n)\<rparr>;
            n2 = fold (acknowledge_read peer) (aer_read_acks resp) n1
        in (True, advance_commit_index E (refresh_leader_quorum E n2))
      else
        (False, n\<lparr>n_progress := mark_rejected peer (aer_match_index resp + 1)
                    (aer_conflict_index resp) (n_progress n)\<rparr>))"

text \<open>
  \<open>handle_install_snapshot\<close>: what an accepted request does (from the copy of the metadata on), and
  the whole handler.
\<close>

definition snapshot_answer :: "bool \<Rightarrow> ('s, 'm) raft_node \<Rightarrow> install_snapshot_response" where
  "snapshot_answer ok n =
     default_install_snapshot_response\<lparr>isr_term := n_term n, isr_success := ok\<rparr>"

definition install_accepted :: "('s, 'm) raft_env \<Rightarrow> install_snapshot_request \<Rightarrow>
    ('s, 'm) raft_node \<Rightarrow> install_snapshot_response \<times> ('s, 'm) raft_node" where
  "install_accepted E req n =
     (let metadata = (if is_uri req \<noteq> [] then (is_metadata req)\<lparr>sm_uri := is_uri req\<rparr>
                      else is_metadata req)
      in case load_snapshot (env_machine E) \<lparr>sr_metadata = metadata, sr_uri = is_uri req\<rparr> (n_fsm n) of
           (Some err, c) \<Rightarrow> let n1 = stop E err (n\<lparr>n_fsm := c\<rparr>) in (snapshot_answer False n1, n1)
         | (None, c) \<Rightarrow>
             let n1 = n\<lparr>n_fsm := c\<rparr> in
             case restore_snapshot (env_storage E) metadata (n_store n1) of
               (Inl e, s) \<Rightarrow>
                 let n2 = stop E (caught_error storage_error e ''snapshot restore storage failure'')
                       (n1\<lparr>n_store := s\<rparr>)
                 in (snapshot_answer False n2, n2)
             | (Inr restored, s) \<Rightarrow>
                 let n2 = n1\<lparr>n_store := s\<rparr> in
                 if \<not> ar_success restored then (snapshot_answer False n2, n2)
                 else
                   let n3 = (if cs_voters (sm_configuration metadata) \<noteq> []
                             then n2\<lparr>n_conf := mk_configuration (sm_configuration metadata)\<rparr>
                             else n2);
                       n4 = persist E (n3\<lparr>n_state := (n_state n3)
                              \<lparr>commit_index := max (n_commit_index n3) (last_included_index metadata),
                               last_applied := max (n_last_applied n3) (last_included_index metadata)\<rparr>\<rparr>)
                   in (snapshot_answer True n4, n4))"

definition handle_install_snapshot :: "('s, 'm) raft_env \<Rightarrow> install_snapshot_request \<Rightarrow>
    ('s, 'm) raft_node \<Rightarrow> install_snapshot_response \<times> ('s, 'm) raft_node" where
  "handle_install_snapshot E req n =
     (if n_stopped n then (snapshot_answer False n, n)
      else if is_term req < n_term n then (snapshot_answer False n, n)
      else if \<not> contains (n_conf n) (is_leader_id req) \<and> \<not> conf_empty (n_conf n) then
        (snapshot_answer False n, n)
      else
        let n1 = (if is_term req > n_term n \<or> n_role n \<noteq> follower
                  then step_down E (is_term req) n else n)
        in install_accepted E req (reset_election_deadline E (n1\<lparr>n_leader_id := is_leader_id req\<rparr>)))"

definition handle_install_snapshot_response :: "('s, 'm) raft_env \<Rightarrow> node_id \<Rightarrow>
    install_snapshot_response \<Rightarrow> ('s, 'm) raft_node \<Rightarrow> bool \<times> ('s, 'm) raft_node" where
  "handle_install_snapshot_response E peer resp n =
     (if n_stopped n then (False, n)
      else if isr_term resp > n_term n then (False, step_down E (isr_term resp) n)
      else if n_role n \<noteq> leader \<or> isr_term resp \<noteq> n_term n \<or> \<not> isr_success resp then (False, n)
      else
        case pt_get (n_progress n) peer of
          None \<Rightarrow> (False, n)
        | Some p \<Rightarrow>
            if pending_snapshot p = 0 then (False, n)
            else
              let n1 = n\<lparr>n_progress := mark_replicated peer (pending_snapshot p) (n_progress n)\<rparr>
              in (True, advance_commit_index E (refresh_leader_quorum E n1)))"


subsection \<open>Commands and configuration changes\<close>

definition append_command :: "('s, 'm) raft_env \<Rightarrow> string \<Rightarrow> ('s, 'm) raft_node \<Rightarrow>
    (raft_error + log_entry) \<times> ('s, 'm) raft_node" where
  "append_command E cmd n =
     (if n_stopped n then (Inl (n_fatal_error n), n)
      else if n_role n \<noteq> leader then
        (Inl (mk_error not_leader ''append_command requires leader role''), n)
      else
        case append_as_leader (env_storage E) (n_term n) cmd (n_store n) of
          (Inl e, s) \<Rightarrow>
            let n' = stop E (caught_error storage_error e ''leader append storage failure'')
                  (n\<lparr>n_store := s\<rparr>)
            in (Inl (n_fatal_error n'), n')
        | (Inr entry, s) \<Rightarrow>
            let n1 = n\<lparr>n_store := s\<rparr>
            in (Inr entry,
                if quorum_size (n_conf n1) = 1 then commit_to E (le_index entry) n1 else n1))"

text \<open>The guard that the five configuration changes share.\<close>

definition configuration_pending :: "('s, 'm) raft_node \<Rightarrow> bool" where
  "configuration_pending n =
     (case n_pending_configuration_index n of None \<Rightarrow> False | Some i \<Rightarrow> i > n_commit_index n)"

definition enter_joint_configuration :: "('s, 'm) raft_env \<Rightarrow> node_id list \<Rightarrow> ('s, 'm) raft_node \<Rightarrow>
    (raft_error + log_entry) \<times> ('s, 'm) raft_node" where
  "enter_joint_configuration E new_voters n =
     (if n_stopped n then (Inl (n_fatal_error n), n)
      else if configuration_pending n then
        (Inl (mk_error configuration_error ''configuration change already pending''), n)
      else
        case with_joint (n_conf n) new_voters of
          Inl err \<Rightarrow> (Inl err, n)
        | Inr next \<Rightarrow> append_configuration E next n)"

definition leave_joint_configuration :: "('s, 'm) raft_env \<Rightarrow> ('s, 'm) raft_node \<Rightarrow>
    (raft_error + log_entry) \<times> ('s, 'm) raft_node" where
  "leave_joint_configuration E n =
     (if n_stopped n then (Inl (n_fatal_error n), n)
      else if configuration_pending n then
        (Inl (mk_error configuration_error ''configuration change already pending''), n)
      else
        case leave_joint (n_conf n) of
          Inl err \<Rightarrow> (Inl err, n)
        | Inr next \<Rightarrow> append_configuration E next n)"

definition set_learners :: "('s, 'm) raft_env \<Rightarrow> node_id list \<Rightarrow> ('s, 'm) raft_node \<Rightarrow>
    (raft_error + log_entry) \<times> ('s, 'm) raft_node" where
  "set_learners E learners n =
     (if n_stopped n then (Inl (n_fatal_error n), n)
      else if configuration_pending n then
        (Inl (mk_error configuration_error ''configuration change already pending''), n)
      else
        case with_learners (n_conf n) learners of
          Inl err \<Rightarrow> (Inl err, n)
        | Inr next \<Rightarrow> append_configuration E next n)"

definition node_promote_learner :: "('s, 'm) raft_env \<Rightarrow> node_id \<Rightarrow> ('s, 'm) raft_node \<Rightarrow>
    (raft_error + log_entry) \<times> ('s, 'm) raft_node" where
  "node_promote_learner E nid n =
     (if n_stopped n then (Inl (n_fatal_error n), n)
      else if configuration_pending n then
        (Inl (mk_error configuration_error ''configuration change already pending''), n)
      else
        case promote_learner (n_conf n) nid of
          Inl err \<Rightarrow> (Inl err, n)
        | Inr next \<Rightarrow> append_configuration E next n)"

definition remove_node :: "('s, 'm) raft_env \<Rightarrow> node_id \<Rightarrow> ('s, 'm) raft_node \<Rightarrow>
    (raft_error + log_entry) \<times> ('s, 'm) raft_node" where
  "remove_node E nid n =
     (if n_stopped n then (Inl (n_fatal_error n), n)
      else if configuration_pending n then
        (Inl (mk_error configuration_error ''configuration change already pending''), n)
      else
        case remove_member (n_conf n) nid of
          Inl err \<Rightarrow> (Inl err, n)
        | Inr next \<Rightarrow> append_configuration E next n)"

definition transfer_leader :: "('s, 'm) raft_env \<Rightarrow> node_id \<Rightarrow> ('s, 'm) raft_node \<Rightarrow>
    (raft_error + timeout_now_request option) \<times> ('s, 'm) raft_node" where
  "transfer_leader E target n =
     (if n_stopped n then (Inl (n_fatal_error n), n)
      else if n_role n \<noteq> leader then
        (Inl (mk_error not_leader ''leader transfer requires leader role''), n)
      else if target = n_id n then (Inr None, n)
      else if \<not> contains (n_conf n) target then
        (Inl (mk_error not_voter ''leader transfer target must be a voter''), n)
      else
        let n1 = n\<lparr>n_pending_leader_transfer := Some target\<rparr> in
        case make_timeout_now E target n1 of
          Some request \<Rightarrow> (Inr (Some request), n1\<lparr>n_pending_leader_transfer := None\<rparr>)
        | None \<Rightarrow> (Inr None, n1))"

definition take_pending_leader_transfer :: "('s, 'm) raft_env \<Rightarrow> node_id \<Rightarrow>
    ('s, 'm) raft_node \<Rightarrow> timeout_now_request option \<times> ('s, 'm) raft_node" where
  "take_pending_leader_transfer E peer n =
     (if n_pending_leader_transfer n \<noteq> Some peer then (None, n)
      else
        let request = make_timeout_now E peer n
        in (request,
            if request \<noteq> None then n\<lparr>n_pending_leader_transfer := None\<rparr> else n))"


subsection \<open>Snapshots\<close>

definition create_snapshot :: "('s, 'm) raft_env \<Rightarrow> string \<Rightarrow> ('s, 'm) raft_node \<Rightarrow>
    (raft_error + snapshot_metadata) \<times> ('s, 'm) raft_node" where
  "create_snapshot E uri n =
     (if n_stopped n then (Inl (n_fatal_error n), n)
      else if n_commit_index n = 0 then
        (Inl (mk_error snapshot_required ''cannot create snapshot before any committed log''), n)
      else
        let S = env_storage E;
            metadata = \<lparr>last_included_index = n_commit_index n,
              last_included_term = term_at S (n_store n) (n_commit_index n), sm_uri = uri,
              sm_configuration = n_conf n\<rparr>;
            failed = (\<lambda>e n. let n' = stop E
                (caught_error storage_error e ''snapshot metadata storage failure'') n
              in (Inl (n_fatal_error n'), n'))
        in case save_snapshot (env_machine E) \<lparr>sw_metadata = metadata, sw_uri = uri\<rparr> (n_fsm n) of
             (Some err, c) \<Rightarrow>
               let n1 = stop E err (n\<lparr>n_fsm := c\<rparr>) in (Inl (n_fatal_error n1), n1)
           | (None, c) \<Rightarrow>
               let n1 = n\<lparr>n_fsm := c\<rparr> in
               case save_snapshot_metadata S metadata (n_store n1) of
                 (Some e, s) \<Rightarrow> failed e (n1\<lparr>n_store := s\<rparr>)
               | (None, s) \<Rightarrow>
                   (case compact_prefix S (last_included_index metadata + 1) s of
                      (Some e, s') \<Rightarrow> failed e (n1\<lparr>n_store := s'\<rparr>)
                    | (None, s') \<Rightarrow> (Inr metadata, n1\<lparr>n_store := s'\<rparr>)))"

definition snapshot_uri :: "raft_snapshot_policy \<Rightarrow> ('s, 'm) raft_node \<Rightarrow> string" where
  "snapshot_uri policy n =
     (if uri_prefix policy = [] then ''raft-snapshot'' else uri_prefix policy) @ ''-'' @
     dec_digits (unat (n_term n)) @ ''-'' @ dec_digits (unat (n_commit_index n)) @ ''.snapshot''"

definition maybe_create_snapshot :: "('s, 'm) raft_env \<Rightarrow> raft_snapshot_policy \<Rightarrow>
    ('s, 'm) raft_node \<Rightarrow> (raft_error + snapshot_metadata option) \<times> ('s, 'm) raft_node" where
  "maybe_create_snapshot E policy n =
     (if log_entries_threshold policy = 0 then (Inr None, n)
      else if n_stopped n then (Inl (n_fatal_error n), n)
      else
        let S = env_storage E;
            first = first_log_index S (n_store n);
            compactable_entries = (if n_commit_index n \<ge> first
              then unat (n_commit_index n - first + 1) else 0)
        in if n_commit_index n \<le> last_included_index (load_snapshot_metadata S (n_store n)) then
             (Inr None, n)
           else if compactable_entries < log_entries_threshold policy then (Inr None, n)
           else if n_last_auto_snapshot n \<noteq> 0 \<and>
                   env_now E - n_last_auto_snapshot n < min_interval policy then (Inr None, n)
           else
             case create_snapshot E (snapshot_uri policy n) n of
               (Inl err, n1) \<Rightarrow> (Inl err, n1)
             | (Inr created, n1) \<Rightarrow>
                 (Inr (Some created), n1\<lparr>n_last_auto_snapshot := env_now E\<rparr>))"


subsection \<open>Linearizable reads\<close>

definition read_index :: "('s, 'm) raft_env \<Rightarrow> read_index_request \<Rightarrow> ('s, 'm) raft_node \<Rightarrow>
    (raft_error + read_index_response) \<times> ('s, 'm) raft_node" where
  "read_index E request n =
     (if n_stopped n then (Inl (n_fatal_error n), n)
      else if n_role n \<noteq> leader then
        (Inl (mk_error not_leader ''read_index requires leader role''), n)
      else
        let options = rc_options (n_cfg n);
            ready = (has_quorum (n_conf n) {n_id n} \<or>
              (lease_read options \<and> check_quorum options \<and>
               leader_lease_valid E (leader_lease_timeout options) n));
            pending = \<lparr>pr_id = ri_id request, pr_term = n_term n, pr_index = n_commit_index n,
              pr_context = ri_context request, pr_acked = {n_id n}, pr_created_at = env_now E,
              pr_ready = ready\<rparr>
        in (Inr \<lparr>rir_id = ri_id request, rir_term = n_term n, rir_index = n_commit_index n,
                 rir_ready = ready\<rparr>,
            n\<lparr>n_pending_reads := smap_insert (ri_id request) pending (n_pending_reads n)\<rparr>))"

definition consume_read_index :: "request_id \<Rightarrow> ('s, 'm) raft_node \<Rightarrow>
    read_index_response option \<times> ('s, 'm) raft_node" where
  "consume_read_index rid n =
     (case map_of (n_pending_reads n) rid of
        None \<Rightarrow> (None, n)
      | Some r \<Rightarrow>
          if \<not> pr_ready r then (None, n)
          else (Some \<lparr>rir_id = pr_id r, rir_term = pr_term r, rir_index = pr_index r,
                      rir_ready = True\<rparr>,
                n\<lparr>n_pending_reads := smap_erase rid (n_pending_reads n)\<rparr>))"

definition expire_read_indexes :: "('s, 'm) raft_env \<Rightarrow> time \<Rightarrow> ('s, 'm) raft_node \<Rightarrow>
    nat \<times> ('s, 'm) raft_node" where
  "expire_read_indexes E timeout n =
     (let expired = (\<lambda>(_, r). \<not> pr_ready r \<and> env_now E - pr_created_at r \<ge> timeout)
      in (length (filter expired (n_pending_reads n)),
          n\<lparr>n_pending_reads := filter (\<lambda>item. \<not> expired item) (n_pending_reads n)\<rparr>))"

definition check_leader_quorum :: "('s, 'm) raft_env \<Rightarrow> time \<Rightarrow> ('s, 'm) raft_node \<Rightarrow>
    bool \<times> ('s, 'm) raft_node" where
  "check_leader_quorum E timeout n =
     (if n_stopped n then (False, n)
      else if n_role n \<noteq> leader then (True, n)
      else if leader_lease_valid E timeout n then (True, n)
      else (False, step_down E (n_term n) n))"


subsection \<open>Events\<close>

text \<open>A call of a public member function that changes the node, with its arguments.\<close>

datatype node_event =
    Begin_pre_vote
  | Begin_election
  | Request_vote request_vote_request
  | Vote_response node_id request_vote_response
  | Timeout_now timeout_now_request
  | Append_entries append_entries_request
  | Append_entries_response node_id append_entries_response
  | Install_snapshot install_snapshot_request
  | Install_snapshot_response node_id install_snapshot_response
  | Mark_snapshot_sent node_id
  | Mark_append_sent node_id log_index
  | Append_command string
  | Enter_joint "node_id list"
  | Leave_joint
  | Set_learners "node_id list"
  | Promote_learner node_id
  | Remove_node node_id
  | Transfer_leader node_id
  | Take_pending_leader_transfer node_id
  | Create_snapshot string
  | Maybe_create_snapshot raft_snapshot_policy
  | Read_index read_index_request
  | Consume_read_index request_id
  | Expire_read_indexes time
  | Check_leader_quorum time
  | Stop raft_error

fun node_step :: "('s, 'm) raft_env \<Rightarrow> node_event \<Rightarrow> ('s, 'm) raft_node \<Rightarrow> ('s, 'm) raft_node" where
  "node_step E Begin_pre_vote n = snd (begin_pre_vote E n)"
| "node_step E Begin_election n = snd (begin_election E n)"
| "node_step E (Request_vote req) n = snd (handle_request_vote E req n)"
| "node_step E (Vote_response voter resp) n = snd (handle_vote_response E voter resp n)"
| "node_step E (Timeout_now req) n = snd (handle_timeout_now E req n)"
| "node_step E (Append_entries req) n = snd (handle_append_entries E req n)"
| "node_step E (Append_entries_response peer resp) n =
     snd (handle_append_entries_response E peer resp n)"
| "node_step E (Install_snapshot req) n = snd (handle_install_snapshot E req n)"
| "node_step E (Install_snapshot_response peer resp) n =
     snd (handle_install_snapshot_response E peer resp n)"
| "node_step E (Mark_snapshot_sent peer) n = mark_snapshot_sent E peer n"
| "node_step E (Mark_append_sent peer i) n = mark_append_sent peer i n"
| "node_step E (Append_command cmd) n = snd (append_command E cmd n)"
| "node_step E (Enter_joint vs) n = snd (enter_joint_configuration E vs n)"
| "node_step E Leave_joint n = snd (leave_joint_configuration E n)"
| "node_step E (Set_learners ls) n = snd (set_learners E ls n)"
| "node_step E (Promote_learner nid) n = snd (node_promote_learner E nid n)"
| "node_step E (Remove_node nid) n = snd (remove_node E nid n)"
| "node_step E (Transfer_leader target) n = snd (transfer_leader E target n)"
| "node_step E (Take_pending_leader_transfer peer) n = snd (take_pending_leader_transfer E peer n)"
| "node_step E (Create_snapshot uri) n = snd (create_snapshot E uri n)"
| "node_step E (Maybe_create_snapshot policy) n = snd (maybe_create_snapshot E policy n)"
| "node_step E (Read_index req) n = snd (read_index E req n)"
| "node_step E (Consume_read_index rid) n = snd (consume_read_index rid n)"
| "node_step E (Expire_read_indexes timeout) n = snd (expire_read_indexes E timeout n)"
| "node_step E (Check_leader_quorum timeout) n = snd (check_leader_quorum E timeout n)"
| "node_step E (Stop err) n = stop E err n"

end
