(* ===== verification/Raft_Node_Votes.thy ===== *)
theory Raft_Node_Votes
  imports Raft_Node
begin

text \<open>
  How the calls of a node move its term, its vote and its role. \<open>calm\<close> is what every statement of
  \<open>node.cpp\<close> outside of an election keeps; an election is described by its starting state. On top of
  it: the vote of a term is cast once, and it is in the store before the call returns.
\<close>

subsection \<open>What stopping and persisting leave alone\<close>

lemma stop_frame [simp]:
  "n_cfg (stop E err n) = n_cfg n"
  "n_store (stop E err n) = n_store n"
  "n_state (stop E err n) = n_state n"
  "n_conf (stop E err n) = n_conf n"
  "n_leader_id (stop E err n) = n_leader_id n"
  "n_progress (stop E err n) = n_progress n"
  "n_stopped (stop E err n)"
  by (simp_all add: stop_def)

lemma persist_frame [simp]:
  "n_cfg (persist E n) = n_cfg n"
  "n_state (persist E n) = n_state n"
  "n_conf (persist E n) = n_conf n"
  "n_leader_id (persist E n) = n_leader_id n"
  "n_progress (persist E n) = n_progress n"
  by (simp_all add: persist_def split: prod.split option.split)

lemma reset_election_deadline_frame [simp]:
  "n_cfg (reset_election_deadline E n) = n_cfg n"
  "n_store (reset_election_deadline E n) = n_store n"
  "n_state (reset_election_deadline E n) = n_state n"
  "n_role (reset_election_deadline E n) = n_role n"
  "n_conf (reset_election_deadline E n) = n_conf n"
  "n_leader_id (reset_election_deadline E n) = n_leader_id n"
  "n_progress (reset_election_deadline E n) = n_progress n"
  "n_stopped (reset_election_deadline E n) = n_stopped n"
  by (simp_all add: reset_election_deadline_def)

lemma step_down_frame [simp]:
  "n_cfg (step_down E t n) = n_cfg n"
  "n_conf (step_down E t n) = n_conf n"
  "n_commit_index (step_down E t n) = n_commit_index n"
  "n_last_applied (step_down E t n) = n_last_applied n"
  "n_leader_id (step_down E t n) = n_leader_id n"
  "n_progress (step_down E t n) = n_progress n"
  by (simp_all add: step_down_def Let_def)

lemma step_down_term:
  "n_term (step_down E t n) = (if n_stopped n then n_term n else t)"
  "n_voted_for (step_down E t n) = (if n_stopped n \<or> t = n_term n then n_voted_for n else [])"
  by (simp_all add: step_down_def Let_def)


subsection \<open>Calls that hold no election\<close>

definition calm :: "('s, 'm) raft_node \<Rightarrow> ('s, 'm) raft_node \<Rightarrow> bool" where
  "calm n n' \<longleftrightarrow> n_cfg n' = n_cfg n \<and>
     (if n_term n' = n_term n
      then n_voted_for n' = n_voted_for n \<and>
           (n_role n' \<in> {follower, pre_candidate} \<or>
            n_role n' = n_role n \<and> n_votes_granted n' \<subseteq> n_votes_granted n)
      else n_term n < n_term n' \<and> n_voted_for n' = [] \<and> n_role n' \<in> {follower, pre_candidate})"

lemma calm_refl [simp, intro]: "calm n n"
  by (simp add: calm_def)

lemma calm_trans: "calm a b \<Longrightarrow> calm b c \<Longrightarrow> calm a c"
  by (auto simp: calm_def split: if_splits)

text \<open>Fields that \<open>calm\<close> does not look at.\<close>

lemma calm_frame [simp]:
  "calm m (n\<lparr>n_store := s\<rparr>) = calm m n"
  "calm m (n\<lparr>n_leader_id := l\<rparr>) = calm m n"
  "calm m (n\<lparr>n_conf := c\<rparr>) = calm m n"
  "calm m (n\<lparr>n_votes_rejected := v\<rparr>) = calm m n"
  "calm m (n\<lparr>n_progress := p\<rparr>) = calm m n"
  "calm m (n\<lparr>n_fsm := f\<rparr>) = calm m n"
  "calm m (n\<lparr>n_last_leader_contact := t\<rparr>) = calm m n"
  "calm m (n\<lparr>n_last_quorum_contact := t\<rparr>) = calm m n"
  "calm m (n\<lparr>n_pending_reads := r\<rparr>) = calm m n"
  "calm m (n\<lparr>n_pending_configuration_index := io\<rparr>) = calm m n"
  "calm m (n\<lparr>n_pending_leader_transfer := x\<rparr>) = calm m n"
  "calm m (n\<lparr>n_last_auto_snapshot := t\<rparr>) = calm m n"
  "calm m (set_commit_index i n) = calm m n"
  "calm m (self_replicated i n) = calm m n"
  "calm m (reset_election_deadline E n) = calm m n"
  "calm m (refresh_leader_quorum E n) = calm m n"
  by (simp_all add: calm_def set_commit_index_def self_replicated_def reset_election_deadline_def
      refresh_leader_quorum_def Let_def)

lemma calm_state [simp]:
  "current_term h = n_term n \<Longrightarrow> voted_for h = n_voted_for n \<Longrightarrow> calm m (n\<lparr>n_state := h\<rparr>) = calm m n"
  by (simp add: calm_def)

named_theorems calm_intros

lemma calm_stop [calm_intros]: "calm m n \<Longrightarrow> calm m (stop E err n)"
  by (auto simp: calm_def stop_def)

lemma calm_persist [calm_intros]: "calm m n \<Longrightarrow> calm m (persist E n)"
  by (auto simp: persist_def intro: calm_stop split: prod.split option.split)

lemma calm_step_down [calm_intros]:
  "calm m n \<Longrightarrow> n_term n \<le> t \<Longrightarrow> calm m (step_down E t n)"
  unfolding step_down_def Let_def
  by (auto intro!: calm_persist) (auto simp: calm_def split: if_splits)

lemma calm_apply_configuration [calm_intros]:
  "calm m n \<Longrightarrow> calm m (apply_configuration E entry n)"
  by (auto simp: apply_configuration_def Let_def intro!: calm_intros
      split: sum.split prod.split)

lemma calm_apply_one [calm_intros]: "calm m n \<Longrightarrow> calm m (snd (apply_one E entry n))"
  by (auto simp: apply_one_def Let_def intro!: calm_intros split: sum.split prod.split)

lemma calm_apply_all [calm_intros]: "calm m n \<Longrightarrow> calm m (snd (apply_all E entries n))"
proof (induction entries arbitrary: n)
  case (Cons entry entries)
  show ?case
    using calm_apply_one [OF Cons.prems, of E entry] Cons.IH
    by (auto split: prod.split bool.split)
qed simp

lemma calm_apply_batch [calm_intros]: "calm m n \<Longrightarrow> calm m (snd (apply_batch E n))"
  by (auto simp: apply_batch_def Let_def intro!: calm_intros split: option.split)

lemma calm_apply_loop [calm_intros]: "calm m n \<Longrightarrow> calm m (apply_loop fuel E n)"
proof (induction fuel arbitrary: n)
  case (Suc fuel)
  obtain b n' where step: "apply_batch E n = (b, n')" by fastforce
  with calm_apply_batch [OF Suc.prems, of E] have "calm m n'" by simp
  with Suc.IH Suc.prems step show ?case by (cases b) simp_all
qed simp

lemma calm_commit_to [calm_intros]: "calm m n \<Longrightarrow> calm m (commit_to E i n)"
  by (auto simp: commit_to_def apply_committed_def intro!: calm_intros)

lemma calm_advance_loop [calm_intros]: "calm m n \<Longrightarrow> calm m (advance_loop E i n)"
proof (induction E i n rule: advance_loop.induct)
  case (1 E i n)
  then show ?case
    by (subst advance_loop.simps) (auto intro!: calm_intros)
qed

lemma calm_advance_commit_index [calm_intros]: "calm m n \<Longrightarrow> calm m (advance_commit_index E n)"
  by (auto simp: advance_commit_index_def intro!: calm_intros)

lemma calm_acknowledge_read [calm_intros]: "calm m n \<Longrightarrow> calm m (acknowledge_read peer rid n)"
  by (auto simp: acknowledge_read_def Let_def split: option.split)

lemma calm_acknowledge_reads [calm_intros]:
  "calm m n \<Longrightarrow> calm m (fold (acknowledge_read peer) rids n)"
  by (induction rids arbitrary: n) (auto intro: calm_intros)

lemma calm_append_configuration [calm_intros]:
  "calm m n \<Longrightarrow> calm m (snd (append_configuration E next n))"
  by (auto simp: append_configuration_def Let_def intro!: calm_intros split: sum.split prod.split)


text \<open>The calls that hold no election.\<close>

lemma calm_begin_pre_vote: "calm n (snd (begin_pre_vote E n))"
  by (auto simp: begin_pre_vote_def calm_def)

lemma calm_append_accepted [calm_intros]: "calm m n \<Longrightarrow> calm m (snd (append_accepted E req n))"
  by (auto simp: append_accepted_def Let_def intro!: calm_intros split: sum.split prod.split)

lemma calm_handle_append_entries: "calm n (snd (handle_append_entries E req n))"
  by (auto simp: handle_append_entries_def Let_def not_less intro!: calm_intros)

lemma calm_handle_append_entries_response:
  "calm n (snd (handle_append_entries_response E peer resp n))"
  by (auto simp: handle_append_entries_response_def Let_def intro!: calm_intros)

lemma calm_install_accepted [calm_intros]:
  assumes "calm m n"
  shows "calm m (snd (install_accepted E req n))"
proof -
  define md where "md = (if is_uri req \<noteq> [] then (is_metadata req)\<lparr>sm_uri := is_uri req\<rparr>
    else is_metadata req)"
  obtain x c where l: "load_snapshot (env_machine E) \<lparr>sr_metadata = md, sr_uri = is_uri req\<rparr>
      (n_fsm n) = (x, c)" by fastforce
  obtain y s where r: "restore_snapshot (env_storage E) md (n_store n) = (y, s)" by fastforce
  show ?thesis
    using assms unfolding install_accepted_def md_def [symmetric] Let_def l
    by (cases x; cases y) (simp_all add: r calm_intros)
qed

lemma calm_handle_install_snapshot: "calm n (snd (handle_install_snapshot E req n))"
  by (auto simp: handle_install_snapshot_def Let_def not_less intro!: calm_intros)

lemma calm_handle_install_snapshot_response:
  "calm n (snd (handle_install_snapshot_response E peer resp n))"
  by (auto simp: handle_install_snapshot_response_def Let_def intro!: calm_intros split: option.split)

lemma calm_append_command: "calm n (snd (append_command E cmd n))"
  by (auto simp: append_command_def Let_def intro!: calm_intros split: sum.split prod.split)

lemmas configuration_change_defs = enter_joint_configuration_def leave_joint_configuration_def
  set_learners_def node_promote_learner_def remove_node_def

lemma calm_configuration_changes:
  "calm n (snd (enter_joint_configuration E vs n))"
  "calm n (snd (leave_joint_configuration E n))"
  "calm n (snd (set_learners E vs n))"
  "calm n (snd (node_promote_learner E nid n))"
  "calm n (snd (remove_node E nid n))"
  by (auto simp: configuration_change_defs intro!: calm_intros split: sum.split)

lemma calm_create_snapshot [calm_intros]: "calm n (snd (create_snapshot E uri n))"
  by (auto simp: create_snapshot_def Let_def intro!: calm_intros split: option.split prod.split)

lemma calm_maybe_create_snapshot: "calm n (snd (maybe_create_snapshot E policy n))"
  using calm_create_snapshot [of n E "snapshot_uri policy n"]
  by (auto simp: maybe_create_snapshot_def Let_def split: prod.split sum.split)

lemma calm_others:
  "calm n (mark_snapshot_sent E peer n)"
  "calm n (mark_append_sent peer i n)"
  "calm n (snd (transfer_leader E peer n))"
  "calm n (snd (take_pending_leader_transfer E peer n))"
  "calm n (snd (read_index E rr n))"
  "calm n (snd (consume_read_index rid n))"
  "calm n (snd (expire_read_indexes E timeout n))"
  "calm n (snd (check_leader_quorum E timeout n))"
  by (auto simp: mark_snapshot_sent_def mark_append_sent_def transfer_leader_def
      take_pending_leader_transfer_def read_index_def consume_read_index_def
      expire_read_indexes_def check_leader_quorum_def Let_def intro!: calm_intros
      split: option.split)

fun holds_election :: "node_event \<Rightarrow> bool" where
  "holds_election Begin_election = True"
| "holds_election (Request_vote _) = True"
| "holds_election (Vote_response _ _) = True"
| "holds_election (Timeout_now _) = True"
| "holds_election _ = False"

lemma calm_node_step: "\<not> holds_election ev \<Longrightarrow> calm n (node_step E ev n)"
  by (cases ev) (simp_all add: calm_begin_pre_vote calm_handle_append_entries
      calm_handle_append_entries_response calm_handle_install_snapshot
      calm_handle_install_snapshot_response calm_append_command calm_configuration_changes
      calm_create_snapshot calm_maybe_create_snapshot calm_others calm_stop)



subsection \<open>Elections\<close>

lemma become_leader_stopped [simp]: "n_stopped n \<Longrightarrow> become_leader E n = n"
  by (simp add: become_leader_def)

text \<open>A node that takes office, before anything else happens.\<close>

definition in_office :: "('s, 'm) raft_node \<Rightarrow> ('s, 'm) raft_node" where
  "in_office n = n\<lparr>n_role := leader, n_votes_granted := {}\<rparr>"

lemma calm_become_leader:
  assumes "\<not> n_stopped n"
  shows "calm (in_office n) (become_leader E n)"
proof -
  have "calm (in_office n) (n\<lparr>n_role := leader, n_votes_granted := {}\<rparr>)"
    by (simp add: in_office_def)
  then show ?thesis
    using assms by (auto simp: become_leader_def Let_def intro!: calm_intros
      split: sum.split prod.split) (auto simp: calm_def in_office_def)
qed

lemma calm_in_office:
  "n_cfg m = n_cfg n \<Longrightarrow> n_term m = n_term n \<Longrightarrow> n_voted_for m = n_voted_for n \<Longrightarrow>
     calm (in_office m) = calm (in_office n)"
  by (simp add: calm_def in_office_def fun_eq_iff)

text \<open>The state in which \<open>begin_election\<close> calls \<open>persist\<close>.\<close>

definition standing :: "('s, 'm) raft_node \<Rightarrow> ('s, 'm) raft_node" where
  "standing n = n\<lparr>n_role := candidate, n_leader_id := [],
     n_state := (n_state n)\<lparr>current_term := n_term n + 1, voted_for := n_id n\<rparr>,
     n_votes_granted := {n_id n}, n_votes_rejected := {}\<rparr>"

lemma persist_running: "\<not> n_stopped (persist E n) \<Longrightarrow>
    n_role (persist E n) = n_role n \<and> n_votes_granted (persist E n) = n_votes_granted n"
  by (auto simp: persist_def split: prod.splits option.splits if_splits)

lemma begin_election_cases:
  fixes n :: "('s, 'm) raft_node"
  obtains (none) "snd (begin_election E n) = n"
  | (stands) "\<not> n_stopped n" "contains (n_conf n) (n_id n)"
      "calm (standing n) (snd (begin_election E n))"
  | (wins) "\<not> n_stopped n" "contains (n_conf n) (n_id n)" "has_quorum (n_conf n) {n_id n}"
      "calm (in_office (standing n)) (snd (begin_election E n))"
proof (cases "n_stopped n \<or> \<not> contains (n_conf n) (n_id n)")
  case True
  then show ?thesis using none by (auto simp: begin_election_def)
next
  case False
  let ?p = "persist E (standing n)"
  have eq: "snd (begin_election E n) =
      (if has_quorum (n_conf ?p) (n_votes_granted ?p) then become_leader E ?p else ?p)"
    using False by (simp add: begin_election_def standing_def Let_def)
  have conf: "n_conf ?p = n_conf n"
    by (simp add: standing_def)
  show ?thesis
  proof (cases "has_quorum (n_conf n) {n_id n} \<and> \<not> n_stopped ?p")
    case True
    then have r: "n_role ?p = candidate" and v: "n_votes_granted ?p = {n_id n}"
      using persist_running [of E "standing n"] by (simp_all add: standing_def)
    have "calm (in_office ?p) (become_leader E ?p)"
      using True by (simp add: calm_become_leader)
    then have "calm (in_office (standing n)) (become_leader E ?p)"
      by (simp add: calm_in_office [of "standing n" ?p])
    with True v conf eq show ?thesis using wins False by simp
  next
    case no: False
    have "calm (standing n) ?p" by (rule calm_persist) simp
    moreover have "snd (begin_election E n) = ?p"
    proof (cases "n_stopped ?p")
      case False
      with no have "\<not> has_quorum (n_conf ?p) (n_votes_granted ?p)"
        using persist_running [of E "standing n"] conf by (simp add: standing_def)
      with eq show ?thesis by simp
    qed (simp add: eq)
    ultimately show ?thesis using stands False by simp
  qed
qed

definition ballots :: "node_id \<Rightarrow> request_vote_response \<Rightarrow> ('s, 'm) raft_node \<Rightarrow> node_id set" where
  "ballots voter resp n =
     (if rvr_vote_granted resp then insert voter (n_votes_granted n) else n_votes_granted n)"

lemma handle_vote_response_cases:
  fixes n :: "('s, 'm) raft_node"
  obtains (none) "calm n (snd (handle_vote_response E voter resp n))"
  | (counts) "n_role n = candidate" "rvr_term resp = n_term n" "\<not> rvr_pre_vote resp"
      "calm (n\<lparr>n_votes_granted := ballots voter resp n\<rparr>) (snd (handle_vote_response E voter resp n))"
  | (wins) "n_role n = candidate" "rvr_term resp = n_term n" "\<not> rvr_pre_vote resp"
      "has_quorum (n_conf n) (ballots voter resp n)"
      "calm (in_office n) (snd (handle_vote_response E voter resp n))"
proof (cases "n_stopped n \<or> rvr_term resp > n_term n \<or> rvr_pre_vote resp \<or>
      n_role n \<noteq> candidate \<or> rvr_term resp \<noteq> n_term n")
  case True
  then have "calm n (snd (handle_vote_response E voter resp n))"
    by (auto simp: handle_vote_response_def Let_def intro!: calm_intros) (auto simp: calm_def)
  then show ?thesis by (rule none)
next
  case False
  define n1 where "n1 = (if rvr_vote_granted resp
     then n\<lparr>n_votes_granted := insert voter (n_votes_granted n)\<rparr>
     else n\<lparr>n_votes_rejected := insert voter (n_votes_rejected n)\<rparr>)"
  have n1: "n_conf n1 = n_conf n" "n_votes_granted n1 = ballots voter resp n" "\<not> n_stopped n1"
    using False by (simp_all add: n1_def ballots_def)
  have eq: "snd (handle_vote_response E voter resp n) =
      (if has_quorum (n_conf n) (ballots voter resp n) then become_leader E n1 else n1)"
    using False n1 by (simp add: handle_vote_response_def n1_def Let_def)
  show ?thesis
  proof (cases "has_quorum (n_conf n) (ballots voter resp n)")
    case True
    have "calm (in_office n1) (become_leader E n1)"
      using n1 by (simp add: calm_become_leader)
    then have "calm (in_office n) (become_leader E n1)"
      by (simp add: calm_in_office [of n n1] n1_def)
    then show ?thesis using wins False True eq by simp
  next
    case no: False
    have "calm (n\<lparr>n_votes_granted := ballots voter resp n\<rparr>) n1"
      by (simp add: calm_def n1_def ballots_def)
    with no eq show ?thesis using counts False by simp
  qed
qed


lemma handle_request_vote_cases:
  fixes n :: "('s, 'm) raft_node"
  obtains (none) "calm n (snd (handle_request_vote E req n))"
      "rvr_vote_granted (fst (handle_request_vote E req n)) \<longrightarrow>
         rvr_pre_vote (fst (handle_request_vote E req n))"
  | (grants) n1 where "calm n n1" "n_voted_for n1 = [] \<or> n_voted_for n1 = rv_candidate_id req"
      "\<not> rv_pre_vote req" "n_conf n1 = n_conf n" "contains (n_conf n) (rv_candidate_id req)"
      "n_term n1 = rv_term req"
      "calm (n1\<lparr>n_state := (n_state n1)\<lparr>voted_for := rv_candidate_id req\<rparr>\<rparr>)
        (snd (handle_request_vote E req n))"
      "n_state (snd (handle_request_vote E req n)) =
        (n_state n1)\<lparr>voted_for := rv_candidate_id req\<rparr>"
      "rvr_term (fst (handle_request_vote E req n)) = rv_term req"
proof (cases "n_stopped n \<or> \<not> contains (n_conf n) (n_id n) \<or>
      \<not> contains (n_conf n) (rv_candidate_id req) \<or> rv_pre_vote req \<or> rv_term req < n_term n")
  case True
  then have "snd (handle_request_vote E req n) = n \<and>
      (rvr_vote_granted (fst (handle_request_vote E req n)) \<longrightarrow>
        rvr_pre_vote (fst (handle_request_vote E req n)))"
    unfolding handle_request_vote_def Let_def by (cases "rv_pre_vote req") auto
  then show ?thesis using none by simp
next
  case False
  define n1 where "n1 = (if rv_term req > n_term n then step_down E (rv_term req) n else n)"
  have n1: "calm n n1" "n_conf n1 = n_conf n" "n_term n1 = rv_term req"
    using False by (auto simp: n1_def step_down_term intro!: calm_intros)
  define grant where "grant \<longleftrightarrow> (n_voted_for n1 = [] \<or> n_voted_for n1 = rv_candidate_id req) \<and>
     is_log_at_least_up_to_date (env_storage E) (n_store n1) (rv_last_log_index req)
       (rv_last_log_term req)"
  define n2 where "n2 = persist E (reset_election_deadline E
     (n1\<lparr>n_state := (n_state n1)\<lparr>voted_for := rv_candidate_id req\<rparr>, n_leader_id := []\<rparr>))"
  have eq: "handle_request_vote E req n = (let n2 = (if grant then n2 else n1) in
      (\<lparr>rvr_term = n_term n2, rvr_vote_granted = grant, rvr_pre_vote = False\<rparr>, n2))"
    using False unfolding grant_def n2_def n1_def handle_request_vote_def Let_def by simp
  show ?thesis
  proof (cases grant)
    case True
    moreover have "calm (n1\<lparr>n_state := (n_state n1)\<lparr>voted_for := rv_candidate_id req\<rparr>\<rparr>) n2"
      unfolding n2_def by (intro calm_persist) simp
    ultimately show ?thesis
      using False n1 eq by (intro grants [of n1]) (simp_all add: grant_def n2_def)
  next
    case False
    then show ?thesis using n1 eq by (intro none) simp_all
  qed
qed

lemma handle_timeout_now_cases:
  fixes n :: "('s, 'm) raft_node"
  obtains (none) "calm n (snd (handle_timeout_now E req n))"
  | (elects) n1 where "calm n n1" "n_conf n1 = n_conf n" "n_term n1 = max (n_term n) (tn_term req)"
      "snd (handle_timeout_now E req n) = snd (begin_election E n1)"
proof (cases "n_stopped n \<or> \<not> contains (n_conf n) (n_id n) \<or>
      \<not> contains (n_conf n) (tn_leader_id req) \<or> tn_term req < n_term n")
  case True
  then show ?thesis by (intro none) (auto simp: handle_timeout_now_def)
next
  case False
  define n1 where "n1 = (if tn_term req > n_term n then step_down E (tn_term req) n else n)"
  have n1: "calm n n1" "n_conf n1 = n_conf n" "n_term n1 = max (n_term n) (tn_term req)"
    using False by (auto simp: n1_def step_down_term max_def intro!: calm_intros)
  have eq: "handle_timeout_now E req n =
      (if n_leader_id n1 \<noteq> [] \<and> n_leader_id n1 \<noteq> tn_leader_id req then (None, n1)
       else (case begin_election E n1 of (r, n2) \<Rightarrow> (Some r, n2)))"
    using False unfolding n1_def handle_timeout_now_def Let_def by simp
  show ?thesis
  proof (cases "n_leader_id n1 \<noteq> [] \<and> n_leader_id n1 \<noteq> tn_leader_id req")
    case True
    with n1 eq show ?thesis by (intro none) simp
  next
    case False
    with n1 eq show ?thesis by (intro elects [of n1]) (auto split: prod.split)
  qed
qed


subsection \<open>One vote in a term\<close>

text \<open>
  The counter of terms is 64 bits wide and \<open>begin_election\<close> increments it: a call that would wrap it
  around is set apart.
\<close>

fun term_headroom :: "node_event \<Rightarrow> ('s, 'm) raft_node \<Rightarrow> bool" where
  "term_headroom Begin_election n = (n_term n + 1 \<noteq> 0)"
| "term_headroom (Timeout_now req) n = (max (n_term n) (tn_term req) + 1 \<noteq> 0)"
| "term_headroom _ n = True"

definition vote_kept :: "('s, 'm) raft_node \<Rightarrow> ('s, 'm) raft_node \<Rightarrow> bool" where
  "vote_kept n n' \<longleftrightarrow> n_cfg n' = n_cfg n \<and> n_term n \<le> n_term n' \<and>
     (n_term n' = n_term n \<and> n_voted_for n \<noteq> [] \<longrightarrow> n_voted_for n' = n_voted_for n)"

lemma vote_kept_refl [simp]: "vote_kept n n"
  by (simp add: vote_kept_def)

lemma vote_kept_trans: "vote_kept a b \<Longrightarrow> vote_kept b c \<Longrightarrow> vote_kept a c"
  by (auto simp: vote_kept_def)

lemma calm_vote_kept: "calm n n' \<Longrightarrow> vote_kept n n'"
  by (auto simp: calm_def vote_kept_def split: if_splits)

lemma calm_in_office_vote_kept: "calm (in_office n) n' \<Longrightarrow> vote_kept n n'"
  using calm_vote_kept [of "in_office n" n'] by (simp add: vote_kept_def in_office_def)

lemma standing_vote_kept: "n_term n + 1 \<noteq> 0 \<Longrightarrow> vote_kept n (standing n)"
  using word_less_inc [of "n_term n"] by (auto simp: vote_kept_def standing_def)

lemma begin_election_vote_kept:
  assumes "n_term n + 1 \<noteq> 0"
  shows "vote_kept n (snd (begin_election E n))"
proof (cases rule: begin_election_cases [where E = E and n = n])
  case stands
  then show ?thesis
    using vote_kept_trans [OF standing_vote_kept [OF assms]] calm_vote_kept by blast
next
  case wins
  then show ?thesis
    using vote_kept_trans [OF standing_vote_kept [OF assms]] calm_in_office_vote_kept by blast
qed simp

lemma node_step_vote_kept:
  assumes "term_headroom ev n"
  shows "vote_kept n (node_step E ev n)"
proof (cases "holds_election ev")
  case True
  then consider "ev = Begin_election" | req where "ev = Request_vote req"
    | voter resp where "ev = Vote_response voter resp" | req where "ev = Timeout_now req"
    by (cases ev) auto
  then show ?thesis
  proof cases
    case 1
    with assms show ?thesis by (simp add: begin_election_vote_kept)
  next
    case 2
    show ?thesis
    proof (cases rule: handle_request_vote_cases [where E = E and req = req and n = n])
      case (grants n1)
      have "vote_kept n1 (snd (handle_request_vote E req n))"
        using grants(2,7) by (auto simp: vote_kept_def calm_def split: if_splits)
      with grants(1) 2 show ?thesis using vote_kept_trans [OF calm_vote_kept [OF grants(1)]] by simp
    qed (simp add: 2 calm_vote_kept)
  next
    case 3
    show ?thesis
    proof (cases rule: handle_vote_response_cases [where E = E and voter = voter and resp = resp and n = n])
      case counts
      then show ?thesis
        using calm_vote_kept [OF counts(4)] 3 by (simp add: vote_kept_def)
    qed (simp_all add: 3 calm_vote_kept calm_in_office_vote_kept)
  next
    case 4
    show ?thesis
    proof (cases rule: handle_timeout_now_cases [where E = E and req = req and n = n])
      case (elects n1)
      then have "vote_kept n1 (node_step E ev n)"
        using 4 assms begin_election_vote_kept [of n1 E] by simp
      then show ?thesis by (rule vote_kept_trans [OF calm_vote_kept [OF elects(1)]])
    qed (simp add: 4 calm_vote_kept)
  qed
qed (simp add: calm_node_step calm_vote_kept)


text \<open>
  A sequence of calls, each with the environment it sees, and the condition that none of them is an
  election that wraps the term around.
\<close>

fun node_calls :: "(('s, 'm) raft_env \<times> node_event) list \<Rightarrow> ('s, 'm) raft_node \<Rightarrow> ('s, 'm) raft_node" where
  "node_calls [] n = n"
| "node_calls ((E, ev) # calls) n = node_calls calls (node_step E ev n)"

fun no_term_wrap :: "(('s, 'm) raft_env \<times> node_event) list \<Rightarrow> ('s, 'm) raft_node \<Rightarrow> bool" where
  "no_term_wrap [] n = True"
| "no_term_wrap ((E, ev) # calls) n = (term_headroom ev n \<and> no_term_wrap calls (node_step E ev n))"

lemma node_calls_vote_kept: "no_term_wrap calls n \<Longrightarrow> vote_kept n (node_calls calls n)"
  by (induction calls n rule: node_calls.induct) (auto intro: vote_kept_trans node_step_vote_kept)

text \<open>An election at the greatest term asks for votes in term 0.\<close>

lemma begin_election_wraps:
  assumes "\<not> n_stopped n" and "contains (n_conf n) (n_id n)" and "n_term n + 1 = 0"
  shows "rv_term (fst (begin_election E n)) = 0"
    and "\<not> has_quorum (n_conf n) {n_id n} \<Longrightarrow> n_term (snd (begin_election E n)) = 0"
  using assms persist_running [of E "standing n"]
  by (auto simp: begin_election_def standing_def Let_def become_leader_def)


subsection \<open>A three-node example\<close>

definition example_cfg :: raft_config where
  "example_cfg = \<lparr>rc_id = ''a'', rc_peers = [''b'', ''c''],
     rc_options = \<lparr>election_timeout = 150, heartbeat_interval = 50, leader_lease_timeout = 100,
       read_index_timeout = 1000, pre_vote = True, check_quorum = True, lease_read = False,
       max_entries_per_append = 8, max_inflight_append = 8, snapshot_chunk_size = 64\<rparr>\<rparr>"

definition mem_env :: "'m state_machine \<Rightarrow> time \<Rightarrow> (memory_store, 'm) raft_env" where
  "mem_env M t = \<lparr>env_storage = memory_store_ops, env_machine = M, env_now = t\<rparr>"

text \<open>A state machine that keeps the commands it was given.\<close>

definition recording_machine :: "string list state_machine" where
  "recording_machine = base_state_machine (\<lambda>e cmds. (None, cmds @ [le_command e]))"

definition example_env :: "(memory_store, string list) raft_env" where
  "example_env = mem_env recording_machine 1000"

definition example_node :: "(memory_store, string list) raft_node" where
  "example_node =
     (case mk_raft_node example_env example_cfg (Some empty_memory_store) (Some []) of
        Inr n \<Rightarrow> n)"

definition example_vote :: "node_id \<Rightarrow> node_event" where
  "example_vote candidate_id =
     Request_vote (default_request_vote_request\<lparr>rv_term := 1, rv_candidate_id := candidate_id\<rparr>)"


subsection \<open>Properties\<close>

text \<open>
  C2: Along every sequence of calls of a node (all requests and responses a peer may send, elections,
  client commands, configuration changes, snapshots and reads, in any order and with any contents) in which
  no election is started at the greatest 64-bit term, the term never decreases, and once the node has voted
  in a term its vote of that term does not change.
\<close>

theorem vote_cast_once:
  assumes "no_term_wrap calls n" and "n' = node_calls calls n"
  shows "n_term n \<le> n_term n' \<and>
    (n_term n' = n_term n \<and> n_voted_for n \<noteq> [] \<longrightarrow> n_voted_for n' = n_voted_for n)"
  using node_calls_vote_kept [OF assms(1)] assms(2) by (simp add: vote_kept_def)

theorem vote_cast_once_witness:
  "\<exists>n n'. n = node_step example_env (example_vote ''b'') example_node \<and>
     n' = node_calls [(example_env, example_vote ''c'')] n \<and>
     n_term n' = n_term n \<and> n_voted_for n = ''b'' \<and> n_voted_for n' = ''b''"
proof -
  define n where "n = node_step example_env (example_vote ''b'') example_node"
  define n' where "n' = node_calls [(example_env, example_vote ''c'')] n"
  have run: "no_term_wrap [(example_env, example_vote ''c'')] n"
    by (simp add: example_vote_def)
  have "n_voted_for n = ''b''" and "n_term n' = n_term n"
    unfolding n'_def n_def by code_simp+
  with vote_cast_once [OF run n'_def] show ?thesis
    using n_def n'_def by auto
qed

text \<open>
  C37: The condition on the term cannot be dropped: any response to a vote request that carries the greatest
  64-bit term, whoever sends it, raises the term of a running voter to it, and the election the node
  starts next wraps around. It asks for votes in term 0, and a node that does not win by its own vote
  alone is back in term 0.
\<close>

theorem greatest_term_wraps:
  assumes "\<not> n_stopped n" and "contains (n_conf n) (n_id n)"
    and "rvr_term resp = - 1" and "n_term n < rvr_term resp"
    and "n1 = snd (handle_vote_response E voter resp n)" and "\<not> n_stopped n1"
  shows "n_term n < n_term n1 \<and> rv_term (fst (begin_election E' n1)) = 0 \<and>
    (\<not> has_quorum (n_conf n) {n_id n} \<longrightarrow> n_term (snd (begin_election E' n1)) = 0)"
proof -
  have n1: "n1 = step_down E (rvr_term resp) n"
    using assms(1,4,5) by (simp add: handle_vote_response_def)
  then have "n_term n1 = - 1" "n_conf n1 = n_conf n" "n_id n1 = n_id n"
    using assms(1,3) by (simp_all add: step_down_term)
  then show ?thesis
    using assms(2-4,6) begin_election_wraps [of n1 E'] by simp
qed

theorem greatest_term_wraps_witness:
  "\<exists>n1. n1 = snd (handle_vote_response example_env ''x''
       \<lparr>rvr_term = - 1, rvr_vote_granted = False, rvr_pre_vote = False\<rparr> example_node) \<and>
     n_term n1 = - 1 \<and> n_term (snd (begin_election example_env n1)) = 0"
proof -
  define resp where "resp = \<lparr>rvr_term = (- 1 :: term_t), rvr_vote_granted = False, rvr_pre_vote = False\<rparr>"
  define n1 where "n1 = snd (handle_vote_response example_env ''x'' resp example_node)"
  have "\<not> n_stopped example_node" "contains (n_conf example_node) (n_id example_node)"
    "rvr_term resp = - 1" "n_term example_node < rvr_term resp" "\<not> n_stopped n1" "n_term n1 = - 1"
    "\<not> has_quorum (n_conf example_node) {n_id example_node}"
    unfolding n1_def resp_def by code_simp+
  with greatest_term_wraps [OF _ _ _ _ n1_def] show ?thesis
    unfolding n1_def resp_def by blast
qed

end
