(* ===== verification/Raft_Node_Durable.thy ===== *)
theory Raft_Node_Durable
  imports Raft_Node_Votes
begin

text \<open>
  What a node's term and vote owe to its store. \<open>hard_state_store\<close> is the part of the storage contract
  that concerns the hard state: saving it without an exception makes it what is loaded next, and no
  other write changes the term and the vote. Under this contract the term and the vote of a running
  node are in its store at the end of every call.
\<close>

locale hard_state_store =
  fixes S :: "'s raft_storage"
  assumes save_load: "save_hard_state S h s = (None, s') \<Longrightarrow> load_hard_state S s' = h"
    and snap_keeps: "current_term (load_hard_state S (snd (save_snapshot_metadata S m s))) =
          current_term (load_hard_state S s)"
      "voted_for (load_hard_state S (snd (save_snapshot_metadata S m s))) =
          voted_for (load_hard_state S s)"
    and append_keeps: "current_term (load_hard_state S (snd (store_append S es s))) =
          current_term (load_hard_state S s)"
      "voted_for (load_hard_state S (snd (store_append S es s))) = voted_for (load_hard_state S s)"
    and append_one_keeps: "current_term (load_hard_state S (snd (store_append_one S e s))) =
          current_term (load_hard_state S s)"
      "voted_for (load_hard_state S (snd (store_append_one S e s))) = voted_for (load_hard_state S s)"
    and prefix_keeps: "current_term (load_hard_state S (snd (truncate_prefix S i s))) =
          current_term (load_hard_state S s)"
      "voted_for (load_hard_state S (snd (truncate_prefix S i s))) = voted_for (load_hard_state S s)"
    and suffix_keeps: "current_term (load_hard_state S (snd (truncate_suffix S i s))) =
          current_term (load_hard_state S s)"
      "voted_for (load_hard_state S (snd (truncate_suffix S i s))) = voted_for (load_hard_state S s)"
    and reset_keeps: "current_term (load_hard_state S (snd (reset_to_snapshot S m s))) =
          current_term (load_hard_state S s)"
      "voted_for (load_hard_state S (snd (reset_to_snapshot S m s))) = voted_for (load_hard_state S s)"

definition same_vote :: "'s raft_storage \<Rightarrow> 's \<Rightarrow> 's \<Rightarrow> bool" where
  "same_vote S s s' \<longleftrightarrow>
     current_term (load_hard_state S s') = current_term (load_hard_state S s) \<and>
     voted_for (load_hard_state S s') = voted_for (load_hard_state S s)"

definition durable :: "('s, 'm) raft_env \<Rightarrow> ('s, 'm) raft_node \<Rightarrow> bool" where
  "durable E n \<longleftrightarrow> n_stopped n \<or>
     current_term (load_hard_state (env_storage E) (n_store n)) = n_term n \<and>
     voted_for (load_hard_state (env_storage E) (n_store n)) = n_voted_for n"

lemma durable_frame [simp]:
  "durable E (n\<lparr>n_role := r\<rparr>) = durable E n"
  "durable E (n\<lparr>n_leader_id := l\<rparr>) = durable E n"
  "durable E (n\<lparr>n_conf := c\<rparr>) = durable E n"
  "durable E (n\<lparr>n_votes_granted := v\<rparr>) = durable E n"
  "durable E (n\<lparr>n_votes_rejected := v\<rparr>) = durable E n"
  "durable E (n\<lparr>n_progress := p\<rparr>) = durable E n"
  "durable E (n\<lparr>n_fsm := f\<rparr>) = durable E n"
  "durable E (n\<lparr>n_last_leader_contact := t\<rparr>) = durable E n"
  "durable E (n\<lparr>n_last_quorum_contact := t\<rparr>) = durable E n"
  "durable E (n\<lparr>n_pending_reads := rs\<rparr>) = durable E n"
  "durable E (n\<lparr>n_pending_configuration_index := io\<rparr>) = durable E n"
  "durable E (n\<lparr>n_pending_leader_transfer := x\<rparr>) = durable E n"
  "durable E (n\<lparr>n_last_auto_snapshot := t\<rparr>) = durable E n"
  "durable E (set_commit_index i n) = durable E n"
  "durable E (self_replicated i n) = durable E n"
  "durable E (reset_election_deadline E' n) = durable E n"
  "durable E (refresh_leader_quorum E' n) = durable E n"
  by (simp_all add: durable_def set_commit_index_def self_replicated_def
      reset_election_deadline_def refresh_leader_quorum_def Let_def)

lemma durable_state [simp]:
  "current_term h = n_term n \<Longrightarrow> voted_for h = n_voted_for n \<Longrightarrow>
     durable E (n\<lparr>n_state := h\<rparr>) = durable E n"
  by (simp add: durable_def)

lemma durable_store [simp]:
  "same_vote (env_storage E) (n_store n) s \<Longrightarrow> durable E (n\<lparr>n_store := s\<rparr>) = durable E n"
  by (simp add: durable_def same_vote_def)

lemma durable_stop [simp]: "durable E (stop E' err n)"
  by (simp add: durable_def)

locale node_votes = hard_state_store "env_storage E" for E :: "('s, 'm) raft_env"
begin

lemma keeps_same_vote:
  "same_vote (env_storage E) s (snd (save_snapshot_metadata (env_storage E) m s))"
  "same_vote (env_storage E) s (snd (store_append (env_storage E) es s))"
  "same_vote (env_storage E) s (snd (store_append_one (env_storage E) e s))"
  "same_vote (env_storage E) s (snd (truncate_prefix (env_storage E) i s))"
  "same_vote (env_storage E) s (snd (truncate_suffix (env_storage E) i s))"
  "same_vote (env_storage E) s (snd (reset_to_snapshot (env_storage E) m s))"
  by (simp_all add: same_vote_def snap_keeps append_keeps append_one_keeps prefix_keeps
      suffix_keeps reset_keeps)

lemma same_vote_refl [simp]: "same_vote S s s"
  by (simp add: same_vote_def)

lemma same_vote_trans: "same_vote S a b \<Longrightarrow> same_vote S b c \<Longrightarrow> same_vote S a c"
  by (simp add: same_vote_def)

lemma log_append_one_vote: "same_vote (env_storage E) s (snd (log_append_one (env_storage E) e s))"
  using keeps_same_vote(3) [of s e]
  by (auto simp: log_append_one_def split: prod.split option.split)

lemma leader_append_vote:
  "same_vote (env_storage E) s (snd (append_as_leader (env_storage E) t cmd s))"
  "same_vote (env_storage E) s (snd (append_noop (env_storage E) t s))"
  "same_vote (env_storage E) s (snd (log_append_configuration (env_storage E) t c s))"
  by (simp_all add: append_as_leader_def append_noop_def log_append_configuration_def
      log_append_one_vote)

lemma append_from_leader_vote:
  "same_vote (env_storage E) s (snd (append_from_leader (env_storage E) i t es s))"
proof -
  let ?S = "env_storage E"
  have cut: "same_vote ?S s (snd (if b then truncate_suffix ?S j s else (None, s)))" for b j
    by (simp add: keeps_same_vote)
  have "same_vote ?S s (snd (case (if b then truncate_suffix ?S j s else (None, s)) of
      (Some e, s1) \<Rightarrow> (Inl e, s1)
    | (None, s1) \<Rightarrow> if ta = [] then (Inr x, s1)
        else (case store_append ?S ta s1 of (Some e, s2) \<Rightarrow> (Inl e, s2) | (None, s2) \<Rightarrow> (Inr y, s2))))"
    for b j ta and x y :: append_result
  proof -
    obtain o1 s1 where 1: "(if b then truncate_suffix ?S j s else (None, s)) = (o1, s1)" by fastforce
    obtain o2 s2 where 2: "store_append ?S ta s1 = (o2, s2)" by fastforce
    have "same_vote ?S s s1" "same_vote ?S s1 s2"
      using cut [of b j] keeps_same_vote(2) [of s1 ta] by (simp_all add: 1 2)
    then show ?thesis
      unfolding 1 using 2 same_vote_trans by (auto split: option.split)
  qed
  then show ?thesis
    unfolding append_from_leader_def Let_def by (auto split: prod.split option.split)
qed

lemma restore_snapshot_vote:
  "same_vote (env_storage E) s (snd (restore_snapshot (env_storage E) m s))"
  using keeps_same_vote(6) [of s m]
  by (auto simp: restore_snapshot_def split: prod.split option.split)

text \<open>The same facts, for a write whose outcome is named.\<close>

lemma writes_vote:
  "append_as_leader (env_storage E) t cmd s = (r, s') \<Longrightarrow> same_vote (env_storage E) s s'"
  "append_noop (env_storage E) t s = (r, s') \<Longrightarrow> same_vote (env_storage E) s s'"
  "log_append_configuration (env_storage E) t c s = (r, s') \<Longrightarrow> same_vote (env_storage E) s s'"
  "append_from_leader (env_storage E) i t es s = (ar, s') \<Longrightarrow> same_vote (env_storage E) s s'"
  "restore_snapshot (env_storage E) m s = (ar, s') \<Longrightarrow> same_vote (env_storage E) s s'"
  "save_snapshot_metadata (env_storage E) m s = (x, s') \<Longrightarrow> same_vote (env_storage E) s s'"
  "compact_prefix (env_storage E) i s = (x, s') \<Longrightarrow> same_vote (env_storage E) s s'"
  using leader_append_vote(1) [of s t cmd] leader_append_vote(2) [of s t]
    leader_append_vote(3) [of s t c] append_from_leader_vote [of s i t es]
    restore_snapshot_vote [of s m] keeps_same_vote(1) [of s m] keeps_same_vote(4) [of s i]
  by (simp_all add: compact_prefix_def)

lemma durable_persist [simp]: "durable E (persist E n)"
proof (cases "n_stopped n")
  case True
  then show ?thesis by (simp add: durable_def persist_def)
next
  case False
  then show ?thesis
    using save_load by (auto simp: persist_def durable_def split: prod.split option.split)
qed

lemma durable_step_down [simp]: "durable E (step_down E t n)"
  by (cases "n_stopped n") (simp_all add: step_down_def Let_def, simp add: durable_def)

lemma durable_apply_one [intro]: "durable E n \<Longrightarrow> durable E (snd (apply_one E entry n))"
  by (auto simp: apply_one_def Let_def split: sum.split prod.split)

lemma durable_apply_all [intro]: "durable E n \<Longrightarrow> durable E (snd (apply_all E entries n))"
proof (induction entries arbitrary: n)
  case (Cons entry entries)
  show ?case
    using durable_apply_one [OF Cons.prems, of entry] Cons.IH
    by (auto split: prod.split bool.split)
qed simp

lemma durable_apply_batch [intro]: "durable E n \<Longrightarrow> durable E (snd (apply_batch E n))"
  by (auto simp: apply_batch_def Let_def split: option.split)

lemma durable_apply_loop [intro]: "durable E n \<Longrightarrow> durable E (apply_loop fuel E n)"
proof (induction fuel arbitrary: n)
  case (Suc fuel)
  obtain b n' where step: "apply_batch E n = (b, n')" by fastforce
  with durable_apply_batch [OF Suc.prems] have "durable E n'" by simp
  with Suc.IH Suc.prems step show ?case by (cases b) simp_all
qed simp

lemma durable_commit_to [simp]: "durable E (commit_to E i n)"
  by (auto simp: commit_to_def apply_committed_def)

lemma durable_advance [intro]: "durable E n \<Longrightarrow> durable E (advance_commit_index E n)"
proof -
  have "durable E' n \<Longrightarrow> E' = E \<Longrightarrow> durable E (advance_loop E' i n)" for E' i
    by (induction E' i n rule: advance_loop.induct) (subst advance_loop.simps, simp)
  then show "durable E n \<Longrightarrow> durable E (advance_commit_index E n)"
    by (auto simp: advance_commit_index_def)
qed

lemma durable_become_leader [intro]: "durable E n \<Longrightarrow> durable E (become_leader E n)"
  by (auto simp: become_leader_def Let_def writes_vote split: sum.split prod.split)

lemma durable_acknowledge_reads [intro]:
  "durable E n \<Longrightarrow> durable E (fold (acknowledge_read peer) rids n)"
  by (induction rids arbitrary: n)
    (auto simp: acknowledge_read_def Let_def split: option.split)

lemma durable_append_configuration [intro]:
  "durable E n \<Longrightarrow> durable E (snd (append_configuration E next n))"
  by (auto simp: append_configuration_def Let_def writes_vote split: sum.split prod.split)

lemma durable_begin_election [intro]: "durable E n \<Longrightarrow> durable E (snd (begin_election E n))"
  by (auto simp: begin_election_def Let_def)

lemma durable_elections:
  assumes "durable E n"
  shows "durable E (snd (begin_pre_vote E n))"
    and "durable E (snd (handle_request_vote E req n))"
    and "durable E (snd (handle_vote_response E voter resp n))"
    and "durable E (snd (handle_timeout_now E tn n))"
proof -
  show "durable E (snd (begin_pre_vote E n))"
    using assms by (simp add: begin_pre_vote_def)
  show "durable E (snd (handle_request_vote E req n))"
    using assms by (simp add: handle_request_vote_def Let_def)
  show "durable E (snd (handle_vote_response E voter resp n))"
    using assms by (auto simp: handle_vote_response_def Let_def)
  have "durable E (snd (begin_election E (step_down E (tn_term tn) n)))"
    by (rule durable_begin_election) simp
  then show "durable E (snd (handle_timeout_now E tn n))"
    using assms durable_begin_election [OF assms]
    by (auto simp: handle_timeout_now_def Let_def split: prod.split)
qed

lemma durable_append_accepted [intro]:
  "durable E n \<Longrightarrow> durable E (snd (append_accepted E req n))"
  by (auto simp: append_accepted_def Let_def writes_vote split: sum.split prod.split)

lemma durable_install_accepted [intro]:
  assumes "durable E n"
  shows "durable E (snd (install_accepted E req n))"
proof -
  define md where "md = (if is_uri req \<noteq> [] then (is_metadata req)\<lparr>sm_uri := is_uri req\<rparr>
    else is_metadata req)"
  obtain x c where l: "load_snapshot (env_machine E) \<lparr>sr_metadata = md, sr_uri = is_uri req\<rparr>
      (n_fsm n) = (x, c)" by fastforce
  obtain y s where r: "restore_snapshot (env_storage E) md (n_store n) = (y, s)" by fastforce
  show ?thesis
    using assms unfolding install_accepted_def md_def [symmetric] Let_def l
    by (cases x; cases y) (simp_all add: r writes_vote(5) [OF r])
qed

lemma durable_replication:
  assumes "durable E n"
  shows "durable E (snd (handle_append_entries E ae n))"
    and "durable E (snd (handle_append_entries_response E peer aer n))"
    and "durable E (snd (handle_install_snapshot E isq n))"
    and "durable E (snd (handle_install_snapshot_response E peer isr n))"
    and "durable E (snd (append_command E cmd n))"
  using assms
  by (auto simp: handle_append_entries_def handle_append_entries_response_def
      handle_install_snapshot_def handle_install_snapshot_response_def append_command_def Let_def
      writes_vote intro!: durable_advance durable_acknowledge_reads durable_append_accepted
      durable_install_accepted split: option.split sum.split prod.split)

lemma durable_configuration_changes:
  assumes "durable E n"
  shows "durable E (snd (enter_joint_configuration E vs n))"
    and "durable E (snd (leave_joint_configuration E n))"
    and "durable E (snd (set_learners E vs n))"
    and "durable E (snd (node_promote_learner E nid n))"
    and "durable E (snd (remove_node E nid n))"
  using assms by (auto simp: configuration_change_defs split: sum.split)

lemma durable_create_snapshot [intro]:
  assumes "durable E n"
  shows "durable E (snd (create_snapshot E uri n))"
proof -
  define md where "md = \<lparr>last_included_index = n_commit_index n,
    last_included_term = term_at (env_storage E) (n_store n) (n_commit_index n), sm_uri = uri,
    sm_configuration = n_conf n\<rparr>"
  obtain x c where sv: "save_snapshot (env_machine E) \<lparr>sw_metadata = md, sw_uri = uri\<rparr> (n_fsm n) =
      (x, c)" by fastforce
  obtain y s where sm: "save_snapshot_metadata (env_storage E) md (n_store n) = (y, s)" by fastforce
  obtain z s' where cp: "compact_prefix (env_storage E) (last_included_index md + 1) s = (z, s')"
    by fastforce
  note v1 = writes_vote(6) [OF sm]
  note v2 = same_vote_trans [OF v1 writes_vote(7) [OF cp]]
  from v1 v2 assms show ?thesis
    unfolding create_snapshot_def Let_def md_def [symmetric] sv
    by (cases x; cases y; cases z) (simp_all add: sm cp)
qed

lemma durable_maybe_create_snapshot:
  "durable E n \<Longrightarrow> durable E (snd (maybe_create_snapshot E policy n))"
  using durable_create_snapshot [of n "snapshot_uri policy n"]
  by (auto simp: maybe_create_snapshot_def Let_def split: prod.split sum.split)

lemma durable_others:
  assumes "durable E n"
  shows "durable E (mark_snapshot_sent E peer n)"
    and "durable E (mark_append_sent peer i n)"
    and "durable E (snd (transfer_leader E peer n))"
    and "durable E (snd (take_pending_leader_transfer E peer n))"
    and "durable E (snd (read_index E rr n))"
    and "durable E (snd (consume_read_index rid n))"
    and "durable E (snd (expire_read_indexes E timeout n))"
    and "durable E (snd (check_leader_quorum E timeout n))"
  using assms
  by (auto simp: mark_snapshot_sent_def mark_append_sent_def transfer_leader_def
      take_pending_leader_transfer_def read_index_def consume_read_index_def
      expire_read_indexes_def check_leader_quorum_def Let_def split: option.split)

lemma durable_node_step: "durable E n \<Longrightarrow> durable E (node_step E ev n)"
  by (cases ev) (simp_all add: durable_elections durable_begin_election durable_replication
      durable_configuration_changes durable_create_snapshot durable_maybe_create_snapshot
      durable_others)

end

interpretation mem_hard: hard_state_store memory_store_ops
  by unfold_locales (auto simp: memory_store_ops_def ms_save_hard_state_def
      ms_save_snapshot_metadata_def ms_append_def ms_append_one_def ms_truncate_suffix_def
      ms_truncate_prefix_def ms_reset_to_snapshot_def Let_def)

lemma mem_env_storage [simp]: "env_storage (mem_env M t) = memory_store_ops"
  by (simp add: mem_env_def)

interpretation mem_votes: node_votes "mem_env M t" for M t
  using mem_hard.hard_state_store_axioms by (simp add: node_votes_def)


subsection \<open>Runs of one process\<close>

text \<open>A sequence of calls of one node, with the clock readings they see.\<close>

definition process_run :: "('s, 'm) raft_env \<Rightarrow> (time \<times> node_event) list \<Rightarrow> ('s, 'm) raft_node \<Rightarrow>
    ('s, 'm) raft_node" where
  "process_run E calls n = fold (\<lambda>(t, ev) n. node_step (E\<lparr>env_now := t\<rparr>) ev n) calls n"

lemma durable_clock [simp]: "durable (E\<lparr>env_now := t\<rparr>) n = durable E n"
  by (simp add: durable_def)

lemma durable_process_run:
  assumes "hard_state_store (env_storage E)" and "durable E n"
  shows "durable E (process_run E calls n)"
  using assms(2) unfolding process_run_def
proof (induction calls arbitrary: n)
  case (Cons c calls)
  have "node_votes (E\<lparr>env_now := fst c\<rparr>)"
    using assms(1) by (simp add: node_votes_def)
  from node_votes.durable_node_step [OF this, of n "snd c"] Cons show ?case
    by (simp add: case_prod_beta)
qed simp

lemma mk_raft_node_state:
  assumes "mk_raft_node E cfg (Some s) m = Inr n"
  shows "n_cfg n = cfg" "n_store n = s" "n_role n = follower" "\<not> n_stopped n"
    "n_term n = current_term (load_hard_state (env_storage E) s)"
    "n_voted_for n = voted_for (load_hard_state (env_storage E) s)"
    "n_votes_granted n = {}" "n_pending_reads n = []" "n_progress n = []"
  using assms by (auto simp: mk_raft_node_def Let_def refresh_leader_quorum_def
      reset_election_deadline_def split: if_splits)

lemma mk_raft_node_durable: "mk_raft_node E cfg (Some s) m = Inr n \<Longrightarrow> durable E n"
  by (simp add: durable_def mk_raft_node_state)


subsection \<open>The log does not move when the hard state is saved\<close>

locale node_store = raft_store "env_storage E" view invar
  for E :: "('s, 'm) raft_env" and view :: "'s \<Rightarrow> store_view" and invar :: "'s \<Rightarrow> bool"
begin

lemma persist_view:
  assumes "invar (n_store n)"
  shows "invar (n_store (persist E n))"
    and "sv_entries (view (n_store (persist E n))) = sv_entries (view (n_store n))"
    and "sv_snap (view (n_store (persist E n))) = sv_snap (view (n_store n))"
  using assms save_hard [OF assms, of "n_state n"]
  by (auto simp: persist_def writes_def split: prod.splits option.splits)

lemma step_down_view:
  assumes "invar (n_store n)"
  shows "invar (n_store (step_down E t n))"
    and "sv_entries (view (n_store (step_down E t n))) = sv_entries (view (n_store n))"
    and "sv_snap (view (n_store (step_down E t n))) = sv_snap (view (n_store n))"
  using assms by (simp_all add: step_down_def Let_def persist_view)

lemma up_to_date_cong:
  assumes "invar s" "invar s'" "sv_entries (view s') = sv_entries (view s)"
    "sv_snap (view s') = sv_snap (view s)"
  shows "is_log_at_least_up_to_date (env_storage E) s' = is_log_at_least_up_to_date (env_storage E) s"
  using assms by (simp add: is_log_at_least_up_to_date_def last_log_term_def reads view_term_def
      view_last_def fun_eq_iff)

lemma request_vote_grant:
  assumes "invar (n_store n)"
  shows "rvr_vote_granted (fst (handle_request_vote E req n)) \<longleftrightarrow>
     \<not> n_stopped n \<and> contains (n_conf n) (n_id n) \<and> contains (n_conf n) (rv_candidate_id req) \<and>
     is_log_at_least_up_to_date (env_storage E) (n_store n) (rv_last_log_index req)
       (rv_last_log_term req) \<and>
     n_term n \<le> rv_term req \<and>
     (rv_pre_vote req \<or> n_term n < rv_term req \<or> n_voted_for n \<in> {[], rv_candidate_id req})"
proof -
  let ?s = "step_down E (rv_term req) n"
  have "is_log_at_least_up_to_date (env_storage E) (n_store ?s) =
      is_log_at_least_up_to_date (env_storage E) (n_store n)"
    using assms step_down_view [OF assms] by (intro up_to_date_cong) simp_all
  then show ?thesis
    by (auto simp: handle_request_vote_def Let_def step_down_term)
qed

end

interpretation mem_node: node_store "mem_env M t" ms_view ms_wf for M t
  using mem.raft_store_axioms by (simp add: node_store_def)


subsection \<open>Properties\<close>

text \<open>
  C4: A vote request is granted exactly when the node runs, it and the candidate are voters of its
  configuration, the candidate's log is at least as up to date as its own, the request's term is not
  older than its own, and, unless the request is a pre-vote or opens a new term, it has not voted for
  somebody else in this term. This holds over every storage that keeps the storage contract.
\<close>

theorem request_vote_grant_exact:
  assumes "raft_store (env_storage E) view invar" and "invar (n_store n)"
  shows "rvr_vote_granted (fst (handle_request_vote E req n)) \<longleftrightarrow>
     \<not> n_stopped n \<and> contains (n_conf n) (n_id n) \<and> contains (n_conf n) (rv_candidate_id req) \<and>
     (let v = view (n_store n); own_term = view_term v (view_last v) in
      own_term < rv_last_log_term req \<or>
      own_term = rv_last_log_term req \<and> view_last v \<le> rv_last_log_index req) \<and>
     n_term n \<le> rv_term req \<and>
     (rv_pre_vote req \<or> n_term n < rv_term req \<or> n_voted_for n \<in> {[], rv_candidate_id req})"
proof -
  have "is_log_at_least_up_to_date (env_storage E) (n_store n) i t \<longleftrightarrow>
      (let v = view (n_store n); own_term = view_term v (view_last v) in
       own_term < t \<or> own_term = t \<and> view_last v \<le> i)" for i t
    using raft_store.last_index [OF assms] raft_store.term_lookup [OF assms]
    by (auto simp: is_log_at_least_up_to_date_def last_log_term_def Let_def)
  then show ?thesis
    using node_store.request_vote_grant [of E view invar n req] assms by (simp add: node_store_def)
qed

theorem request_vote_grant_exact_witness:
  "rvr_vote_granted (fst (handle_request_vote example_env
     (default_request_vote_request\<lparr>rv_term := 1, rv_candidate_id := ''b''\<rparr>) example_node))"
proof -
  have "raft_store (env_storage example_env) ms_view ms_wf"
    using mem.raft_store_axioms by (simp add: example_env_def)
  moreover have "n_store example_node = empty_memory_store"
    by code_simp
  then have "ms_wf (n_store example_node)"
    by simp
  moreover have "\<not> n_stopped example_node \<and> contains (n_conf example_node) (n_id example_node) \<and>
      contains (n_conf example_node) ''b'' \<and> n_term example_node < 1"
    by code_simp
  moreover have "view_term (ms_view empty_memory_store) (view_last (ms_view empty_memory_store)) = 0"
    "view_last (ms_view empty_memory_store) = 0"
    by code_simp+
  ultimately show ?thesis
    using \<open>n_store example_node = empty_memory_store\<close>
    by (simp add: request_vote_grant_exact default_request_vote_request_def Let_def)
qed

text \<open>
  C3: From its construction on, after any sequence of calls at any times, the term and the vote of a
  node that has not stopped are those its storage would load: a process that crashes after a call and
  is started again on the same storage remembers the term and the vote with which it last answered.
\<close>

theorem term_and_vote_durable:
  assumes "hard_state_store (env_storage E)"
    and "mk_raft_node E cfg (Some s) m = Inr n0"
    and "n = process_run E calls n0" and "\<not> n_stopped n"
  shows "current_term (load_hard_state (env_storage E) (n_store n)) = n_term n \<and>
    voted_for (load_hard_state (env_storage E) (n_store n)) = n_voted_for n"
  using durable_process_run [OF assms(1) mk_raft_node_durable [OF assms(2)], of calls] assms(3,4)
  by (simp add: durable_def)

theorem term_and_vote_durable_witness:
  "voted_for (ms_state (n_store (process_run example_env [(5, example_vote ''b''),
     (6, example_vote ''c'')] example_node))) = ''b''"
proof -
  let ?n = "process_run example_env [(5, example_vote ''b''), (6, example_vote ''c'')] example_node"
  have st: "hard_state_store (env_storage example_env)"
    using mem_hard.hard_state_store_axioms by (simp add: example_env_def)
  have mk: "mk_raft_node example_env example_cfg (Some empty_memory_store) (Some []) =
      Inr example_node"
    by (simp add: example_node_def mk_raft_node_def Let_def)
  have run: "\<not> n_stopped ?n" "n_voted_for ?n = ''b''"
    by code_simp+
  show ?thesis
    using term_and_vote_durable [OF st mk refl run(1)] run(2)
    by (simp add: example_env_def memory_store_ops_def)
qed

text \<open>A storage on which saving the hard state throws and changes nothing.\<close>

definition save_fails :: "'s raft_storage \<Rightarrow> 's \<Rightarrow> bool" where
  "save_fails S s \<longleftrightarrow> (\<forall>h. fst (save_hard_state S h s) \<noteq> None \<and> snd (save_hard_state S h s) = s)"

lemma persist_fails:
  assumes "save_fails (env_storage E) (n_store n)"
  shows "n_stopped (persist E n)" "n_store (persist E n) = n_store n"
proof -
  obtain e where "save_hard_state (env_storage E) (n_state n) (n_store n) = (Some e, n_store n)"
    using assms unfolding save_fails_def by (metis option.exhaust prod.collapse)
  then show "n_stopped (persist E n)" "n_store (persist E n) = n_store n"
    by (simp_all add: persist_def stop_def)
qed

lemma step_down_fails:
  assumes "save_fails (env_storage E) (n_store n)"
  shows "n_store (step_down E t n) = n_store n"
  using assms by (simp add: step_down_def Let_def persist_fails)

lemma granted_vote_not_saved:
  assumes "save_fails (env_storage E) (n_store n)" and "\<not> rv_pre_vote req"
    and "handle_request_vote E req n = (resp, n')" and "rvr_vote_granted resp"
  shows "n_stopped n'" "n_store n' = n_store n" "rvr_term resp = rv_term req"
    "n_voted_for n' = rv_candidate_id req"
  using assms persist_fails [OF assms(1)] step_down_fails [OF assms(1), of "rv_term req"]
  by (auto simp: handle_request_vote_def Let_def persist_fails step_down_term split: if_splits)

definition failing_env :: "(memory_store, string list) raft_env" where
  "failing_env = example_env\<lparr>env_storage := memory_store_ops
     \<lparr>save_hard_state := (\<lambda>h s. (Some (Std_exception ''disk full''), s))\<rparr>\<rparr>"

definition ballot :: "node_id \<Rightarrow> request_vote_request" where
  "ballot c = default_request_vote_request\<lparr>rv_term := 1, rv_candidate_id := c\<rparr>"

text \<open>
  C33: A storage failure while a vote is saved does not withdraw the vote. On any storage on which saving the
  hard state throws and changes nothing, a node that grants a vote stops, but its answer is that the vote
  is granted, in the term of the request. Once the storage works again, the process started on it, which
  loads an earlier term, grants its vote in the same term to every other candidate among its voters whose
  log is up to date.
\<close>

theorem granted_vote_lost_on_storage_failure:
  assumes "save_fails (env_storage E) (n_store n)"
    and "\<not> rv_pre_vote req" and "handle_request_vote E req n = (resp, n')" and "rvr_vote_granted resp"
    and "raft_store (env_storage E') view invar" and "invar (n_store n)"
    and "current_term (load_hard_state (env_storage E') (n_store n)) < rv_term req"
    and "mk_raft_node E' cfg (Some (n_store n')) m = Inr again"
    and "contains (n_conf again) (n_id again)" and "contains (n_conf again) (rv_candidate_id other)"
    and "\<not> rv_pre_vote other" and "rv_term other = rv_term req"
    and "is_log_at_least_up_to_date (env_storage E') (n_store n) (rv_last_log_index other) (rv_last_log_term other)"
  shows "n_stopped n' \<and> n_voted_for n' = rv_candidate_id req \<and> rvr_term resp = rv_term req \<and>
    rvr_vote_granted (fst (handle_request_vote E' other again)) \<and>
    rvr_term (fst (handle_request_vote E' other again)) = rv_term req"
proof -
  note first = granted_vote_not_saved [OF assms(1-4)]
  note new = mk_raft_node_state [OF assms(8)]
  have store: "n_store again = n_store n" and run: "\<not> n_stopped again" and lt: "n_term again < rv_term other"
    using new first(2) assms(7,12) by simp_all
  have inv: "invar (n_store again)" using store assms(6) by simp
  have ns: "node_store E' view invar" using assms(5) by (simp add: node_store_def)
  have granted: "rvr_vote_granted (fst (handle_request_vote E' other again))"
    using node_store.request_vote_grant [OF ns inv, of other] store run lt assms(9,10,13) by simp
  moreover have "rvr_term (fst (handle_request_vote E' other again)) = rv_term other"
    using granted run lt assms(9-11)
    by (auto simp: handle_request_vote_def Let_def step_down_term)
  ultimately show ?thesis using first assms(12) by simp
qed

theorem granted_vote_lost_on_storage_failure_witness:
  "\<exists>again. mk_raft_node example_env example_cfg
       (Some (n_store (snd (handle_request_vote failing_env (ballot ''b'') example_node)))) (Some []) = Inr again \<and>
     rvr_vote_granted (fst (handle_request_vote failing_env (ballot ''b'') example_node)) \<and>
     rvr_vote_granted (fst (handle_request_vote example_env (ballot ''c'') again)) \<and>
     rvr_term (fst (handle_request_vote example_env (ballot ''c'') again)) = 1"
proof -
  define resp where "resp = fst (handle_request_vote failing_env (ballot ''b'') example_node)"
  define n' where "n' = snd (handle_request_vote failing_env (ballot ''b'') example_node)"
  have first: "handle_request_vote failing_env (ballot ''b'') example_node = (resp, n')"
    by (simp add: resp_def n'_def)
  have st: "n_store example_node = empty_memory_store" and granted: "rvr_vote_granted resp"
    and n': "n_store n' = empty_memory_store"
    unfolding resp_def n'_def by code_simp+
  obtain again where again: "mk_raft_node example_env example_cfg (Some (n_store n')) (Some []) = Inr again"
    by (simp add: mk_raft_node_def Let_def)
  then have same: "again = example_node"
    by (simp add: n' example_node_def)
  have fails: "save_fails (env_storage failing_env) (n_store example_node)"
    by (simp add: save_fails_def failing_env_def)
  have rs: "raft_store (env_storage example_env) ms_view ms_wf" and wf: "ms_wf (n_store example_node)"
    using mem.raft_store_axioms by (simp_all add: example_env_def st)
  have facts: "\<not> rv_pre_vote (ballot ''b'')" "\<not> rv_pre_vote (ballot ''c'')"
    "rv_term (ballot ''c'') = rv_term (ballot ''b'')" "rv_term (ballot ''b'') = 1"
    "current_term (load_hard_state (env_storage example_env) (n_store example_node)) < rv_term (ballot ''b'')"
    "contains (n_conf example_node) (n_id example_node)"
    "contains (n_conf example_node) (rv_candidate_id (ballot ''c''))"
    "is_log_at_least_up_to_date (env_storage example_env) (n_store example_node)
       (rv_last_log_index (ballot ''c'')) (rv_last_log_term (ballot ''c''))"
    by code_simp+
  show ?thesis
    using granted_vote_lost_on_storage_failure [OF fails facts(1) first granted rs wf facts(5) again
        _ _ facts(2,3,8)] facts(4,6,7) first granted again same by simp
qed

end
