(* ===== verification/Raft_Cluster.thy ===== *)
theory Raft_Cluster
  imports Raft_Node_Durable
begin

text \<open>
  A cluster of nodes and the answers to vote requests that travel between them. An action is a call of one
  node, at any time and with any arguments: requests and responses may be lost, repeated, reordered or
  made up. A node may crash at any time, running or stopped, and be started again on its storage.

  What the actions of a run must keep to is not part of the step; it is stated as three conditions that a
  theorem about runs names: \<open>grants_answered\<close>, \<open>within_terms\<close> and \<open>remembered\<close>.

  The two history sets record the votes the nodes hold and the leaders they have been. Configurations
  may change along a run, within a set \<open>K\<close>.
\<close>

record ('s, 'm) cluster =
  cl_nodes :: "node_id \<Rightarrow> ('s, 'm) raft_node"
  cl_answers :: "(node_id \<times> node_id \<times> request_vote_response) set"
  cl_votes :: "(node_id \<times> term_t \<times> node_id) set"
  cl_leaders :: "(node_id \<times> term_t) set"

definition cast :: "node_id \<Rightarrow> ('s, 'm) raft_node \<Rightarrow> (node_id \<times> term_t \<times> node_id) set" where
  "cast v n = (if n_voted_for n = [] then {} else {(v, n_term n, n_voted_for n)})"

definition reign :: "node_id \<Rightarrow> ('s, 'm) raft_node \<Rightarrow> (node_id \<times> term_t) set" where
  "reign v n = (if n_role n = leader then {(v, n_term n)} else {})"

definition update_node :: "node_id \<Rightarrow> ('s, 'm) raft_node \<Rightarrow> ('s, 'm) cluster \<Rightarrow> ('s, 'm) cluster" where
  "update_node v n c =
     c\<lparr>cl_nodes := (cl_nodes c)(v := n), cl_votes := cl_votes c \<union> cast v n,
       cl_leaders := cl_leaders c \<union> reign v n\<rparr>"

fun vote_message :: "node_event \<Rightarrow> bool" where
  "vote_message (Request_vote _) = True"
| "vote_message (Vote_response _ _) = True"
| "vote_message _ = False"

datatype cluster_action =
    Call time node_id node_event
  | Ask time node_id request_vote_request
  | Count time node_id node_id request_vote_response
  | Restart time node_id

inductive cluster_step :: "('s, 'm) raft_env \<Rightarrow> configuration set \<Rightarrow> cluster_action \<Rightarrow>
    ('s, 'm) cluster \<Rightarrow> ('s, 'm) cluster \<Rightarrow> bool" for E K where
  call: "\<not> vote_message ev \<Longrightarrow>
    n = node_step (E\<lparr>env_now := t\<rparr>) ev (cl_nodes c v) \<Longrightarrow> n_conf n \<in> K \<Longrightarrow>
    cluster_step E K (Call t v ev) c (update_node v n c)"
| ask: "handle_request_vote (E\<lparr>env_now := t\<rparr>) req (cl_nodes c v) = (resp, n) \<Longrightarrow> n_conf n \<in> K \<Longrightarrow>
    cluster_step E K (Ask t v req) c (update_node v n
      (c\<lparr>cl_answers := insert (v, rv_candidate_id req, resp) (cl_answers c)\<rparr>))"
| count: "n = node_step (E\<lparr>env_now := t\<rparr>) (Vote_response voter resp) (cl_nodes c v) \<Longrightarrow> n_conf n \<in> K \<Longrightarrow>
    cluster_step E K (Count t v voter resp) c (update_node v n c)"
| restart: "mk_raft_node (E\<lparr>env_now := t\<rparr>) (n_cfg (cl_nodes c v)) (Some (n_store (cl_nodes c v))) m = Inr n \<Longrightarrow>
    n_conf n \<in> K \<Longrightarrow> cluster_step E K (Restart t v) c (update_node v n c)"

text \<open>
  A response that grants a vote has been given: it reaches the candidate named in the request, with the
  voter's name, as the connection of the request carries it (\<open>raft_runtime_impl.cpp\<close>). Refusals, pre-votes
  and every other message may be made up.
\<close>

fun grants_answered :: "cluster_action \<Rightarrow> ('s, 'm) cluster \<Rightarrow> bool" where
  "grants_answered (Count t v voter resp) c =
     (rvr_vote_granted resp \<and> \<not> rvr_pre_vote resp \<longrightarrow> (voter, v, resp) \<in> cl_answers c)"
| "grants_answered _ c = True"

text \<open>No election is started at the greatest 64-bit term.\<close>

fun within_terms :: "cluster_action \<Rightarrow> ('s, 'm) cluster \<Rightarrow> bool" where
  "within_terms (Call t v ev) c = term_headroom ev (cl_nodes c v)"
| "within_terms _ c = True"

text \<open>
  The process that is started again finds in its storage the term and the vote it had. A running node always
  does; one that stopped because saving them failed may not.
\<close>

fun remembered :: "('s, 'm) raft_env \<Rightarrow> cluster_action \<Rightarrow> ('s, 'm) cluster \<Rightarrow> bool" where
  "remembered E (Restart t v) c =
     (let n = cl_nodes c v; h = load_hard_state (env_storage E) (n_store n)
      in current_term h = n_term n \<and> voted_for h = n_voted_for n)"
| "remembered E _ c = True"

definition admissible :: "('s, 'm) raft_env \<Rightarrow> cluster_action \<Rightarrow> ('s, 'm) cluster \<Rightarrow> bool" where
  "admissible E a c \<longleftrightarrow> grants_answered a c \<and> within_terms a c \<and> remembered E a c"

text \<open>A cluster whose nodes have just been constructed.\<close>

definition cluster_start :: "('s, 'm) raft_env \<Rightarrow> configuration set \<Rightarrow> ('s, 'm) cluster \<Rightarrow> bool" where
  "cluster_start E K c \<longleftrightarrow>
     (\<forall>v. \<exists>cfg s m. rc_id cfg = v \<and> mk_raft_node E cfg (Some s) m = Inr (cl_nodes c v) \<and>
        n_conf (cl_nodes c v) \<in> K) \<and>
     cl_answers c = {} \<and> cl_votes c = (\<Union>v. cast v (cl_nodes c v)) \<and> cl_leaders c = {}"

text \<open>The runs whose actions keep to the condition \<open>P\<close>.\<close>

inductive cluster_run :: "('s, 'm) raft_env \<Rightarrow> configuration set \<Rightarrow>
    (cluster_action \<Rightarrow> ('s, 'm) cluster \<Rightarrow> bool) \<Rightarrow> ('s, 'm) cluster \<Rightarrow> bool"
  for E K P where
  start: "cluster_start E K c \<Longrightarrow> cluster_run E K P c"
| step: "cluster_run E K P c \<Longrightarrow> P a c \<Longrightarrow> cluster_step E K a c c' \<Longrightarrow> cluster_run E K P c'"


subsection \<open>The invariant\<close>

definition votes_inv :: "('s, 'm) cluster \<Rightarrow> bool" where
  "votes_inv c \<longleftrightarrow>
     (\<forall>v t x. (v, t, x) \<in> cl_votes c \<longrightarrow> t \<le> n_term (cl_nodes c v) \<and>
        (t = n_term (cl_nodes c v) \<longrightarrow> x = n_voted_for (cl_nodes c v) \<and> x \<noteq> [])) \<and>
     (\<forall>v t x y. (v, t, x) \<in> cl_votes c \<longrightarrow> (v, t, y) \<in> cl_votes c \<longrightarrow> x = y)"

definition node_inv :: "('s, 'm) raft_env \<Rightarrow> configuration set \<Rightarrow>
    (node_id \<times> term_t \<times> node_id) set \<Rightarrow> node_id \<Rightarrow> ('s, 'm) raft_node \<Rightarrow> bool" where
  "node_inv E K votes v n \<longleftrightarrow> n_id n = v \<and> n_conf n \<in> K \<and> durable E n \<and>
     cast v n \<subseteq> votes \<and>
     (n_role n = candidate \<longrightarrow> (\<forall>w \<in> n_votes_granted n. (w, n_term n, v) \<in> votes))"

definition elected :: "configuration set \<Rightarrow> (node_id \<times> term_t \<times> node_id) set \<Rightarrow> node_id \<Rightarrow>
    term_t \<Rightarrow> bool" where
  "elected K votes l t \<longleftrightarrow> (\<exists>C \<in> K. \<exists>Q. has_quorum C Q \<and> (\<forall>w \<in> Q. (w, t, l) \<in> votes))"

definition cluster_inv :: "('s, 'm) raft_env \<Rightarrow> configuration set \<Rightarrow> ('s, 'm) cluster \<Rightarrow> bool" where
  "cluster_inv E K c \<longleftrightarrow> votes_inv c \<and>
     (\<forall>v. node_inv E K (cl_votes c) v (cl_nodes c v)) \<and>
     (\<forall>v. reign v (cl_nodes c v) \<subseteq> cl_leaders c) \<and>
     (\<forall>v x resp. (v, x, resp) \<in> cl_answers c \<longrightarrow> rvr_vote_granted resp \<longrightarrow> \<not> rvr_pre_vote resp \<longrightarrow>
        (v, rvr_term resp, x) \<in> cl_votes c) \<and>
     (\<forall>l t. (l, t) \<in> cl_leaders c \<longrightarrow> elected K (cl_votes c) l t)"

lemma elected_mono: "elected K votes l t \<Longrightarrow> votes \<subseteq> votes' \<Longrightarrow> elected K votes' l t"
  unfolding elected_def by blast

lemma node_inv_mono: "node_inv E K votes v n \<Longrightarrow> votes \<subseteq> votes' \<Longrightarrow> node_inv E K votes' v n"
  unfolding node_inv_def by blast

lemma votes_inv_update:
  assumes "votes_inv c" and "vote_kept (cl_nodes c v) n"
    and "cast v (cl_nodes c v) \<subseteq> cl_votes c"
  shows "votes_inv (update_node v n c)"
proof -
  have old: "t \<le> n_term n" "t = n_term n \<Longrightarrow> x = n_voted_for n \<and> x \<noteq> []"
    if "(v, t, x) \<in> cl_votes c" for t x
    using assms(1,2) that unfolding votes_inv_def vote_kept_def
    by (meson order_trans, metis order_antisym)
  then show ?thesis
    using assms(1) unfolding votes_inv_def update_node_def cast_def
    by (auto split: if_splits)
qed

text \<open>The obligations of a call of node \<open>v\<close> that moves it from \<open>n\<close> to \<open>n'\<close>.\<close>

definition lawful :: "('s, 'm) raft_env \<Rightarrow> configuration set \<Rightarrow>
    (node_id \<times> term_t \<times> node_id) set \<Rightarrow> node_id \<Rightarrow> ('s, 'm) raft_node \<Rightarrow> ('s, 'm) raft_node \<Rightarrow> bool" where
  "lawful E K votes v n n' \<longleftrightarrow> vote_kept n n' \<and> node_inv E K (votes \<union> cast v n') v n' \<and>
     (n_role n' = leader \<longrightarrow> n_role n = leader \<and> n_term n' = n_term n \<or>
        elected K (votes \<union> cast v n') v (n_term n'))"

lemma cluster_inv_update:
  assumes inv: "cluster_inv E K c" and law: "lawful E K (cl_votes c) v (cl_nodes c v) n"
  shows "cluster_inv E K (update_node v n c)"
proof -
  let ?c = "update_node v n c"
  have votes: "cl_votes ?c = cl_votes c \<union> cast v n"
    by (simp add: update_node_def)
  have cv: "cast v (cl_nodes c v) \<subseteq> cl_votes c"
    using inv by (simp add: cluster_inv_def node_inv_def)
  have "votes_inv ?c"
    using inv law cv by (intro votes_inv_update) (simp_all add: cluster_inv_def lawful_def)
  moreover have "node_inv E K (cl_votes ?c) w (cl_nodes ?c w)" for w
    using inv law node_inv_mono unfolding cluster_inv_def lawful_def votes
    by (cases "w = v") (simp_all add: update_node_def, blast)
  moreover have "reign w (cl_nodes ?c w) \<subseteq> cl_leaders ?c" for w
    using inv by (auto simp: cluster_inv_def update_node_def)
  moreover have "(w, rvr_term r, x) \<in> cl_votes ?c"
    if "(w, x, r) \<in> cl_answers ?c" "rvr_vote_granted r" "\<not> rvr_pre_vote r" for w x r
    using that inv unfolding cluster_inv_def by (simp add: update_node_def)
  moreover have "elected K (cl_votes ?c) l t" if "(l, t) \<in> cl_leaders ?c" for l t
  proof (cases "(l, t) \<in> cl_leaders c")
    case True
    with inv have "elected K (cl_votes c) l t" by (simp add: cluster_inv_def)
    then show ?thesis by (rule elected_mono) (simp add: votes)
  next
    case False
    with that have lt: "l = v" "t = n_term n" "n_role n = leader"
      by (auto simp: update_node_def reign_def split: if_splits)
    have "\<not> (n_role (cl_nodes c v) = leader \<and> n_term n = n_term (cl_nodes c v))"
      using inv False lt by (auto simp: cluster_inv_def reign_def split: if_splits)
    with law lt show ?thesis by (auto simp: lawful_def votes)
  qed
  ultimately show ?thesis unfolding cluster_inv_def by blast
qed



subsection \<open>Every step keeps the invariant\<close>

lemma lawful_calm:
  assumes "node_inv E K votes v n" and "calm n n'" and "n_conf n' \<in> K" and "durable E n'"
  shows "lawful E K votes v n n'"
  using assms calm_vote_kept [OF assms(2)] unfolding lawful_def node_inv_def calm_def
  by (auto split: if_splits)

lemma lawful_in_office:
  assumes "n_id m = v" "vote_kept n m" "calm (in_office m) n'" "n_conf n' \<in> K" "durable E n'"
    and "C \<in> K" "has_quorum C Q" "\<forall>w \<in> Q. (w, n_term m, v) \<in> votes \<union> cast v m"
  shows "lawful E K votes v n n'"
proof -
  have same: "cast v n' = cast v m" if "n_term n' = n_term m"
    using that assms(3) by (simp add: cast_def calm_def in_office_def)
  have "n_role n' \<noteq> candidate" and tm: "n_role n' = leader \<Longrightarrow> n_term n' = n_term m"
    using assms(3) by (auto simp: calm_def in_office_def split: if_splits)
  moreover have "n_id n' = v"
    using assms(1,3) by (simp add: calm_def in_office_def)
  moreover have "elected K (votes \<union> cast v n') v (n_term n')" if "n_role n' = leader"
    using assms(6-8) same tm that unfolding elected_def by auto
  ultimately show ?thesis
    using assms(4,5) vote_kept_trans [OF assms(2) calm_in_office_vote_kept [OF assms(3)]]
    by (simp add: lawful_def node_inv_def)
qed

lemma lawful_votes:
  assumes "n_id m = v" "vote_kept n m" "n_role m = candidate" "calm m n'" "n_conf n' \<in> K" "durable E n'"
    and "\<forall>w \<in> n_votes_granted m. (w, n_term m, v) \<in> votes \<union> cast v m"
  shows "lawful E K votes v n n'"
proof -
  have "n_role n' \<noteq> leader" and "n_id n' = v"
    using assms(1,3,4) by (auto simp: calm_def split: if_splits)
  moreover have "(w, n_term n', v) \<in> votes \<union> cast v n'"
    if "n_role n' = candidate" "w \<in> n_votes_granted n'" for w
    using assms(4,7) that by (auto simp: calm_def cast_def split: if_splits)
  ultimately show ?thesis
    using assms(5,6) vote_kept_trans [OF assms(2) calm_vote_kept [OF assms(4)]]
    by (simp add: lawful_def node_inv_def)
qed

lemma lawful_begin_election:
  fixes E' :: "('s, 'm) raft_env"
  assumes node: "node_inv E K votes v n" and k: "calm n k" "n_conf k \<in> K" "n_term k + 1 \<noteq> 0"
    and wf: "\<forall>C \<in> K. conf_wf C"
    and n': "n' = snd (begin_election E' k)" "n_conf n' \<in> K" "durable E n'"
  shows "lawful E K votes v n n'"
proof -
  let ?s = "standing k"
  have id1: "n_id k = v"
    using node k(1) by (simp add: node_inv_def calm_def)
  have kept: "vote_kept n ?s"
    using vote_kept_trans [OF calm_vote_kept [OF k(1)] standing_vote_kept [OF k(3)]] .
  have self: "(v, n_term ?s, v) \<in> cast v ?s" if "contains (n_conf k) (n_id k)"
    using contains_not_empty_id [OF wf [rule_format, OF k(2)] that] id1
    by (simp add: cast_def standing_def)
  show ?thesis
  proof (cases rule: begin_election_cases [where E = E' and n = k])
    case none
    with n' k lawful_calm [OF node] show ?thesis by simp
  next
    case stands
    with n' kept self id1 show ?thesis
      by (intro lawful_votes [of ?s]) (simp_all add: standing_def)
  next
    case wins
    with n' k kept self id1 show ?thesis
      by (intro lawful_in_office [of ?s _ _ _ _ _ "n_conf k" "{v}"]) (simp_all add: standing_def)
  qed
qed

lemma lawful_call:
  assumes store: "hard_state_store (env_storage E)" and wf: "\<forall>C \<in> K. conf_wf C"
    and node: "node_inv E K votes v n" and ev: "\<not> vote_message ev" "term_headroom ev n"
    and n': "n' = node_step (E\<lparr>env_now := t\<rparr>) ev n" "n_conf n' \<in> K"
  shows "lawful E K votes v n n'"
proof -
  let ?E = "E\<lparr>env_now := t\<rparr>"
  have "node_votes ?E" using store by (simp add: node_votes_def)
  from node_votes.durable_node_step [OF this, of n ev] have dur: "durable E n'"
    using node by (simp add: n' node_inv_def)
  show ?thesis
  proof (cases "holds_election ev")
    case False
    with node n' dur show ?thesis by (intro lawful_calm) (simp_all add: calm_node_step)
  next
    case True
    with ev(1) consider "ev = Begin_election" | req where "ev = Timeout_now req"
      by (cases ev) auto
    then show ?thesis
    proof cases
      case 1
      with node wf ev n' dur show ?thesis
        by (intro lawful_begin_election [where k = n and E' = ?E]) (simp_all add: node_inv_def)
    next
      case (2 req)
      show ?thesis
      proof (cases rule: handle_timeout_now_cases [where E = ?E and req = req and n = n])
        case none
        with node n' dur 2 show ?thesis by (intro lawful_calm) simp_all
      next
        case (elects n1)
        with node wf ev n' dur 2 show ?thesis
          by (intro lawful_begin_election [where k = n1 and E' = ?E]) (simp_all add: node_inv_def)
      qed
    qed
  qed
qed

lemma lawful_ask:
  assumes store: "hard_state_store (env_storage E)" and wf: "\<forall>C \<in> K. conf_wf C"
    and node: "node_inv E K votes v n"
    and n': "handle_request_vote (E\<lparr>env_now := t\<rparr>) req n = (resp, n')" "n_conf n' \<in> K"
  shows "lawful E K votes v n n' \<and> (rvr_vote_granted resp \<longrightarrow> \<not> rvr_pre_vote resp \<longrightarrow>
    (v, rvr_term resp, rv_candidate_id req) \<in> cast v n')"
proof -
  let ?E = "E\<lparr>env_now := t\<rparr>"
  have "node_votes ?E" using store by (simp add: node_votes_def)
  from node_votes.durable_elections(2) [OF this, of n req] have dur: "durable E n'"
    using node by (simp add: n' node_inv_def)
  show ?thesis
  proof (cases rule: handle_request_vote_cases [where E = ?E and req = req and n = n])
    case none
    with node n' dur show ?thesis using lawful_calm [OF node, of n'] by simp
  next
    case (grants n1)
    let ?m = "n1\<lparr>n_state := (n_state n1)\<lparr>voted_for := rv_candidate_id req\<rparr>\<rparr>"
    have "n_conf n \<in> K" using node by (simp add: node_inv_def)
    then have "rv_candidate_id req \<noteq> []"
      using contains_not_empty_id [OF _ grants(5)] wf by blast
    with grants(6,8,9) n' have new: "(v, rvr_term resp, rv_candidate_id req) \<in> cast v n'"
      by (simp add: cast_def)
    have kept: "vote_kept n n'"
      using node_step_vote_kept [of "Request_vote req" n ?E] n' by simp
    have st: "n_cfg n' = n_cfg n1" "n_term n' = n_term n1"
      "n_role n' \<in> {follower, pre_candidate} \<or>
        n_role n' = n_role n1 \<and> n_votes_granted n' \<subseteq> n_votes_granted n1"
      using grants(7,8) n' by (simp_all add: calm_def)
    have role: "n_role n' \<in> {follower, pre_candidate} \<or>
        n_term n' = n_term n \<and> n_role n' = n_role n \<and> n_votes_granted n' \<subseteq> n_votes_granted n"
      using st grants(1) unfolding calm_def by (auto split: if_splits)
    have "n_id n' = v" using st(1) grants(1) node by (simp add: calm_def node_inv_def)
    moreover have "\<forall>w \<in> n_votes_granted n'. (w, n_term n', v) \<in> votes \<union> cast v n'"
      if "n_role n' = candidate"
      using that role node by (auto simp: node_inv_def)
    ultimately have "node_inv E K (votes \<union> cast v n') v n'"
      using dur n'(2) by (simp add: node_inv_def)
    moreover have "n_role n' = leader \<longrightarrow> n_role n = leader \<and> n_term n' = n_term n"
      using role by auto
    ultimately show ?thesis
      using kept new by (simp add: lawful_def)
  qed
qed

lemma lawful_count:
  assumes store: "hard_state_store (env_storage E)"
    and node: "node_inv E K votes v n"
    and n': "n' = node_step (E\<lparr>env_now := t\<rparr>) (Vote_response voter resp) n" "n_conf n' \<in> K"
    and answer: "rvr_vote_granted resp \<Longrightarrow> \<not> rvr_pre_vote resp \<Longrightarrow> (voter, rvr_term resp, v) \<in> votes"
  shows "lawful E K votes v n n'"
proof -
  let ?E = "E\<lparr>env_now := t\<rparr>"
  have "node_votes ?E" using store by (simp add: node_votes_def)
  from node_votes.durable_node_step [OF this, of n "Vote_response voter resp"]
  have dur: "durable E n'" using node by (simp add: n' node_inv_def)
  have ballots: "\<forall>w \<in> ballots voter resp n. (w, n_term n, v) \<in> votes"
    if "n_role n = candidate" "rvr_term resp = n_term n" "\<not> rvr_pre_vote resp"
    using that node answer by (auto simp: ballots_def node_inv_def)
  show ?thesis
  proof (cases rule: handle_vote_response_cases [where E = ?E and voter = voter and resp = resp and n = n])
    case none
    with node n' dur show ?thesis by (intro lawful_calm) simp_all
  next
    case counts
    let ?m = "n\<lparr>n_votes_granted := ballots voter resp n\<rparr>"
    have "vote_kept n ?m" by (simp add: vote_kept_def)
    with counts ballots node n' dur show ?thesis
      by (intro lawful_votes [of ?m]) (simp_all add: node_inv_def)
  next
    case wins
    with ballots node n' dur show ?thesis
      by (intro lawful_in_office [of n _ _ _ _ _ "n_conf n" "ballots voter resp n"])
        (simp_all add: node_inv_def)
  qed
qed

lemma cluster_step_inv:
  assumes store: "hard_state_store (env_storage E)" and wf: "\<forall>C \<in> K. conf_wf C"
    and step: "cluster_step E K a c c'" and ok: "admissible E a c" and inv: "cluster_inv E K c"
  shows "cluster_inv E K c'"
  using step
proof cases
  case (call ev n t v)
  have "node_inv E K (cl_votes c) v (cl_nodes c v)" using inv by (simp add: cluster_inv_def)
  moreover have "term_headroom ev (cl_nodes c v)" using ok call(1) by (simp add: admissible_def)
  ultimately have "lawful E K (cl_votes c) v (cl_nodes c v) n"
    using lawful_call [OF store wf _ call(3) _ call(4,5)] by blast
  then show ?thesis unfolding call(2) by (rule cluster_inv_update [OF inv])
next
  case (ask t req v resp n)
  let ?c = "c\<lparr>cl_answers := insert (v, rv_candidate_id req, resp) (cl_answers c)\<rparr>"
  have "node_inv E K (cl_votes c) v (cl_nodes c v)" using inv by (simp add: cluster_inv_def)
  note law = lawful_ask [OF store wf this ask(3,4)]
  have "cluster_inv E K (update_node v n c)"
    using law by (intro cluster_inv_update [OF inv]) blast
  moreover have "cl_answers c' = insert (v, rv_candidate_id req, resp) (cl_answers (update_node v n c))"
    "cl_votes c' = cl_votes (update_node v n c)" "cl_leaders c' = cl_leaders (update_node v n c)"
    "cl_nodes c' = cl_nodes (update_node v n c)" "cast v n \<subseteq> cl_votes c'"
    unfolding ask(2) by (auto simp: update_node_def)
  ultimately show ?thesis
    using law unfolding cluster_inv_def votes_inv_def by auto
next
  case (count n t voter resp v)
  have "node_inv E K (cl_votes c) v (cl_nodes c v)" using inv by (simp add: cluster_inv_def)
  from lawful_count [OF store this count(3,4)] ok count(1) inv show ?thesis
    unfolding count(2) by (intro cluster_inv_update [OF inv]) (simp add: cluster_inv_def admissible_def)
next
  case (restart t v m n)
  let ?n = "cl_nodes c v"
  have node: "node_inv E K (cl_votes c) v ?n" using inv by (simp add: cluster_inv_def)
  note new = mk_raft_node_state [OF restart(3)]
  have eq: "n_term n = n_term ?n" "n_voted_for n = n_voted_for ?n"
    using ok restart(1) new(5,6) by (simp_all add: admissible_def Let_def)
  have dur: "durable E n"
    using mk_raft_node_durable [OF restart(3)] by simp
  have "lawful E K (cl_votes c) v ?n n"
    using node new(1,3) eq dur restart(4)
    by (simp add: lawful_def node_inv_def vote_kept_def)
  then show ?thesis
    unfolding restart(2) by (rule cluster_inv_update [OF inv])
qed

lemma cluster_start_inv: "cluster_start E K c \<Longrightarrow> cluster_inv E K c"
proof -
  assume start: "cluster_start E K c"
  have node: "n_id (cl_nodes c v) = v" "n_conf (cl_nodes c v) \<in> K" "durable E (cl_nodes c v)"
    "n_role (cl_nodes c v) = follower" for v
    using start mk_raft_node_state mk_raft_node_durable unfolding cluster_start_def by metis+
  have votes: "(v, t, x) \<in> cl_votes c \<longleftrightarrow>
      t = n_term (cl_nodes c v) \<and> x = n_voted_for (cl_nodes c v) \<and> x \<noteq> []" for v t x
    using start by (auto simp: cluster_start_def cast_def split: if_splits)
  have "cast v (cl_nodes c v) \<subseteq> cl_votes c" for v
    using start by (auto simp: cluster_start_def)
  with node votes start show ?thesis
    by (simp add: cluster_inv_def votes_inv_def node_inv_def reign_def cluster_start_def)
qed

lemma cluster_run_inv:
  assumes "hard_state_store (env_storage E)" and "\<forall>C \<in> K. conf_wf C" and "cluster_run E K (admissible E) c"
  shows "cluster_inv E K c"
  using assms(3)
  by induction (auto intro: cluster_start_inv cluster_step_inv [OF assms(1,2)])

text \<open>The third condition never forbids to start a running node again.\<close>

lemma running_node_remembered:
  assumes "hard_state_store (env_storage E)" and "\<forall>C \<in> K. conf_wf C" and "cluster_run E K (admissible E) c"
    and "\<not> n_stopped (cl_nodes c v)"
  shows "remembered E (Restart t v) c"
proof -
  have "durable E (cl_nodes c v)"
    using cluster_run_inv [OF assms(1-3)] by (simp add: cluster_inv_def node_inv_def)
  then show ?thesis using assms(4) by (simp add: durable_def Let_def)
qed


subsection \<open>Configurations whose quorums overlap\<close>

definition overlapping :: "configuration set \<Rightarrow> bool" where
  "overlapping K \<longleftrightarrow> (\<forall>C \<in> K. \<forall>D \<in> K. \<forall>A B. has_quorum C A \<longrightarrow> has_quorum D B \<longrightarrow> A \<inter> B \<noteq> {})"

lemma overlapping_singleton: "overlapping {C}"
  using conf_quorum.quorums_meet by (auto simp: overlapping_def)

text \<open>The two halves of a joint change: from the old configuration to the joint one, and from there to
  the new one.\<close>

lemma overlapping_enter_joint:
  assumes "conf_wf C" and "with_joint C vs = Inr J"
  shows "overlapping {C, J}"
  using conf_quorum.quorums_meet joint_meets_old [OF assms] unfolding overlapping_def by blast

lemma overlapping_leave_joint:
  assumes "conf_wf J" and "leave_joint J = Inr C"
  shows "overlapping {J, C}"
  using conf_quorum.quorums_meet joint_meets_new [OF assms] unfolding overlapping_def by blast


subsection \<open>An example cluster\<close>

definition seeded_store :: memory_store where
  "seeded_store = empty_memory_store\<lparr>ms_snapshot := default_snapshot_metadata
     \<lparr>last_included_index := 1, last_included_term := 1,
      sm_configuration := default_configuration_state\<lparr>cs_voters := [''a'', ''b'', ''c'']\<rparr>\<rparr>\<rparr>"

definition seeded_conf :: configuration where
  "seeded_conf = mk_configuration (sm_configuration (ms_snapshot seeded_store))"

definition seeded_node :: "node_id \<Rightarrow> (memory_store, string list) raft_node" where
  "seeded_node v = (case mk_raft_node example_env (example_cfg\<lparr>rc_id := v\<rparr>) (Some seeded_store)
     (Some []) of Inr n \<Rightarrow> n)"

definition example_cluster :: "(memory_store, string list) cluster" where
  "example_cluster = \<lparr>cl_nodes = seeded_node, cl_answers = {}, cl_votes = {}, cl_leaders = {}\<rparr>"

lemma seeded_node_new:
  "mk_raft_node example_env (example_cfg\<lparr>rc_id := v\<rparr>) (Some seeded_store) (Some []) =
     Inr (seeded_node v)"
  by (simp add: seeded_node_def mk_raft_node_def Let_def)

lemma seeded_node_state: "n_conf (seeded_node v) = seeded_conf" "n_voted_for (seeded_node v) = []"
  by (simp_all add: seeded_node_def mk_raft_node_def Let_def seeded_conf_def seeded_store_def
      snapshot_valid_def example_env_def mem_env_def memory_store_ops_def default_snapshot_metadata_def
      empty_memory_store_def default_hard_state_def)

lemma example_cluster_start: "cluster_start example_env {seeded_conf} example_cluster"
proof -
  have "\<exists>cfg s m. rc_id cfg = v \<and> mk_raft_node example_env cfg (Some s) m = Inr (seeded_node v)" for v
    by (intro exI [of _ "example_cfg\<lparr>rc_id := v\<rparr>"] exI [of _ seeded_store] exI [of _ "Some []"])
      (simp add: seeded_node_new)
  then show ?thesis
    by (simp add: cluster_start_def example_cluster_def seeded_node_state cast_def)
qed


subsection \<open>Property\<close>

text \<open>
  C1: Election safety. In every run of a cluster over any storage that keeps the hard state it has saved,
  with any loss, repetition, reordering or forgery of messages, with crashes and restarts of nodes, and with
  configuration changes within a set of configurations whose quorums overlap (one configuration, or the
  two sides of either half of a joint change), a term has at most one leader. Three things are asked of
  the run: a response that grants a vote is one the voter gave to this candidate; no election is started at the
  greatest 64-bit term; and a node is started again only if its storage holds its term and vote, which holds of
  every running node but not of one that stopped because saving them failed.
\<close>

theorem election_safety:
  assumes "hard_state_store (env_storage E)" and "\<forall>C \<in> K. conf_wf C" and "overlapping K"
    and "cluster_run E K (\<lambda>a c. grants_answered a c \<and> within_terms a c \<and> remembered E a c) c"
    and "(l1, t) \<in> cl_leaders c" and "(l2, t) \<in> cl_leaders c"
  shows "l1 = l2"
proof -
  have "admissible E = (\<lambda>a c. grants_answered a c \<and> within_terms a c \<and> remembered E a c)"
    by (simp add: admissible_def fun_eq_iff)
  then have inv: "cluster_inv E K c"
    using cluster_run_inv [OF assms(1,2)] assms(4) by simp
  obtain C1 Q1 where 1: "C1 \<in> K" "has_quorum C1 Q1" "\<forall>w \<in> Q1. (w, t, l1) \<in> cl_votes c"
    using inv assms(5) unfolding cluster_inv_def elected_def by blast
  obtain C2 Q2 where 2: "C2 \<in> K" "has_quorum C2 Q2" "\<forall>w \<in> Q2. (w, t, l2) \<in> cl_votes c"
    using inv assms(6) unfolding cluster_inv_def elected_def by blast
  obtain w where "w \<in> Q1" "w \<in> Q2"
    using assms(3) 1(1,2) 2(1,2) unfolding overlapping_def by blast
  then show ?thesis
    using 1(3) 2(3) inv unfolding cluster_inv_def votes_inv_def by blast
qed

theorem election_safety_witness:
  "\<exists>c. cluster_run example_env {seeded_conf}
       (\<lambda>a c. grants_answered a c \<and> within_terms a c \<and> remembered example_env a c) c \<and>
     (''a'', 1) \<in> cl_leaders c \<and> (\<forall>l. (l, 1) \<in> cl_leaders c \<longrightarrow> l = ''a'')"
proof -
  let ?E = "example_env" and ?K = "{seeded_conf}"
  let ?P = "\<lambda>a c. grants_answered a c \<and> within_terms a c \<and> remembered ?E a c"
  define a1 where "a1 = node_step (?E\<lparr>env_now := 7\<rparr>) Begin_election (seeded_node ''a'')"
  define c1 where "c1 = update_node ''a'' a1 example_cluster"
  define req where "req = fst (begin_election (?E\<lparr>env_now := 7\<rparr>) (seeded_node ''a''))"
  define rb where "rb = handle_request_vote (?E\<lparr>env_now := 8\<rparr>) req (seeded_node ''b'')"
  define c2 where "c2 = update_node ''b'' (snd rb)
    (c1\<lparr>cl_answers := insert (''b'', rv_candidate_id req, fst rb) (cl_answers c1)\<rparr>)"
  define a2 where "a2 = node_step (?E\<lparr>env_now := 9\<rparr>) (Vote_response ''b'' (fst rb)) a1"
  define c3 where "c3 = update_node ''a'' a2 c2"
  note defs = a2_def rb_def req_def a1_def
  have facts: "n_term (seeded_node ''a'') + 1 \<noteq> 0" "n_conf a1 = seeded_conf"
    "n_conf (snd rb) = seeded_conf" "rv_candidate_id req = ''a''" "n_conf a2 = seeded_conf"
    "n_role a2 = leader" "n_term a2 = 1"
    unfolding defs by code_simp+
  have nodes: "cl_nodes c1 ''b'' = seeded_node ''b''" "cl_nodes c2 ''a'' = a1"
    "(''b'', ''a'', fst rb) \<in> cl_answers c2"
    using facts by (simp_all add: c1_def c2_def update_node_def example_cluster_def)
  have "cluster_step ?E ?K (Call 7 ''a'' Begin_election) example_cluster c1"
    unfolding c1_def using facts by (intro cluster_step.call) (simp_all add: a1_def example_cluster_def)
  then have "cluster_run ?E ?K ?P c1"
    using facts by (intro cluster_run.step [OF cluster_run.start [OF example_cluster_start]])
      (simp_all add: example_cluster_def)
  moreover have "cluster_step ?E ?K (Ask 8 ''b'' req) c1 c2"
    unfolding c2_def using facts nodes by (intro cluster_step.ask) (simp_all add: rb_def)
  ultimately have "cluster_run ?E ?K ?P c2"
    by (elim cluster_run.step) simp_all
  moreover have "cluster_step ?E ?K (Count 9 ''a'' ''b'' (fst rb)) c2 c3"
    unfolding c3_def using facts nodes by (intro cluster_step.count) (simp_all add: a2_def)
  ultimately have run: "cluster_run ?E ?K ?P c3"
    using nodes by (elim cluster_run.step) simp_all
  have lead: "(''a'', 1) \<in> cl_leaders c3"
    using facts by (simp add: c3_def update_node_def reign_def)
  have "hard_state_store (env_storage ?E)"
    using mem_hard.hard_state_store_axioms by (simp add: example_env_def)
  moreover have "\<forall>C \<in> ?K. conf_wf C"
    by (simp add: seeded_conf_def)
  ultimately show ?thesis
    using election_safety [OF _ _ overlapping_singleton run _ lead] run lead by blast
qed

end
