(* ===== verification/Raft_Node_Commit.thy ===== *)
theory Raft_Node_Commit
  imports Raft_Node_Durable
begin

text \<open>
  How a node commits and applies: \<open>advance_commit_index\<close> picks the greatest index its term allows, the
  loops of \<open>apply_committed\<close> end, and the state machine is handed the committed entries one after the
  other, each once. The theory ends with three theorems on calls that commit entries no quorum is known to
  hold, or lose entries that were applied.
\<close>

subsection \<open>The commit index of a leader\<close>

text \<open>What \<open>advance_commit_index\<close> looks for: an entry of the own term on a quorum.\<close>

definition committable :: "('s, 'm) raft_env \<Rightarrow> ('s, 'm) raft_node \<Rightarrow> log_index \<Rightarrow> bool" where
  "committable E n i \<longleftrightarrow>
     has_quorum (n_conf n) {v. v = n_id n \<or> (\<exists>p. pt_get (n_progress n) v = Some p \<and> i \<le> match_index p)} \<and>
     term_at (env_storage E) (n_store n) i = n_term n"

lemma committable_iff: "committable E n i \<longleftrightarrow> configuration_has_quorum (n_conf n) (matched n i) \<and>
    term_at (env_storage E) (n_store n) i = n_term n"
proof -
  have "{v. matched n i v} = {v. v = n_id n \<or> (\<exists>p. pt_get (n_progress n) v = Some p \<and> i \<le> match_index p)}"
    by (auto simp: matched_def split: option.splits)
  then have "configuration_has_quorum (n_conf n) (matched n i) =
      has_quorum (n_conf n) {v. v = n_id n \<or> (\<exists>p. pt_get (n_progress n) v = Some p \<and> i \<le> match_index p)}"
    by (auto simp: configuration_has_quorum_def has_quorum_iff group_has_quorum_iff cs_joint_def)
  then show ?thesis by (simp add: committable_def)
qed

lemma advance_loop_greatest:
  assumes "advance_loop E idx n = n'"
  shows "(\<nexists>i. n_commit_index n < i \<and> i \<le> idx \<and> committable E n i) \<and> n' = n \<or>
    (\<exists>i. n_commit_index n < i \<and> i \<le> idx \<and> committable E n i \<and>
      (\<forall>j. j \<le> idx \<and> committable E n j \<longrightarrow> j \<le> i) \<and> n' = commit_to E i n)"
  using assms
proof (induction E idx n rule: advance_loop.induct)
  case (1 E idx n)
  show ?case
  proof (cases "n_commit_index n < idx \<and> \<not> committable E n idx")
    case True
    have "idx \<noteq> 0" using True by auto
    then have le: "j \<le> idx - 1 \<longleftrightarrow> j < idx" for j using word_less_inc_iff [of "idx - 1" j] by simp
    have no: "n_commit_index n < idx" "\<not> (configuration_has_quorum (n_conf n) (matched n idx) \<and>
        term_at (env_storage E) (n_store n) idx = n_term n)" using True by (auto simp: committable_iff)
    then have "advance_loop E (idx - 1) n = n'"
      using 1(2) by (subst (asm) advance_loop.simps) auto
    from 1(1) [OF no this] True show ?thesis
      unfolding le by (metis order.order_iff_strict)
  next
    case False
    have r: "n' = (if n_commit_index n < idx then commit_to E idx n else n)"
      using False 1(2) by (subst (asm) advance_loop.simps) (auto simp: committable_iff)
    show ?thesis
    proof (cases "n_commit_index n < idx")
      case True
      then have "committable E n idx" using False by simp
      then show ?thesis using r True by auto
    qed (use r in auto)
  qed
qed


subsection \<open>The loops of \<open>apply_committed\<close> end\<close>

lemma apply_configuration_indexes [simp]:
  "n_last_applied (apply_configuration E e n) = n_last_applied n"
  "n_commit_index (apply_configuration E e n) = n_commit_index n"
  by (auto simp: apply_configuration_def Let_def self_replicated_def split: sum.splits prod.splits)

lemma apply_one_indexes:
  assumes "apply_one E e n = (ok, n')"
  shows "n_commit_index n' = n_commit_index n"
    and "ok \<Longrightarrow> n_last_applied n' = n_last_applied n + 1 \<and> \<not> n_stopped n'"
  using assms apply_entry_Inr [of "env_machine E" e "n_fsm n"]
  by (auto simp: apply_one_def Let_def split: if_splits sum.splits prod.splits)

lemma apply_all_indexes:
  "apply_all E es n = (ok, n') \<Longrightarrow> n_commit_index n' = n_commit_index n \<and>
    (ok \<longrightarrow> n_last_applied n' = n_last_applied n + of_nat (length es))"
proof (induction es arbitrary: n)
  case (Cons e es)
  obtain ok1 n1 where 1: "apply_one E e n = (ok1, n1)" by fastforce
  note i = apply_one_indexes [OF 1]
  show ?case
  proof (cases ok1)
    case True
    then have "apply_all E es n1 = (ok, n')" using Cons.prems 1 by simp
    from Cons.IH [OF this] i True show ?thesis by (simp add: algebra_simps)
  next
    case False
    then show ?thesis using Cons.prems 1 i by simp
  qed
qed simp

text \<open>A round that goes on applies some entries and none past the commit index.\<close>

lemma apply_batch_progress:
  assumes b: "apply_batch E n = (ok, n')" and gap: "n_last_applied n < n_commit_index n"
    and few: "\<And>i k. length (stored_entries (env_storage E) (n_store n) i k) \<le> k"
  shows "n_commit_index n' = n_commit_index n \<and> (ok \<longrightarrow> (\<exists>k. n_last_applied n' = n_last_applied n + of_nat k \<and>
    0 < k \<and> k \<le> unat (n_commit_index n - n_last_applied n)))"
proof (cases "n_commit_index n - n_last_applied n = 1")
  case True
  show ?thesis
  proof (cases "entry_at (env_storage E) (n_store n) (n_last_applied n + 1)")
    case (Some e)
    then have "apply_one E e n = (ok, n')" using b True by (simp add: apply_batch_def Let_def)
    from apply_one_indexes [OF this] show ?thesis using True by (auto intro!: exI [of _ 1])
  qed (use b True in \<open>simp add: apply_batch_def Let_def\<close>)
next
  case False
  let ?es = "stored_entries (env_storage E) (n_store n) (n_last_applied n + 1) (unat (n_commit_index n - n_last_applied n))"
  show ?thesis
  proof (cases "?es = [] \<or> le_index (hd ?es) \<noteq> n_last_applied n + 1")
    case none: True
    then have "apply_batch E n = (False, n)" using False by (simp add: apply_batch_def Let_def)
    then show ?thesis using b by simp
  next
    case some: False
    then have "apply_all E ?es n = (ok, n')" using b False by (simp add: apply_batch_def Let_def)
    from apply_all_indexes [OF this] show ?thesis using few some by (intro conjI impI exI [of _ "length ?es"]) auto
  qed
qed

lemma apply_batch_indexes:
  assumes "apply_batch E n = (ok, n')" and gap: "n_last_applied n < n_commit_index n"
    and few: "\<And>i k. length (stored_entries (env_storage E) (n_store n) i k) \<le> k" and ok
  shows "unat (n_commit_index n' - n_last_applied n') < unat (n_commit_index n - n_last_applied n)"
proof -
  let ?g = "n_commit_index n - n_last_applied n"
  obtain k where k: "n_last_applied n' = n_last_applied n + of_nat k" "0 < k" "k \<le> unat ?g"
    and c: "n_commit_index n' = n_commit_index n"
    using apply_batch_progress [OF assms(1-3)] \<open>ok\<close> by blast
  have "n_commit_index n' - n_last_applied n' = ?g - of_nat k" using k(1) c by simp
  moreover have "unat (?g - of_nat k) = unat ?g - k"
    using k(3) by (metis le_unat_uoi unat_sub word_le_nat_alt)
  ultimately show ?thesis using k(2,3) by simp
qed

lemma apply_while_loop:
  assumes few: "\<And>s i k. length (stored_entries (env_storage E) s i k) \<le> k"
  shows "unat (n_commit_index n - n_last_applied n) \<le> fuel \<Longrightarrow> apply_while E n = Some (apply_loop fuel E n)"
proof (induction fuel arbitrary: n)
  case 0
  then have "n_commit_index n = n_last_applied n" by (simp add: unat_eq_0)
  then show ?case by (subst apply_while.simps) simp
next
  case (Suc fuel)
  obtain go n' where b: "apply_batch E n = (go, n')" by fastforce
  show ?case
  proof (cases "n_last_applied n < n_commit_index n \<and> go")
    case True
    from apply_batch_indexes [OF b _ few] True have "unat (n_commit_index n' - n_last_applied n') \<le> fuel"
      using Suc.prems by simp
    from Suc.IH [OF this] show ?thesis using b True by (subst apply_while.simps) simp
  next
    case False
    then show ?thesis using b by (subst apply_while.simps) auto
  qed
qed


subsection \<open>What the state machine is handed\<close>

text \<open>The entries the machine sees; the others only move the applied index.\<close>

definition applies :: "log_entry \<Rightarrow> bool" where
  "applies e \<longleftrightarrow> le_type e = command \<or> le_type e = configuration_entry"

text \<open>A machine that also keeps the entries it has accepted.\<close>

definition recording :: "'m state_machine \<Rightarrow> ('m \<times> log_entry list) state_machine" where
  "recording M =
     \<lparr>on_apply = (\<lambda>e (m, es). case on_apply M e m of (x, m') \<Rightarrow> (x, m', if x = None then es @ [e] else es)),
      on_snapshot_load = (\<lambda>md (m, es). (on_snapshot_load M md m, es)),
      sm_save_snapshot = (\<lambda>w (m, es). case sm_save_snapshot M w m of (r, m') \<Rightarrow> (r, m', es)),
      sm_load_snapshot = (\<lambda>r (m, es). case sm_load_snapshot M r m of (x, m') \<Rightarrow> (x, m', es)),
      on_leader_start = (\<lambda>t (m, es). (on_leader_start M t m, es)),
      on_leader_stop = (\<lambda>t (m, es). (on_leader_stop M t m, es))\<rparr>"

definition history :: "('m \<Rightarrow> log_entry list) \<Rightarrow> ('s, 'm) raft_node \<Rightarrow> log_entry list option" where
  "history seen n = map_option seen (fc_machine (n_fsm n))"

definition span :: "log_index \<Rightarrow> log_index \<Rightarrow> log_entry list \<Rightarrow> log_entry list" where
  "span a b = filter (\<lambda>e. a < le_index e \<and> le_index e \<le> b)"

lemma span_snoc:
  assumes "strict_log L" and "e \<in> set L" and "le_index e = b + 1" and "a \<le> b" and "b + 1 \<noteq> 0"
  shows "span a (b + 1) L = span a b L @ [e]"
proof -
  obtain xs ys where L: "L = xs @ e # ys" using assms(2) by (meson split_list)
  have lt: "\<And>x. x \<in> set xs \<Longrightarrow> le_index x < b + 1" "\<And>y. y \<in> set ys \<Longrightarrow> b + 1 < le_index y"
    using assms(1,3) L by (auto simp: strict_log_def sorted_wrt_append)
  have "le_index x \<le> b \<and> le_index x \<le> b + 1" if "x \<in> set xs" for x
    using lt(1) [OF that] less_imp_le [OF lt(1) [OF that]] word_less_inc_iff [OF assms(5)] by simp
  then have "span a (b + 1) xs = span a b xs"
    unfolding span_def by (intro filter_cong) auto
  moreover have "span a b xs = span a b L" "span a (b + 1) ys = []"
    using lt(2) L assms(3) word_less_inc [OF assms(5)] by (force simp: span_def filter_empty_conv)+
  moreover have "a < b + 1" using assms(4,5) by (simp add: word_less_inc_iff)
  ultimately show ?thesis using L assms(3) by (simp add: span_def)
qed

lemma strict_filter_Cons:
  assumes "strict_log F" and "filter (\<lambda>x. i < le_index x) F = e # rest"
  shows "rest = filter (\<lambda>x. le_index e < le_index x) F"
proof -
  obtain us vs where F: "F = us @ e # vs" "\<forall>u \<in> set us. \<not> i < le_index u" "i < le_index e"
    "rest = filter (\<lambda>x. i < le_index x) vs"
    using assms(2) by (auto simp: filter_eq_Cons_iff)
  have vs: "le_index e < le_index v" if "v \<in> set vs" for v
    using assms(1) F(1) that by (simp add: strict_log_def sorted_wrt_append)
  have us: "le_index u < le_index e" if "u \<in> set us" for u
    using assms(1) F(1) that by (simp add: strict_log_def sorted_wrt_append)
  have "filter (\<lambda>x. le_index e < le_index x) us = []" using us by (force simp: filter_empty_conv)
  moreover have "filter (\<lambda>x. i < le_index x) vs = vs" "filter (\<lambda>x. le_index e < le_index x) vs = vs"
    using vs less_trans [OF F(3)] by (intro filter_True ballI; blast)+
  ultimately show ?thesis by (simp add: F(1,4))
qed

text \<open>The log of a store after an append of at most one entry at its end.\<close>

definition log_ext :: "('s \<Rightarrow> store_view) \<Rightarrow> ('s \<Rightarrow> bool) \<Rightarrow> 's \<Rightarrow> 's \<Rightarrow> bool" where
  "log_ext view invar s s' \<longleftrightarrow> invar s' \<and> sv_snap (view s') = sv_snap (view s) \<and>
     (sv_entries (view s') = sv_entries (view s) \<or>
      (\<exists>e. sv_entries (view s') = sv_entries (view s) @ [e] \<and> le_index e = view_last (view s) + 1))"

text \<open>A log that can take \<open>k\<close> more entries.\<close>

definition log_room :: "nat \<Rightarrow> store_view \<Rightarrow> bool" where
  "log_room k v \<longleftrightarrow> last_included_index (sv_snap v) \<le> view_last v \<and> unat (view_last v) + k < 2 ^ 64"

lemma log_room_inc: "log_room (Suc k) v \<Longrightarrow> view_last v + 1 \<noteq> 0 \<and> unat (view_last v + 1) = Suc (unat (view_last v))"
proof -
  assume "log_room (Suc k) v"
  then have "unat (view_last v) + 1 < 2 ^ 64" by (simp add: log_room_def)
  then have "unat (view_last v + 1) = Suc (unat (view_last v))" by (simp add: unat_word_ariths)
  then show ?thesis by (metis nat.distinct(1) unat_0)
qed

lemma fsm_index_frame [simp]:
  "fc_last_applied (n_fsm (stop E err n)) = fc_last_applied (n_fsm n)"
  "fc_last_applied (n_fsm (persist E n)) = fc_last_applied (n_fsm n)"
  "fc_last_applied (n_fsm (step_down E t n)) = fc_last_applied (n_fsm n)"
proof -
  show 1: "fc_last_applied (n_fsm (stop E err n)) = fc_last_applied (n_fsm n)" for err n
    by (simp add: stop_def)
  show 2: "fc_last_applied (n_fsm (persist E n)) = fc_last_applied (n_fsm n)" for n
    by (simp add: persist_def 1 split: prod.split option.split)
  show "fc_last_applied (n_fsm (step_down E t n)) = fc_last_applied (n_fsm n)"
    by (simp add: step_down_def Let_def 2 reset_election_deadline_def)
qed

text \<open>
  The state of an apply run that began at the index \<open>a\<close> with the machine's history \<open>h\<close> and the log \<open>L\<close>: what
  holds at any time, and what holds while the run goes on towards the commit index \<open>c\<close>.
\<close>

definition applied_ok :: "('m \<Rightarrow> log_entry list) \<Rightarrow> log_entry list \<Rightarrow> log_index \<Rightarrow> log_entry list \<Rightarrow>
    ('s, 'm) raft_node \<Rightarrow> bool" where
  "applied_ok seen L a h n \<longleftrightarrow> a \<le> n_last_applied n \<and>
     map (unat \<circ> le_index) (span a (n_last_applied n) L) = [Suc (unat a)..<Suc (unat (n_last_applied n))] \<and>
     history seen n = Some (h @ filter applies (span a (n_last_applied n) L))"

definition apply_ready :: "('s \<Rightarrow> store_view) \<Rightarrow> ('s \<Rightarrow> bool) \<Rightarrow> log_entry list \<Rightarrow> log_index \<Rightarrow>
    ('s, 'm) raft_node \<Rightarrow> bool" where
  "apply_ready view invar L c n \<longleftrightarrow> \<not> n_stopped n \<and> fc_last_applied (n_fsm n) = n_last_applied n \<and>
     n_commit_index n = c \<and> n_last_applied n \<le> c \<and> invar (n_store n) \<and>
     (\<exists>extra. sv_entries (view (n_store n)) = L @ extra \<and> (\<forall>e \<in> set extra. c < le_index e)) \<and>
     c \<le> view_last (view (n_store n)) \<and> log_room (unat c - unat (n_last_applied n)) (view (n_store n))"

lemma log_ext_ready:
  assumes "log_ext view invar s s'" and "log_room (Suc k) (view s)" and "c \<le> view_last (view s)"
    and "sv_entries (view s) = L @ extra" and "\<forall>e \<in> set extra. c < le_index e"
  shows "invar s' \<and> (\<exists>extra'. sv_entries (view s') = L @ extra' \<and> (\<forall>e \<in> set extra'. c < le_index e)) \<and>
    c \<le> view_last (view s') \<and> log_room k (view s')"
proof (cases "sv_entries (view s') = sv_entries (view s)")
  case True
  then have "view_last (view s') = view_last (view s)" using assms(1) by (simp add: log_ext_def view_last_def)
  then show ?thesis using assms True by (auto simp: log_ext_def log_room_def)
next
  case False
  then obtain e where e: "sv_entries (view s') = sv_entries (view s) @ [e]" "le_index e = view_last (view s) + 1"
    "invar s'" "sv_snap (view s') = sv_snap (view s)"
    using assms(1) by (auto simp: log_ext_def)
  have l: "view_last (view s') = view_last (view s) + 1" using e(1,2) by (simp add: view_last_def)
  note inc = log_room_inc [OF assms(2)]
  have "view_last (view s) < view_last (view s) + 1" using inc word_less_inc by blast
  then show ?thesis
    using assms(2-5) e l inc by (auto simp: log_room_def)
qed

locale node_history = node_store E view invar
  for E :: "('s, 'm) raft_env" and view :: "'s \<Rightarrow> store_view" and invar :: "'s \<Rightarrow> bool" +
  fixes seen :: "'m \<Rightarrow> log_entry list"
  assumes seen_apply: "seen (snd (on_apply (env_machine E) e m)) =
      seen m @ (if fst (on_apply (env_machine E) e m) = None then [e] else [])"
    and seen_stop: "seen (on_leader_stop (env_machine E) t m) = seen m"
begin

lemma history_stop: "history seen (stop E err n) = history seen n"
  by (simp add: history_def stop_def fc_on_leader_stop_def option.map_comp comp_def seen_stop)

lemma history_persist: "history seen (persist E n) = history seen n"
  by (simp add: persist_def history_stop split: prod.split option.split) (simp add: history_def)

lemma history_step_down: "history seen (step_down E t n) = history seen n"
  by (simp add: step_down_def Let_def history_persist reset_election_deadline_def)
     (simp add: history_def fc_on_leader_stop_def option.map_comp comp_def seen_stop)

lemma append_configuration_ext:
  assumes "invar s" and "log_room (Suc k) (view s)" and "log_append_configuration (env_storage E) t c s = (r, s')"
  shows "log_ext view invar s s'"
proof -
  let ?e = "default_log_entry\<lparr>le_index := last_log_index (env_storage E) s + 1, le_term := t,
       le_type := configuration_entry, le_configuration := c\<rparr>"
  have i: "le_index ?e = view_last (view s) + 1" using last_index [OF assms(1)] by simp
  have inc: "view_last (view s) + 1 \<noteq> 0" using log_room_inc [OF assms(2)] by blast
  have "appendable (view s) [?e]"
    using assms(2) i inc by (auto simp: appendable_def log_room_def word_less_inc_iff)
  from append_single [OF assms(1) this] have w: "writes view invar (store_append_one (env_storage E) ?e) s (view_append [?e])" .
  have "filter (\<lambda>x. le_index x < view_last (view s) + 1) (sv_entries (view s)) = sv_entries (view s)"
    using strict_log_last_greatest [OF view_strict [OF assms(1)]] inc
    by (intro filter_True) (auto simp: view_last_def word_less_inc_iff split: if_splits)
  then have "sv_entries (view_append [?e] (view s)) = sv_entries (view s) @ [?e]"
    using i by (simp add: view_append_def)
  then show ?thesis
    using w assms(3) i
    by (auto simp: log_ext_def writes_def log_append_configuration_def log_append_one_def split: prod.splits option.splits)
qed

lemma apply_configuration_ext:
  assumes "invar (n_store n)" and "log_room (Suc k) (view (n_store n))"
  shows "log_ext view invar (n_store n) (n_store (apply_configuration E e n))"
    and "fc_last_applied (n_fsm (apply_configuration E e n)) = fc_last_applied (n_fsm n)"
    and "history seen (apply_configuration E e n) = history seen n"
proof -
  have same: "log_ext view invar (n_store n) (n_store n)" using assms(1) by (simp add: log_ext_def)
  have down: "log_ext view invar (n_store n) (n_store (step_down E t m))" if "n_store m = n_store n" for t m
    using step_down_view [of m] that assms(1) by (simp add: log_ext_def)
  show "log_ext view invar (n_store n) (n_store (apply_configuration E e n))"
    using same append_configuration_ext [OF assms]
    by (auto simp: apply_configuration_def Let_def self_replicated_def down split: sum.splits prod.splits)
  show "fc_last_applied (n_fsm (apply_configuration E e n)) = fc_last_applied (n_fsm n)"
    by (auto simp: apply_configuration_def Let_def self_replicated_def split: sum.splits prod.splits)
  show "history seen (apply_configuration E e n) = history seen n"
    by (auto simp: apply_configuration_def Let_def self_replicated_def history_stop history_step_down
        split: sum.splits prod.splits) (auto simp: history_def)
qed

lemma apply_entry_seen:
  assumes "apply_entry (env_machine E) e c = (r, c')" and "map_option seen (fc_machine c) = Some h"
  shows "map_option seen (fc_machine c') = Some (h @ (if isl r then [] else filter applies [e]))"
proof -
  obtain m where m: "fc_machine c = Some m" "seen m = h" using assms(2) by auto
  obtain x m' where x: "on_apply (env_machine E) e m = (x, m')" by fastforce
  then have "seen m' = h @ (if x = None then [e] else [])" using seen_apply [of e m] m(2) by simp
  then show ?thesis using assms(1) m x by (auto simp: apply_entry_def applies_def split: if_splits option.splits)
qed

lemma apply_one_step:
  assumes ok: "applied_ok seen L a h n" and ready: "apply_ready view invar L c n"
    and e: "e \<in> set L" "le_index e = n_last_applied n + 1" and L: "strict_log L" and lt: "n_last_applied n < c"
    and st: "apply_one E e n = (go, n')"
  shows "applied_ok seen L a h n' \<and>
    (if go then apply_ready view invar L c n' \<and> n_last_applied n' = n_last_applied n + 1 else n_stopped n')"
proof -
  let ?la = "n_last_applied n"
  have inc: "?la + 1 \<noteq> 0" "unat (?la + 1) = Suc (unat ?la)" using lt word_inc_nonzero unat_inc by blast+
  have h: "history seen n = Some (h @ filter applies (span a ?la L))" and a: "a \<le> ?la"
    using ok by (simp_all add: applied_ok_def)
  obtain r f where f: "apply_entry (env_machine E) e (n_fsm n) = (r, f)" by fastforce
  have seen: "map_option seen (fc_machine f) =
      Some (h @ filter applies (span a ?la L) @ (if isl r then [] else filter applies [e]))"
    using apply_entry_seen [OF f h [unfolded history_def]] by (simp only: append_assoc)
  show ?thesis
  proof (cases r)
    case (Inl err)
    then have "n' = stop E err (n\<lparr>n_fsm := f\<rparr>)" "\<not> go" using st f e(2) by (simp_all add: apply_one_def)
    moreover have "history seen (n\<lparr>n_fsm := f\<rparr>) = history seen n"
    proof -
      have "history seen (n\<lparr>n_fsm := f\<rparr>) = map_option seen (fc_machine f)" by (simp add: history_def)
      then show ?thesis using seen h Inl by (simp only: sum.disc if_True append_Nil2)
    qed
    ultimately show ?thesis using ok by (simp add: applied_ok_def history_stop)
  next
    case (Inr i)
    then have i: "i = ?la + 1" "fc_last_applied f = ?la + 1" using apply_entry_Inr f e(2) by force+
    define n1 where "n1 = n\<lparr>n_fsm := f, n_state := (n_state n)\<lparr>last_applied := ?la + 1\<rparr>\<rparr>"
    define n2 where "n2 = (if le_type e = configuration_entry then apply_configuration E e n1 else n1)"
    have n': "n' = persist E n2" "go = (\<not> n_stopped n')"
      using st f e(2) Inr i(1) by (auto simp: apply_one_def Let_def n1_def n2_def)
    obtain extra where x: "sv_entries (view (n_store n)) = L @ extra" "\<forall>e \<in> set extra. c < le_index e"
      using ready by (auto simp: apply_ready_def)
    have "unat c - unat ?la = Suc (unat c - unat (?la + 1))" using lt inc by (simp add: word_less_nat_alt)
    then have room: "log_room (Suc (unat c - unat (?la + 1))) (view (n_store n))"
      using ready by (simp add: apply_ready_def)
    have r1: "invar (n_store n1)" "log_room (Suc (unat c - unat (?la + 1))) (view (n_store n1))"
      using ready room by (simp_all add: apply_ready_def n1_def)
    have "log_ext view invar (n_store n) (n_store n2)"
      using apply_configuration_ext(1) [OF r1] r1(1) by (simp add: n1_def n2_def log_ext_def)
    then have ext: "log_ext view invar (n_store n) (n_store n')"
      using persist_view [of n2] n'(1) by (simp add: log_ext_def)
    have idx: "n_last_applied n' = ?la + 1" "n_commit_index n' = n_commit_index n"
      using n'(1) by (simp_all add: n2_def n1_def)
    have "fc_last_applied (n_fsm n') = ?la + 1"
      using n'(1) apply_configuration_ext(2) [OF r1] i(2) by (simp add: n2_def n1_def)
    moreover have "?la + 1 \<le> c" using lt inc(1) by (metis inc_le)
    ultimately have "apply_ready view invar L c n'" if go
      using that n'(2) idx ready log_ext_ready [OF ext room _ x] unfolding apply_ready_def by simp
    moreover have "history seen n1 = map_option seen (fc_machine f)" by (simp add: n1_def history_def)
    then have "history seen n2 = map_option seen (fc_machine f)"
      using apply_configuration_ext(3) [OF r1] by (simp add: n2_def)
    then have "history seen n' = Some (h @ filter applies (span a ?la L) @ filter applies [e])"
      using seen Inr n'(1) history_persist by (simp only: sum.disc if_False)
    then have "applied_ok seen L a h n'"
      using ok idx(1) span_snoc [OF L e a inc(1)] inc a e(2)
      by (auto simp: applied_ok_def word_le_nat_alt)
    ultimately show ?thesis using idx(1) n'(2) by simp
  qed
qed

lemma apply_all_run:
  assumes "applied_ok seen L a h n" and "apply_ready view invar L c n" and "strict_log (L @ extra)"
    and "\<forall>e \<in> set extra. c < le_index e" and "g \<le> unat c - unat (n_last_applied n)"
    and "apply_all E (take g (filter (\<lambda>e. n_last_applied n < le_index e) (L @ extra))) n = (go, n')"
  shows "applied_ok seen L a h n' \<and>
    (if go then apply_ready view invar L c n' else n_stopped n' \<or> log_find L (n_last_applied n' + 1) = None)"
  using assms(1,2,5,6)
proof (induction g arbitrary: n)
  case (Suc g)
  let ?la = "n_last_applied n" and ?F = "L @ extra"
  show ?case
  proof (cases "filter (\<lambda>e. ?la < le_index e) ?F")
    case Nil
    then show ?thesis using Suc.prems by simp
  next
    case (Cons e rest)
    have lt: "?la < c" using Suc.prems(3) by (simp add: word_less_nat_alt)
    note inc = word_inc_nonzero [OF lt]
    note rest = strict_filter_Cons [OF assms(3) Cons]
    have "e \<in> set (filter (\<lambda>e. ?la < le_index e) ?F)" unfolding Cons by simp
    then have e: "e \<in> set ?F" "?la < le_index e" by auto
    have all: "apply_all E (e # take g rest) n = (go, n')" using Suc.prems(4) unfolding Cons by simp
    show ?thesis
    proof (cases "le_index e = ?la + 1")
      case False
      then have "n' = n" "\<not> go" using all by (simp_all add: apply_one_def)
      moreover have gt: "?la + 1 < le_index e" using False e(2) inc by (metis inc_le order.not_eq_order_implies_strict)
      have "le_index x \<noteq> ?la + 1" if "x \<in> set L" for x
      proof
        assume x: "le_index x = ?la + 1"
        then have "x \<in> set (filter (\<lambda>e. ?la < le_index e) ?F)" using that word_less_inc [OF inc] by simp
        then have "x = e \<or> le_index e < le_index x" unfolding Cons using rest by auto
        then show False using x False gt by auto
      qed
      ultimately show ?thesis using Suc.prems(1) by (simp add: log_find_None_iff)
    next
      case True
      then have eL: "e \<in> set L" using e(1) assms(4) lt inc by (metis Un_iff inc_le leD set_append)
      obtain go1 n1 where 1: "apply_one E e n = (go1, n1)" by fastforce
      have L: "strict_log L" using assms(3) by (simp add: strict_log_def sorted_wrt_append)
      note step = apply_one_step [OF Suc.prems(1,2) eL True L lt 1]
      show ?thesis
      proof (cases go1)
        case go: True
        have "unat (?la + 1) = Suc (unat ?la)" using unat_inc [OF inc] .
        then have "g \<le> unat c - unat (n_last_applied n1)" using step go Suc.prems(3) by simp
        moreover have "apply_all E (take g (filter (\<lambda>e. n_last_applied n1 < le_index e) ?F)) n1 = (go, n')"
          using all 1 go step rest True by simp
        ultimately show ?thesis using Suc.IH [of n1] step go by simp
      next
        case False
        then show ?thesis using all 1 step by simp
      qed
    qed
  qed
qed simp

lemma apply_batch_run:
  assumes ok: "applied_ok seen L a h n" and ready: "apply_ready view invar L c n" and lt: "n_last_applied n < c"
    and st: "apply_batch E n = (go, n')"
  shows "applied_ok seen L a h n' \<and>
    (if go then apply_ready view invar L c n' else n_stopped n' \<or> log_find L (n_last_applied n' + 1) = None)"
proof -
  let ?la = "n_last_applied n"
  note inc = word_inc_nonzero [OF lt]
  have iv: "invar (n_store n)" and c: "n_commit_index n = c" using ready by (simp_all add: apply_ready_def)
  obtain extra where x: "sv_entries (view (n_store n)) = L @ extra" "\<forall>e \<in> set extra. c < le_index e"
    using ready by (auto simp: apply_ready_def)
  have F: "strict_log (L @ extra)" using view_strict [OF iv] x by simp
  have gap: "unat (c - ?la) = unat c - unat ?la" using lt by (simp add: unat_sub)
  have from_la: "filter (\<lambda>e. ?la + 1 \<le> le_index e) F = filter (\<lambda>e. ?la < le_index e) F" for F
    using inc by (intro filter_cong) (auto simp: word_less_inc_iff not_less [symmetric] dest: leD)
  show ?thesis
  proof (cases "c - ?la = 1")
    case True
    have c1: "c = ?la + 1" using True by (simp add: algebra_simps)
    have "log_find extra (?la + 1) = None" using x(2) c1 by (auto simp: log_find_None_iff)
    then have find: "entry_at (env_storage E) (n_store n) (?la + 1) = log_find L (?la + 1)"
      using entry_lookup [OF iv] x(1) by (simp add: log_find_append split: option.split)
    show ?thesis
    proof (cases "log_find L (?la + 1)")
      case None
      then show ?thesis using st True c find ok by (simp add: apply_batch_def Let_def)
    next
      case (Some e)
      then have e: "e \<in> set L" "le_index e = ?la + 1" using log_find_Some_in by blast+
      have "apply_one E e n = (go, n')" using st True c find Some by (simp add: apply_batch_def Let_def)
      moreover have "strict_log L" using F by (simp add: strict_log_def sorted_wrt_append)
      ultimately show ?thesis using apply_one_step [OF ok ready e _ lt] by (simp split: if_splits)
    qed
  next
    case False
    define es where "es = take (unat c - unat ?la) (filter (\<lambda>e. ?la < le_index e) (L @ extra))"
    note run = apply_all_run [OF ok ready F x(2) order_refl, folded es_def]
    have "stored_entries (env_storage E) (n_store n) (?la + 1) (unat (c - ?la)) = es"
      by (simp only: entries_range [OF iv] x(1) gap from_la es_def)
    then have b: "apply_batch E n = (if es = [] \<or> le_index (hd es) \<noteq> ?la + 1 then (False, n) else apply_all E es n)"
      using False c by (simp add: apply_batch_def Let_def)
    show ?thesis
    proof (cases es)
      case Nil
      then have "filter (\<lambda>e. ?la < le_index e) (L @ extra) = []" using lt by (auto simp: es_def word_less_nat_alt)
      then have "log_find L (?la + 1) = None"
        using word_less_inc [OF inc] by (force simp: log_find_None_iff filter_empty_conv)
      then show ?thesis using b st Nil ok by simp
    next
      case (Cons e rest)
      have "apply_all E es n = (go, n')"
        using b st Cons by (cases "le_index e = ?la + 1") (simp_all add: apply_one_def)
      from run [OF this] show ?thesis .
    qed
  qed
qed

lemma apply_loop_run:
  assumes "applied_ok seen L a h n" and "apply_ready view invar L c n" and "unat (c - n_last_applied n) \<le> fuel"
  shows "applied_ok seen L a h (apply_loop fuel E n) \<and> n_commit_index (apply_loop fuel E n) = c \<and>
    (n_stopped (apply_loop fuel E n) \<or> n_last_applied (apply_loop fuel E n) = c \<or>
     log_find L (n_last_applied (apply_loop fuel E n) + 1) = None)"
  using assms
proof (induction fuel arbitrary: n)
  case 0
  then have "n_last_applied n = c" by (metis eq_iff_diff_eq_0 le_zero_eq unat_eq_0)
  then show ?case using 0 by (simp add: apply_ready_def)
next
  case (Suc fuel)
  have c: "n_commit_index n = c" "n_last_applied n \<le> c" "invar (n_store n)" using Suc.prems(2) by (simp_all add: apply_ready_def)
  show ?case
  proof (cases "n_last_applied n < c")
    case True
    obtain go n' where b: "apply_batch E n = (go, n')" by fastforce
    have few: "length (stored_entries (env_storage E) (n_store n) i k) \<le> k" for i k
      using entries_range [OF c(3)] by simp
    note run = apply_batch_run [OF Suc.prems(1,2) True b]
    have c': "n_commit_index n' = c" using apply_batch_progress [OF b _ few] True c by simp
    show ?thesis
    proof (cases go)
      case go: True
      have "unat (c - n_last_applied n') \<le> fuel"
        using apply_batch_indexes [OF b _ few go] True c(1) c' Suc.prems(3) by simp
      from Suc.IH [OF _ _ this] run go show ?thesis using b True c(1) by simp
    next
      case False
      then show ?thesis using run b True c(1) c' by auto
    qed
  next
    case False
    then show ?thesis using Suc.prems(1) c by simp
  qed
qed

end

lemma recording_history:
  assumes "raft_store (env_storage E) view invar" and "env_machine E = recording M"
  shows "node_history E view invar snd"
  using assms by (auto simp: node_history_def node_store_def node_history_axioms_def recording_def split: prod.splits)

interpretation mem_history: node_history "mem_env (recording M) t" ms_view ms_wf snd for M t
  by (rule recording_history [of _ _ _ M]) (simp_all add: mem.raft_store_axioms mem_env_def)


subsection \<open>Properties\<close>

definition logged :: "log_index \<Rightarrow> log_entry" where
  "logged i = default_log_entry\<lparr>le_index := i, le_term := 1\<rparr>"

definition idle_machine :: "unit state_machine" where
  "idle_machine = base_state_machine (\<lambda>e m. (None, m))"

definition logging_env :: "(memory_store, unit \<times> log_entry list) raft_env" where
  "logging_env = mem_env (recording idle_machine) 0"

text \<open>A node in term 1 with three entries of which \<open>c\<close> are committed and none is applied.\<close>

definition logging_node :: "log_index \<Rightarrow> (memory_store, unit \<times> log_entry list) raft_node" where
  "logging_node c =
     (case mk_raft_node logging_env example_cfg
         (Some (empty_memory_store\<lparr>ms_entries := map logged [1, 2, 3],
            ms_state := default_hard_state\<lparr>current_term := 1, commit_index := c\<rparr>\<rparr>)) (Some ((), [])) of
        Inr n \<Rightarrow> n)"

text \<open>
  C5: Applying committed entries hands the state machine exactly the commands and configurations of the log
  between the old and the new applied index, in the order of the log and each once; the indexes in between are
  all there. The applied index ends at the commit index unless the node stopped (the machine or the storage
  failed) or the log has no entry there. This holds over every storage that keeps the storage contract.
\<close>

theorem committed_entries_applied_once:
  assumes store: "raft_store (env_storage E) view invar" "invar (n_store n)" and machine: "env_machine E = recording M"
    and run: "\<not> n_stopped n" and fsm: "fc_machine (n_fsm n) = Some (m, past)"
    and idx: "fc_last_applied (n_fsm n) = n_last_applied n" "n_last_applied n \<le> n_commit_index n"
      "n_commit_index n \<le> view_last (view (n_store n))"
    and room: "log_room (unat (n_commit_index n) - unat (n_last_applied n)) (view (n_store n))"
  shows "let n' = apply_committed E n; log = sv_entries (view (n_store n));
      es = filter (\<lambda>e. n_last_applied n < le_index e \<and> le_index e \<le> n_last_applied n') log
    in (\<exists>m'. fc_machine (n_fsm n') = Some (m', past @ filter applies es)) \<and>
       map (unat \<circ> le_index) es = [Suc (unat (n_last_applied n))..<Suc (unat (n_last_applied n'))] \<and>
       (n_stopped n' \<or> n_last_applied n' = n_commit_index n \<or> log_find log (n_last_applied n' + 1) = None)"
proof -
  let ?L = "sv_entries (view (n_store n))" and ?a = "n_last_applied n"
  have "span ?a ?a ?L = []" by (auto simp: span_def filter_empty_conv)
  then have ok: "applied_ok snd ?L ?a past n" using fsm by (simp add: applied_ok_def history_def)
  have ready: "apply_ready view invar ?L (n_commit_index n) n"
    using run idx room store(2) by (simp add: apply_ready_def)
  have "apply_committed E n = apply_loop (unat (n_commit_index n - ?a)) E n"
    using run by (simp add: apply_committed_def)
  with node_history.apply_loop_run [OF recording_history [OF store(1) machine] ok ready order_refl]
  show ?thesis by (auto simp: Let_def applied_ok_def history_def span_def)
qed

theorem committed_entries_applied_once_witness:
  "let n' = apply_committed logging_env (logging_node 2)
   in n_last_applied n' = 2 \<and> (\<exists>m'. fc_machine (n_fsm n') = Some (m', map logged [1, 2])) \<and>
      map (unat \<circ> le_index) (map logged [1, 2]) = [1..<3]"
proof -
  let ?n = "logging_node 2"
  have h: "ms_wf (n_store ?n)" "\<not> n_stopped ?n" "fc_machine (n_fsm ?n) = Some ((), [])"
    "fc_last_applied (n_fsm ?n) = n_last_applied ?n" "n_last_applied ?n \<le> n_commit_index ?n"
    "n_commit_index ?n \<le> view_last (ms_view (n_store ?n))" "n_last_applied ?n = 0" "n_commit_index ?n = 2"
    "sv_entries (ms_view (n_store ?n)) = map logged [1, 2, 3]" "last_included_index (sv_snap (ms_view (n_store ?n))) = 0"
    by code_simp+
  have st: "raft_store (env_storage logging_env) ms_view ms_wf" "env_machine logging_env = recording idle_machine"
    by (simp_all add: logging_env_def mem_env_def mem.raft_store_axioms)
  have "log_room (unat (n_commit_index ?n) - unat (n_last_applied ?n)) (ms_view (n_store ?n))"
    using h by (simp add: log_room_def view_last_def logged_def)
  note once = committed_entries_applied_once [OF st(1) h(1) st(2) h(2-6) this]
  have "n_last_applied (apply_committed logging_env ?n) = 2" by code_simp
  note la = this
  have es: "filter (\<lambda>e. n_last_applied ?n < le_index e \<and> le_index e \<le> 2) (sv_entries (ms_view (n_store ?n))) =
      map logged [1, 2]" using h(7,9) by (simp add: logged_def)
  have ap: "filter applies (map logged [1, 2]) = map logged [1, 2]" by code_simp
  have "[Suc (unat (n_last_applied ?n))..<Suc (unat (2 :: log_index))] = [1..<3]" using h(7) by simp
  with once la show ?thesis unfolding Let_def la es ap by simp
qed

text \<open>
  C15: The loop that applies committed entries ends. Over every storage that returns at most as many entries as
  it is asked for, the \<open>while\<close> loop of a running node, in which a round either leaves the loop or goes on,
  returns, whatever the log and the state machine do; what it returns is the result of \<open>apply_committed\<close>.
\<close>

theorem apply_committed_terminates:
  assumes "\<And>s i k. length (stored_entries (env_storage E) s i k) \<le> k" and "\<not> n_stopped n"
  shows "apply_while E n = Some (apply_committed E n)"
  using apply_while_loop [OF assms(1) order_refl] assms(2) by (simp add: apply_committed_def)

theorem apply_committed_terminates_witness:
  "\<exists>n'. apply_while logging_env (logging_node 2) = Some n' \<and> n_last_applied n' = 2"
proof -
  have "length (stored_entries (env_storage logging_env) s i k) \<le> k" for s i k
    by (simp add: logging_env_def mem_env_def memory_store_ops_def ms_entries_range_def Let_def)
  moreover have "\<not> n_stopped (logging_node 2)"
    and "n_last_applied (apply_committed logging_env (logging_node 2)) = 2" by code_simp+
  ultimately show ?thesis using apply_committed_terminates by blast
qed

text \<open>
  C6: A leader advances its commit index to the greatest index of its log that it has replicated to a quorum of
  its configuration and whose entry is of its own term; if there is none, nothing changes.
\<close>

theorem advance_commit_index_greatest:
  assumes "\<not> n_stopped n"
  shows "(\<nexists>i. n_commit_index n < i \<and> i \<le> n_last_log_index E n \<and> committable E n i) \<and>
      advance_commit_index E n = n \<or>
    (\<exists>i. n_commit_index n < i \<and> i \<le> n_last_log_index E n \<and> committable E n i \<and>
      (\<forall>j. j \<le> n_last_log_index E n \<and> committable E n j \<longrightarrow> j \<le> i) \<and>
      advance_commit_index E n = commit_to E i n)"
  using advance_loop_greatest [of E "n_last_log_index E n" n, OF refl] assms by (simp add: advance_commit_index_def)

definition replicating_leader :: "(memory_store, unit \<times> log_entry list) raft_node" where
  "replicating_leader = (logging_node 0)\<lparr>n_role := leader,
     n_progress := map (\<lambda>(v, i). (v, \<lparr>next_index = i + 1, match_index = i, pending_snapshot = 0, pp_state = replicate,
       recent_active = True, inflight = \<lparr>iw_capacity = 8, iw_entries = []\<rparr>\<rparr>)) [(''a'', 3), (''b'', 2), (''c'', 1)]\<rparr>"

theorem advance_commit_index_greatest_witness:
  "advance_commit_index logging_env replicating_leader = commit_to logging_env 2 replicating_leader"
proof -
  let ?n = replicating_leader
  have f: "\<not> n_stopped ?n" "n_commit_index ?n = 0" "n_last_log_index logging_env ?n = 3"
    "committable logging_env ?n 2" "\<not> committable logging_env ?n 3"
    unfolding committable_iff by code_simp+
  from advance_commit_index_greatest [OF f(1), of logging_env] f obtain i where
    i: "i \<le> 3" "committable logging_env ?n i" "2 \<le> i" "advance_commit_index logging_env ?n = commit_to logging_env i ?n"
    by auto
  have "unat i = unat (2 :: log_index) \<or> unat i = unat (3 :: log_index)"
    using i(1,3) by (auto simp: word_le_nat_alt)
  then have "i = 2 \<or> i = 3" by (simp only: word_unat_eq_iff)
  then have "i = 2" using i(2) f(5) by auto
  then show ?thesis using i(4) by simp
qed


subsection \<open>Committed entries that are lost\<close>

lemma apply_batch_commit: "n_commit_index (snd (apply_batch E n)) = n_commit_index n"
proof -
  have one: "n_commit_index (snd (apply_one E e m)) = n_commit_index m" for e and m :: "('a, 'b) raft_node"
    using apply_one_indexes(1) [of E e m] by (metis prod.collapse)
  have all: "n_commit_index (snd (apply_all E es m)) = n_commit_index m" for es and m :: "('a, 'b) raft_node"
    using apply_all_indexes [of E es m] by (metis prod.collapse)
  show ?thesis by (simp add: apply_batch_def Let_def one all split: option.split)
qed

lemma apply_loop_commit: "n_commit_index (apply_loop fuel E n) = n_commit_index n"
proof (induction fuel arbitrary: n)
  case (Suc fuel)
  then show ?case using apply_batch_commit [of E n] by (auto split: prod.split bool.split)
qed simp

lemma commit_to_commit [simp]: "n_commit_index (commit_to E i n) = i"
  by (simp add: commit_to_def apply_committed_def apply_loop_commit set_commit_index_def)

text \<open>What an accepted append does to the commit index.\<close>

lemma append_accepted_commit:
  assumes store: "raft_store (env_storage E) view invar" "invar (n_store n)" and strict: "strict_log (ae_entries req)"
    and run: "append_accepted E req n = (resp, n')" and ok: "aer_success resp"
  shows "aer_match_index resp = (if ae_entries req = [] then ae_prev_log_index req
        else max (ae_prev_log_index req) (le_index (last (ae_entries req)))) \<and>
    n_commit_index n' = (if n_commit_index n < ae_leader_commit req
        then min (ae_leader_commit req) (view_last (log_merge (ae_entries req) (view (n_store n))))
        else n_commit_index n)"
proof -
  let ?S = "env_storage E" and ?prev = "ae_prev_log_index req" and ?t = "ae_prev_log_term req"
  obtain res s where app: "append_from_leader ?S ?prev ?t (ae_entries req) (n_store n) = (res, s)" by fastforce
  obtain r where r: "res = Inr r" "ar_success r"
    using run ok app by (cases res) (auto simp: append_accepted_def append_refusal_def Let_def split: if_splits)
  have "log_match ?S (n_store n) ?prev ?t"
    using app r by (auto simp: append_from_leader_def conflict_result_def Let_def split: if_splits)
  then have "view_term (view (n_store n)) ?prev = ?t"
    using raft_store.term_lookup [OF store] by (simp add: log_match_def)
  note merge = raft_store.append_from_leader_merge [OF store strict this app, unfolded r sum.case]
  have "n_last_log_index E (n\<lparr>n_store := s\<rparr>) = view_last (log_merge (ae_entries req) (view (n_store n)))"
    using merge raft_store.last_index [OF store(1)] by simp
  then show ?thesis
    using run r merge app by (auto simp: append_accepted_def Let_def)
qed

lemma append_entries_accepted:
  assumes "handle_append_entries E req n = (resp, n')" and "aer_success resp"
  obtains m where "append_accepted E req m = (resp, n')" "n_commit_index m = n_commit_index n"
    "n_store m = n_store n \<or> n_store m = n_store (step_down E (ae_term req) n)"
proof -
  define n1 where "n1 = (if ae_term req > n_term n \<or> n_role n \<noteq> follower then step_down E (ae_term req) n else n)"
  let ?m = "reset_election_deadline E (n1\<lparr>n_leader_id := ae_leader_id req\<rparr>)"
  have "append_accepted E req ?m = (resp, n')"
    using assms by (auto simp: handle_append_entries_def append_refusal_def n1_def Let_def split: if_splits)
  then show ?thesis by (rule that) (simp_all add: n1_def)
qed

text \<open>A follower of \<open>b\<close> in term 1, given commands one to an entry.\<close>

definition from_b :: "term_t \<Rightarrow> log_index \<Rightarrow> term_t \<Rightarrow> (term_t \<times> string) list \<Rightarrow> log_index \<Rightarrow>
    append_entries_request" where
  "from_b t prev prev_term cmds c =
     default_append_entries_request\<lparr>ae_term := t, ae_leader_id := ''b'', ae_prev_log_index := prev,
       ae_prev_log_term := prev_term, ae_leader_commit := c,
       ae_entries := map (\<lambda>(k, et, cmd). default_log_entry\<lparr>le_index := prev + of_nat k, le_term := et, le_command := cmd\<rparr>)
         (enumerate 1 cmds)\<rparr>"

text \<open>
  C34: The commit index a follower takes from an accepted append is the smaller of the leader's commit index and
  the last index of its own log, not of the entries the request has matched. So when all entries sent are in
  the log already, which goes on behind them, and the leader's commit index is not below its end, the follower
  commits entries behind the match index it reports, which the leader has not vouched for. This holds over every
  storage that keeps the storage contract.
\<close>

theorem unmatched_entry_committed:
  assumes "raft_store (env_storage E) view invar" and "invar (n_store n)" and "strict_log (ae_entries req)"
    and "handle_append_entries E req n = (resp, n')" and "aer_success resp"
  shows "n_commit_index n' = (if n_commit_index n < ae_leader_commit req
        then min (ae_leader_commit req) (view_last (log_merge (ae_entries req) (view (n_store n))))
        else n_commit_index n) \<and>
    ((\<forall>e \<in> set (ae_entries req). entry_agrees (view (n_store n)) e) \<and>
     aer_match_index resp < view_last (view (n_store n)) \<and> view_last (view (n_store n)) \<le> ae_leader_commit req \<and>
     n_commit_index n < ae_leader_commit req \<longrightarrow>
       n_commit_index n' = view_last (view (n_store n)) \<and> aer_match_index resp < n_commit_index n')"
proof -
  obtain m where m: "append_accepted E req m = (resp, n')" "n_commit_index m = n_commit_index n"
    "n_store m = n_store n \<or> n_store m = n_store (step_down E (ae_term req) n)"
    using append_entries_accepted [OF assms(4,5)] .
  have "node_store E view invar" using assms(1) by (simp add: node_store_def)
  note down = node_store.step_down_view [OF this assms(2), of "ae_term req"]
  have inv: "invar (n_store m)"
    and log: "sv_entries (view (n_store m)) = sv_entries (view (n_store n))"
      "sv_snap (view (n_store m)) = sv_snap (view (n_store n))"
    using m(3) down assms(2) by auto
  have terms: "view_term (view (n_store m)) = view_term (view (n_store n))"
    by (simp add: fun_eq_iff view_term_def log)
  have "entry_agrees (view (n_store m)) = entry_agrees (view (n_store n))"
    by (simp add: fun_eq_iff entry_agrees_def log terms)
  then have "view_last (log_merge (ae_entries req) (view (n_store m))) =
      view_last (log_merge (ae_entries req) (view (n_store n)))"
    by (auto simp: log_merge_def Let_def view_last_def view_append_def log)
  moreover have "log_merge (ae_entries req) (view (n_store n)) = view (n_store n)"
    if "\<forall>e \<in> set (ae_entries req). entry_agrees (view (n_store n)) e"
    using that by (simp add: log_merge_def)
  ultimately show ?thesis
    using append_accepted_commit [OF assms(1) inv assms(3) m(1) assms(5)] m(2) by auto
qed

theorem unmatched_entry_committed_witness:
  "let n1 = snd (handle_append_entries example_env (from_b 1 0 0 [(1, ''x''), (1, ''y''), (1, ''old'')] 1) example_node);
       (resp, n2) = handle_append_entries example_env (from_b 2 1 1 [(1, ''y'')] 3) n1
   in aer_match_index resp = 2 \<and> n_commit_index n2 = 3 \<and> fc_machine (n_fsm n2) = Some [''x'', ''y'', ''old'']"
proof -
  define n1 where "n1 = snd (handle_append_entries example_env
    (from_b 1 0 0 [(1, ''x''), (1, ''y''), (1, ''old'')] 1) example_node)"
  define req where "req = from_b 2 1 1 [(1, ''y'')] 3"
  define resp where "resp = fst (handle_append_entries example_env req n1)"
  define n2 where "n2 = snd (handle_append_entries example_env req n1)"
  note defs = n2_def resp_def req_def n1_def
  have run: "handle_append_entries example_env req n1 = (resp, n2)" by (simp add: resp_def n2_def)
  have st: "raft_store (env_storage example_env) ms_view ms_wf"
    using mem.raft_store_axioms by (simp add: example_env_def)
  have facts: "ms_wf (n_store n1)" "strict_log (ae_entries req)" "aer_success resp" "aer_match_index resp = 2"
    "view_last (ms_view (n_store n1)) = 3" "ae_leader_commit req = 3" "n_commit_index n1 < 3"
    "list_all (entry_agrees (ms_view (n_store n1))) (ae_entries req)"
    "fc_machine (n_fsm n2) = Some [''x'', ''y'', ''old'']"
    unfolding defs by code_simp+
  have "n_commit_index n2 = 3"
    using unmatched_entry_committed [OF st facts(1,2) run facts(3)] facts(4-8) by (auto simp: list_all_iff)
  then show ?thesis
    using facts unfolding defs by (simp add: Let_def case_prod_beta)
qed

text \<open>What an accepted snapshot does; a node that is not a leader keeps its state machine when it steps down.\<close>

lemma follower_stop_fsm: "n_role n \<noteq> leader \<Longrightarrow> n_fsm (stop E err n) = n_fsm n"
  by (simp add: stop_def)

lemma follower_persist_fsm: "n_role n \<noteq> leader \<Longrightarrow> n_fsm (persist E n) = n_fsm n"
  by (simp add: persist_def follower_stop_fsm split: prod.split option.split)

lemma follower_step_down:
  assumes "n_role n \<noteq> leader" and "\<not> n_stopped n"
  shows "n_fsm (step_down E t n) = n_fsm n" "n_role (step_down E t n) = follower"
proof -
  have "n_role (persist E k) = follower" if "n_role k = follower" for k :: "('a, 'b) raft_node"
    using that by (simp add: persist_def stop_def split: prod.split option.split)
  then show "n_fsm (step_down E t n) = n_fsm n" "n_role (step_down E t n) = follower"
    using assms by (simp_all add: step_down_def Let_def follower_persist_fsm reset_election_deadline_def)
qed

lemma install_snapshot_accepted:
  assumes "handle_install_snapshot E req n = (resp, n')" and "isr_success resp" and "n_role n \<noteq> leader"
  obtains k where "install_accepted E req k = (resp, n')" "n_last_applied k = n_last_applied n"
    "n_commit_index k = n_commit_index n" "n_fsm k = n_fsm n" "n_role k = follower"
    "n_store k = n_store n \<or> n_store k = n_store (step_down E (is_term req) n)"
proof -
  define n1 where "n1 = (if is_term req > n_term n \<or> n_role n \<noteq> follower then step_down E (is_term req) n else n)"
  let ?k = "reset_election_deadline E (n1\<lparr>n_leader_id := is_leader_id req\<rparr>)"
  have run: "install_accepted E req ?k = (resp, n')" "\<not> n_stopped n"
    using assms(1,2) by (auto simp: handle_install_snapshot_def snapshot_answer_def n1_def Let_def split: if_splits)
  have "n_fsm ?k = n_fsm n1" by (simp add: reset_election_deadline_def)
  then show ?thesis
    using run follower_step_down [OF assms(3) run(2)] by (intro that [of ?k]) (simp_all add: n1_def)
qed

lemma install_accepted_effect:
  assumes store: "raft_store (env_storage E) view invar" "invar (n_store k)" and role: "n_role k = follower"
    and run: "install_accepted E req k = (resp, n')" and ok: "isr_success resp"
  shows "\<exists>md. last_included_index md = last_included_index (is_metadata req) \<and>
    n_fsm n' = snd (load_snapshot (env_machine E) \<lparr>sr_metadata = md, sr_uri = is_uri req\<rparr> (n_fsm k)) \<and>
    n_last_applied n' = max (n_last_applied k) (last_included_index md) \<and>
    n_commit_index n' = max (n_commit_index k) (last_included_index md) \<and>
    sv_entries (view (n_store n')) = [] \<and> sv_snap (view (n_store n')) = md"
proof -
  define md where "md = (if is_uri req \<noteq> [] then (is_metadata req)\<lparr>sm_uri := is_uri req\<rparr> else is_metadata req)"
  obtain e c where l: "load_snapshot (env_machine E) \<lparr>sr_metadata = md, sr_uri = is_uri req\<rparr> (n_fsm k) = (e, c)"
    by fastforce
  obtain r s where rs: "restore_snapshot (env_storage E) md (n_store k) = (r, s)" by fastforce
  obtain x where x: "e = None" "r = Inr x" "ar_success x"
    using run ok l rs unfolding install_accepted_def md_def [symmetric] Let_def
    by (cases e; cases r) (auto simp: snapshot_answer_def split: if_splits)
  define n2 where "n2 = k\<lparr>n_fsm := c, n_store := s\<rparr>"
  define n3 where "n3 = (if cs_voters (sm_configuration md) \<noteq> []
    then n2\<lparr>n_conf := mk_configuration (sm_configuration md)\<rparr> else n2)"
  define n4 where "n4 = n3\<lparr>n_state := (n_state n3)
    \<lparr>commit_index := max (n_commit_index n3) (last_included_index md),
     last_applied := max (n_last_applied n3) (last_included_index md)\<rparr>\<rparr>"
  have n': "n' = persist E n4"
    using run l rs x unfolding install_accepted_def md_def [symmetric] Let_def n4_def n3_def n2_def by simp
  have n4: "n_store n4 = s" "n_fsm n4 = c" "n_role n4 = follower"
    "n_last_applied n4 = max (n_last_applied k) (last_included_index md)"
    "n_commit_index n4 = max (n_commit_index k) (last_included_index md)"
    using role by (simp_all add: n4_def n3_def n2_def)
  have "reset_to_snapshot (env_storage E) md (n_store k) = (None, s)"
    using rs x by (auto simp: restore_snapshot_def default_append_result_def split: if_splits prod.splits option.splits)
  then have s: "invar s" "view s = view_reset md (view (n_store k))"
    using raft_store.reset_snap [OF store, of md] by (simp_all add: writes_def)
  have "node_store E view invar" using store(1) by (simp add: node_store_def)
  note p = node_store.persist_view [OF this, of n4, unfolded n4(1), OF s(1)]
  have "last_included_index md = last_included_index (is_metadata req)" by (simp add: md_def)
  then show ?thesis
    using p s(2) n4 l x follower_persist_fsm [of n4 E]
    by (intro exI [of _ md]) (simp add: n' view_reset_def)
qed

definition old_snapshot :: install_snapshot_request where
  "old_snapshot = default_install_snapshot_request\<lparr>is_term := 1, is_leader_id := ''b'',
     is_metadata := default_snapshot_metadata\<lparr>last_included_index := 1, last_included_term := 1\<rparr>,
     is_uri := ''snapshot-1''\<rparr>"

text \<open>A machine whose snapshots hold the commands applied when they were taken.\<close>

definition snapshot_machine :: "string list state_machine" where
  "snapshot_machine = recording_machine
     \<lparr>sm_load_snapshot := (\<lambda>r m. (Inr None, if sr_uri r = ''snapshot-1'' then [''x''] else m))\<rparr>"

text \<open>
  C35: A snapshot request that is late takes applied entries back. A node that is not a leader and accepts a
  snapshot up to an index it has already applied loads it into its state machine, whose state is then the one
  the snapshot holds, and clears its log, but keeps its applied and its commit index: the entries behind the
  snapshot are neither in the state of the machine nor in the log, and the next entry to apply is the one
  behind the old applied index. This holds over every storage that keeps the storage contract.
\<close>

theorem late_snapshot_loses_commands:
  assumes "raft_store (env_storage E) view invar" and "invar (n_store n)" and "n_role n \<noteq> leader"
    and "handle_install_snapshot E req n = (resp, n')" and "isr_success resp"
    and "fc_machine (n_fsm n) = Some m" and "last_included_index (is_metadata req) \<le> n_last_applied n"
    and "n_last_applied n \<le> n_commit_index n"
  shows "n_last_applied n' = n_last_applied n \<and> n_commit_index n' = n_commit_index n \<and>
    sv_entries (view (n_store n')) = [] \<and>
    last_included_index (sv_snap (view (n_store n'))) = last_included_index (is_metadata req) \<and>
    (\<exists>md. fc_machine (n_fsm n') = Some (snd (sm_load_snapshot (env_machine E)
       \<lparr>sr_metadata = md, sr_uri = is_uri req\<rparr> m)) \<and>
       last_included_index md = last_included_index (is_metadata req))"
proof -
  obtain k where k: "install_accepted E req k = (resp, n')" "n_last_applied k = n_last_applied n"
    "n_commit_index k = n_commit_index n" "n_fsm k = n_fsm n" "n_role k = follower"
    "n_store k = n_store n \<or> n_store k = n_store (step_down E (is_term req) n)"
    using install_snapshot_accepted [OF assms(4,5,3)] .
  have ns: "node_store E view invar" using assms(1) by (simp add: node_store_def)
  have inv: "invar (n_store k)"
    using k(6) node_store.step_down_view(1) [OF ns assms(2)] assms(2) by auto
  have "max (n_last_applied n) (last_included_index (is_metadata req)) = n_last_applied n"
    "max (n_commit_index n) (last_included_index (is_metadata req)) = n_commit_index n"
    using assms(7,8) by (simp_all add: max_absorb1)
  moreover obtain md where md: "last_included_index md = last_included_index (is_metadata req)"
    "n_fsm n' = snd (load_snapshot (env_machine E) \<lparr>sr_metadata = md, sr_uri = is_uri req\<rparr> (n_fsm k))"
    "n_last_applied n' = max (n_last_applied k) (last_included_index md)"
    "n_commit_index n' = max (n_commit_index k) (last_included_index md)"
    "sv_entries (view (n_store n')) = []" "sv_snap (view (n_store n')) = md"
    using install_accepted_effect [OF assms(1) inv k(5) k(1) assms(5)] by blast
  moreover have "fc_machine (n_fsm n') = Some (snd (sm_load_snapshot (env_machine E)
      \<lparr>sr_metadata = md, sr_uri = is_uri req\<rparr> m))"
    using md(2) k(4) assms(6) by (auto simp: load_snapshot_def Let_def split: prod.split sum.split)
  ultimately show ?thesis using k(2,3) by auto
qed

theorem late_snapshot_loses_commands_witness:
  "let E = mem_env snapshot_machine 1000;
       n1 = snd (handle_append_entries E (from_b 1 0 0 [(1, ''x''), (1, ''y''), (1, ''z'')] 3) example_node);
       n2 = snd (handle_install_snapshot E old_snapshot n1)
   in fc_machine (n_fsm n1) = Some [''x'', ''y'', ''z''] \<and> n_last_applied n1 = 3 \<and>
      fc_machine (n_fsm n2) = Some [''x''] \<and> n_last_applied n2 = 3 \<and> ms_entries (n_store n2) = []"
proof -
  let ?E = "mem_env snapshot_machine 1000"
  define n1 where "n1 = snd (handle_append_entries ?E (from_b 1 0 0 [(1, ''x''), (1, ''y''), (1, ''z'')] 3) example_node)"
  define resp where "resp = fst (handle_install_snapshot ?E old_snapshot n1)"
  define n2 where "n2 = snd (handle_install_snapshot ?E old_snapshot n1)"
  have run: "handle_install_snapshot ?E old_snapshot n1 = (resp, n2)" by (simp add: resp_def n2_def)
  have st: "raft_store (env_storage ?E) ms_view ms_wf" using mem.raft_store_axioms by simp
  have facts: "ms_wf (n_store n1)" "n_role n1 \<noteq> leader" "isr_success resp"
    "fc_machine (n_fsm n1) = Some [''x'', ''y'', ''z'']"
    "last_included_index (is_metadata old_snapshot) \<le> n_last_applied n1" "n_last_applied n1 \<le> n_commit_index n1"
    "n_last_applied n1 = 3"
    unfolding resp_def n1_def by code_simp+
  have "fc_machine (n_fsm n2) = Some [''x'']" "n_last_applied n2 = 3" "ms_entries (n_store n2) = []"
    using late_snapshot_loses_commands [OF st facts(1,2) run facts(3-6)] facts(7)
    by (auto simp: mem_env_def snapshot_machine_def old_snapshot_def ms_view_def)
  then show ?thesis using facts unfolding n2_def n1_def by (simp add: Let_def)
qed

text \<open>
  C36: A leader that makes itself the only new voter commits the entry of the joint configuration alone. Over any
  storage and whatever the other nodes have replicated, if it enters the joint configuration, the entry it
  appends is committed at once, although the leader alone is no quorum of that configuration, which asks for a
  majority of the old voters too.
\<close>

theorem joint_entry_committed_alone:
  assumes "conf_wf (n_conf n)" and "cs_voters (n_conf n) \<noteq> []" and "\<not> has_quorum (n_conf n) {n_id n}"
    and "enter_joint_configuration E [n_id n] n = (Inr entry, n')"
  shows "le_type entry = configuration_entry \<and> n_commit_index n' = le_index entry \<and>
    \<not> has_quorum (le_configuration entry) {n_id n}"
proof -
  obtain J where J: "with_joint (n_conf n) [n_id n] = Inr J" "append_configuration E J n = (Inr entry, n')"
    using assms(4) by (auto simp: enter_joint_configuration_def split: if_splits sum.splits)
  have "n_id n \<noteq> []"
    using J(1) by (auto simp: with_joint_def normalized_def sort_unique_def Let_def split: if_splits)
  then have one: "cs_voters J = [n_id n]"
    using with_joint_result(1) [OF assms(1) J(1)] by (simp add: normalized_def sort_unique_def)
  then have "quorum_size J = 1" by (simp add: quorum_size_def majority_of_def)
  then have "n_commit_index n' = le_index entry" "entry = default_log_entry
      \<lparr>le_index := last_log_index (env_storage E) (n_store n) + 1, le_term := n_term n,
       le_type := configuration_entry, le_configuration := J\<rparr>"
    using J(2) by (auto simp: append_configuration_def log_append_configuration_def log_append_one_def
        self_replicated_def Let_def split: if_splits sum.splits prod.splits option.splits)
  moreover have "\<not> has_quorum J {n_id n}"
    using assms(2,3) with_joint_result(2,3) [OF assms(1) J(1)] by (auto simp: has_quorum_iff)
  ultimately show ?thesis by simp
qed

definition lone_leader :: "(memory_store, string list) raft_node" where
  "lone_leader = snd (handle_vote_response example_env ''b''
     (default_request_vote_response\<lparr>rvr_term := 1, rvr_vote_granted := True\<rparr>)
     (snd (begin_election example_env example_node)))"

theorem joint_entry_committed_alone_witness:
  "\<exists>entry n'. enter_joint_configuration example_env [''a''] lone_leader = (Inr entry, n') \<and>
     n_commit_index lone_leader = 0 \<and> n_commit_index n' = 2 \<and> \<not> has_quorum (le_configuration entry) {''a''}"
proof -
  define r where "r = enter_joint_configuration example_env [''a''] lone_leader"
  have facts: "cs_voters (n_conf lone_leader) \<noteq> []" "\<not> has_quorum (n_conf lone_leader) {''a''}"
    "n_id lone_leader = ''a''" "\<not> isl (fst r)" "n_commit_index lone_leader = 0"
    "map_sum id le_index (fst r) = Inr 2" "n_conf lone_leader = mk_configuration (n_conf lone_leader)"
    unfolding r_def by code_simp+
  have wf: "conf_wf (n_conf lone_leader)" by (subst facts(7)) (simp add: mk_configuration_wf)
  obtain entry n' where r: "r = (Inr entry, n')" "le_index entry = 2"
    using facts(4,6) by (cases r; cases "fst r") auto
  from joint_entry_committed_alone [OF wf facts(1), of example_env entry n'] facts r show ?thesis
    by (auto simp: r_def)
qed

end
