(* ===== verification/Byte_Codec.thy ===== *)
theory Byte_Codec
  imports Prelude
begin

text \<open>
  What the binary codecs of the repository share. A function \<open>put_x(out, v)\<close> that appends to a buffer
  becomes the bytes it appends, or the exception it throws; \<open>put_seq\<close> runs such functions one after the
  other. A function \<open>get_x(in, pos)\<close> that reads at a position and advances it becomes a \<open>getter\<close>, which
  returns the value and the new position, or the exception (or, as an \<open>egetter\<close>, another kind of error). \<open>reads g e x\<close> says that \<open>g\<close>, started where
  the bytes \<open>e\<close> begin in any buffer, returns \<open>x\<close> and stops where they end: it is the invariant from which
  the round trips are composed, one field at a time.
\<close>

unbundle bit_operations_syntax


subsection \<open>Bytes of characters\<close>

definition byte_of_char :: "char \<Rightarrow> byte" where
  "byte_of_char c = of_nat (of_char c)"

definition char_of_byte :: "byte \<Rightarrow> char" where
  "char_of_byte b = char_of (unat b)"

lemma char_of_byte_of_char [simp]: "char_of_byte (byte_of_char c) = c"
proof -
  have "of_char c < (256 :: nat)" by simp
  then have "unat (of_nat (of_char c) :: byte) = of_char c"
    by (simp add: unat_of_nat)
  then show ?thesis by (simp add: char_of_byte_def byte_of_char_def)
qed

lemma byte_of_char_of_byte [simp]: "byte_of_char (char_of_byte b) = b"
proof -
  have "unat b < 256" using unsigned_less [of b, where ?'a = nat] by simp
  then show ?thesis by (simp add: byte_of_char_def char_of_byte_def)
qed

definition bytes_of_string :: "string \<Rightarrow> bytes" where
  "bytes_of_string s = map byte_of_char s"

definition string_of_bytes :: "bytes \<Rightarrow> string" where
  "string_of_bytes bs = map char_of_byte bs"

lemma string_of_bytes_of_string [simp]: "string_of_bytes (bytes_of_string s) = s"
  by (simp add: string_of_bytes_def bytes_of_string_def comp_def)

lemma bytes_of_string_of_bytes [simp]: "bytes_of_string (string_of_bytes bs) = bs"
  by (simp add: string_of_bytes_def bytes_of_string_def comp_def)

lemma length_string_bytes [simp]:
  "length (bytes_of_string s) = length s" "length (string_of_bytes bs) = length bs"
  by (simp_all add: string_of_bytes_def bytes_of_string_def)


subsection \<open>Words as bytes\<close>

definition be_bytes :: "nat \<Rightarrow> 'a::len word \<Rightarrow> bytes" where
  "be_bytes k v = map (\<lambda>i. ucast (drop_bit (8 * i) v)) (rev [0..<k])"

definition be_value :: "bytes \<Rightarrow> 'a::len word" where
  "be_value bs = foldl (\<lambda>v b. push_bit 8 v OR ucast b) 0 bs"

definition le_bytes :: "nat \<Rightarrow> 'a::len word \<Rightarrow> bytes" where
  "le_bytes k v = map (\<lambda>i. ucast (drop_bit (8 * i) v)) [0..<k]"

definition le_value :: "bytes \<Rightarrow> 'a::len word" where
  "le_value bs = be_value (rev bs)"

lemma length_be_bytes [simp]: "length (be_bytes k v) = k"
  by (simp add: be_bytes_def)

lemma length_le_bytes [simp]: "length (le_bytes k v) = k"
  by (simp add: le_bytes_def)

lemma le_bytes_rev: "le_bytes k v = rev (be_bytes k v)"
  by (simp add: le_bytes_def be_bytes_def rev_map)

lemma ff_mask: "(0xff :: 'a::len word) = mask 8"
  by (simp add: mask_eq_exp_minus_1)

lemma ucast_mask_byte [simp]: "ucast (v AND 0xff) = (ucast v :: byte)" for v :: "'a::len word"
  unfolding ff_mask by (rule bit_word_eqI) (auto simp: bit_simps dest: bit_imp_le_length)

lemma ucast_ucast_byte: "ucast (ucast x :: byte) = take_bit 8 x" for x :: "'a::len word"
  by (rule bit_word_eqI) (auto simp: bit_simps)

lemma be_bytes_Suc: "be_bytes (Suc k) v = ucast (drop_bit (8 * k) v) # be_bytes k v"
  by (simp add: be_bytes_def)

lemma foldl_be_bytes:
  "foldl (\<lambda>v b. push_bit 8 v OR ucast b) acc (be_bytes k v) =
     (push_bit (8 * k) acc OR take_bit (8 * k) v :: 'a::len word)"
proof (induction k arbitrary: acc)
  case (Suc k)
  have "push_bit (8 * k) (push_bit 8 acc OR take_bit 8 (drop_bit (8 * k) v)) OR take_bit (8 * k) v =
      (push_bit (8 * Suc k) acc OR take_bit (8 * Suc k) v :: 'a word)"
    by (rule bit_word_eqI) (auto simp: bit_simps ac_simps)
  then show ?case
    by (simp add: be_bytes_Suc Suc.IH ucast_ucast_byte)
qed (simp add: be_bytes_def)

lemma be_value_be_bytes: "be_value (be_bytes k v) = (take_bit (8 * k) v :: 'a::len word)"
  by (simp add: be_value_def foldl_be_bytes)

lemma be_value_id [simp]: "LENGTH('a) \<le> 8 * k \<Longrightarrow> be_value (be_bytes k v) = (v :: 'a::len word)"
  by (simp add: be_value_be_bytes take_bit_word_eq_self)

lemma le_value_le_bytes: "le_value (le_bytes k v) = (take_bit (8 * k) v :: 'a::len word)"
  by (simp add: le_value_def le_bytes_rev be_value_be_bytes)

lemma le_value_id [simp]: "LENGTH('a) \<le> 8 * k \<Longrightarrow> le_value (le_bytes k v) = (v :: 'a::len word)"
  by (simp add: le_value_le_bytes take_bit_word_eq_self)

text \<open>Conversely, the bytes of the value of some bytes are these bytes.\<close>

lemma be_value_snoc: "be_value (bs @ [b]) = (push_bit 8 (be_value bs) OR ucast b :: 'a::len word)"
  by (simp add: be_value_def)

lemma be_bytes_snoc: "be_bytes (Suc k) v = be_bytes k (drop_bit 8 v) @ [ucast v]"
proof -
  have "rev [0..<Suc k] = map Suc (rev [0..<k]) @ [0]"
    by (simp add: rev_map map_Suc_upt [symmetric] upt_conv_Cons del: upt_Suc)
  then show ?thesis
    by (simp add: be_bytes_def comp_def add.commute)
qed

lemma be_bytes_be_value:
  "8 * length bs \<le> LENGTH('a) \<Longrightarrow> be_bytes (length bs) (be_value bs :: 'a::len word) = bs"
proof (induction bs rule: rev_induct)
  case (snoc b bs)
  let ?v = "be_value bs :: 'a word"
  have eq: "take_bit (8 * length bs) ?v = ?v"
    using snoc be_value_be_bytes [of "length bs" ?v] by simp
  have top: "n < 8 * length bs" if "bit ?v n" for n
  proof -
    have "bit (take_bit (8 * length bs) ?v) n" using that by (simp only: eq)
    then show ?thesis by (simp add: bit_take_bit_iff)
  qed
  have "drop_bit 8 (push_bit 8 ?v OR ucast b) = ?v"
  proof (rule bit_word_eqI)
    fix n assume "n < LENGTH('a)"
    then show "bit (drop_bit 8 (push_bit 8 ?v OR ucast b)) n = bit ?v n"
      using top [of n] snoc.prems by (auto simp: bit_simps ac_simps dest: bit_imp_le_length)
  qed
  moreover have "(ucast (push_bit 8 ?v OR ucast b) :: byte) = b"
    using snoc.prems by (intro bit_word_eqI) (auto simp: bit_simps)
  ultimately show ?case
    using snoc by (simp add: be_bytes_snoc be_value_snoc)
qed (simp add: be_bytes_def)


text \<open>The value of little-endian bytes, assembled from the low end.\<close>

lemma foldl_le_bytes:
  "foldl (\<lambda>v n. v OR push_bit (n * 8) (take_bit 8 (drop_bit (n * 8) x))) 0 [0..<k] =
     take_bit (8 * k) (x :: 'a::len word)"
proof (induction k)
  case (Suc k)
  have "take_bit (8 * k) x OR push_bit (k * 8) (take_bit 8 (drop_bit (k * 8) x)) =
      take_bit (8 * Suc k) x"
    by (rule bit_word_eqI) (auto simp: bit_simps ac_simps)
  with Suc show ?case by simp
qed simp

text \<open>A loop over the offsets of a field is a fold over its bytes.\<close>

lemma foldl_offsets:
  assumes "p + k \<le> length i"
  shows "foldl (\<lambda>v n. f v (i ! (p + n))) a [0..<k] = foldl f a (take k (drop p i))"
proof -
  have "take k (drop p i) = map (\<lambda>n. i ! (p + n)) [0..<k]"
    using assms by (intro nth_equalityI) auto
  then show ?thesis by (simp add: foldl_map)
qed


subsection \<open>Writers\<close>

fun put_seq :: "(exn + bytes) list \<Rightarrow> exn + bytes" where
  "put_seq [] = Inr []"
| "put_seq (Inl e # _) = Inl e"
| "put_seq (Inr a # ps) = (case put_seq ps of Inl e \<Rightarrow> Inl e | Inr b \<Rightarrow> Inr (a @ b))"

lemma put_seq_Cons_Inr:
  "put_seq (p # ps) = Inr e \<longleftrightarrow> (\<exists>a b. p = Inr a \<and> put_seq ps = Inr b \<and> e = a @ b)"
  by (cases p) (auto split: sum.split)

declare put_seq.simps(2,3) [simp del]

lemma put_seq_append_Inr:
  "put_seq (ps @ qs) = Inr e \<longleftrightarrow> (\<exists>a b. put_seq ps = Inr a \<and> put_seq qs = Inr b \<and> e = a @ b)"
  by (induction ps arbitrary: e) (auto simp: put_seq_Cons_Inr)


subsection \<open>Readers\<close>

type_synonym ('e, 'a) egetter = "bytes \<Rightarrow> nat \<Rightarrow> 'e + 'a \<times> nat"
type_synonym 'a getter = "(exn, 'a) egetter"

definition gret :: "'a \<Rightarrow> ('e, 'a) egetter" where
  "gret x i p = Inr (x, p)"

definition gbind :: "('e, 'a) egetter \<Rightarrow> ('a \<Rightarrow> ('e, 'b) egetter) \<Rightarrow> ('e, 'b) egetter" where
  "gbind g f i p = (case g i p of Inl e \<Rightarrow> Inl e | Inr (x, p') \<Rightarrow> f x i p')"

text \<open>A counted loop that pushes back what it reads.\<close>

primrec get_times :: "nat \<Rightarrow> ('e, 'a) egetter \<Rightarrow> ('e, 'a list) egetter" where
  "get_times 0 g = gret []"
| "get_times (Suc n) g = gbind g (\<lambda>x. gbind (get_times n g) (\<lambda>xs. gret (x # xs)))"

text \<open>Fields that older peers leave out: read only when input is left.\<close>

definition get_if_left :: "'a \<Rightarrow> ('e, 'a) egetter \<Rightarrow> ('e, 'a) egetter" where
  "get_if_left dflt g i p = (if p < length i then g i p else Inr (dflt, p))"

text \<open>\<open>reads_on P\<close> restricts the buffers to those that satisfy \<open>P\<close>, for readers that are right only up to
  some size of the buffer.\<close>

definition reads_on :: "(bytes \<Rightarrow> bool) \<Rightarrow> ('e, 'a) egetter \<Rightarrow> bytes \<Rightarrow> 'a \<Rightarrow> bool" where
  "reads_on P g e x \<longleftrightarrow> (\<forall>pre post. P (pre @ e @ post) \<longrightarrow>
     g (pre @ e @ post) (length pre) = Inr (x, length pre + length e))"

abbreviation reads :: "('e, 'a) egetter \<Rightarrow> bytes \<Rightarrow> 'a \<Rightarrow> bool" where
  "reads \<equiv> reads_on (\<lambda>_. True)"

lemma reads_ret [codec_simps, intro]: "reads_on P (gret x) [] x"
  by (simp add: reads_on_def gret_def)

lemma reads_bind [intro]:
  assumes "reads_on P g e x" and "reads_on P (f x) e' y"
  shows "reads_on P (gbind g f) (e @ e') y"
  unfolding reads_on_def
proof (intro allI impI)
  fix pre post
  assume P: "P (pre @ (e @ e') @ post)"
  have "P ((pre @ e) @ e' @ post) \<longrightarrow>
      f x ((pre @ e) @ e' @ post) (length (pre @ e)) = Inr (y, length (pre @ e) + length e')"
    using assms(2) unfolding reads_on_def by blast
  moreover have "P (pre @ e @ e' @ post) \<longrightarrow>
      g (pre @ e @ e' @ post) (length pre) = Inr (x, length pre + length e)"
    using assms(1) unfolding reads_on_def by (metis append.assoc)
  ultimately show "gbind g f (pre @ (e @ e') @ post) (length pre) =
      Inr (y, length pre + length (e @ e'))"
    using P by (simp add: gbind_def add.assoc)
qed

lemma reads_map [intro]:
  assumes "reads_on P g e x" and "y = f x"
  shows "reads_on P (gbind g (\<lambda>x. gret (f x))) e y"
  using reads_bind [OF assms(1), of "\<lambda>x. gret (f x)" "[]" y] assms(2) by (auto simp: reads_ret)

lemma reads_times:
  assumes "put_seq (map put xs) = Inr e"
    and "\<And>x e. x \<in> set xs \<Longrightarrow> put x = Inr e \<Longrightarrow> reads_on P g e x"
  shows "reads_on P (get_times (length xs) g) e xs"
  using assms
proof (induction xs arbitrary: e)
  case (Cons x xs)
  then obtain a b where "put x = Inr a" "put_seq (map put xs) = Inr b" "e = a @ b"
    by (auto simp: put_seq_Cons_Inr)
  with Cons show ?case
    by (auto intro!: reads_bind reads_map)
qed (auto simp: reads_ret)

lemma reads_times_concat:
  assumes "\<And>x. x \<in> set xs \<Longrightarrow> reads_on P g (put x) x"
  shows "reads_on P (get_times (length xs) g) (concat (map put xs)) xs"
  using assms by (induction xs) (auto simp: reads_ret intro!: reads_bind reads_map)

lemma reads_if_left:
  assumes "reads_on P g e x" and "e \<noteq> []"
  shows "reads_on P (get_if_left dflt g) e x"
  using assms by (simp add: reads_on_def get_if_left_def)

lemma reads_all: "reads_on P g e x \<Longrightarrow> P e \<Longrightarrow> g e 0 = Inr (x, length e)"
  unfolding reads_on_def by (metis append.left_neutral append.right_neutral list.size(3) add_0)


subsection \<open>Fixed-width and length-prefixed fields\<close>

text \<open>Take \<open>k\<close> bytes, or throw the given message.\<close>

definition get_raw :: "string \<Rightarrow> nat \<Rightarrow> bytes getter" where
  "get_raw msg k i p =
     (if p + k > length i then Inl (Std_exception msg) else Inr (take k (drop p i), p + k))"

lemma reads_raw: "length e = k \<Longrightarrow> reads_on P (get_raw msg k) e e"
  by (simp add: reads_on_def get_raw_def)

lemma get_raw_advances: "get_raw msg k i p = Inr (x, q) \<Longrightarrow> q = p + k \<and> q \<le> length i"
  by (simp add: get_raw_def split: if_splits)

end
