(* ===== verification/Raft_Wire.thy ===== *)
theory Raft_Wire
  imports Raft_Types Byte_Codec
begin

text \<open>
  The frames that Raft nodes exchange, from \<open>src/src/protocol/raft/raft_wire.cpp\<close> and \<open>wire.cppm\<close>. An
  encoder returns the bytes it appends or the \<open>std::length_error\<close> it throws, a decoder is a getter
  over the frame. \<open>std::size_t\<close> positions do not wrap: a position is at most the size of the frame plus
  a 32-bit length. \<open>reserve\<close> only allocates.
\<close>

unbundle bit_operations_syntax

definition magic :: u32 where
  "magic = 0x52414654"

definition wire_version :: u8 where
  "wire_version = 1"

definition max_frame_size :: u32 where
  "max_frame_size = 64 * 1024 * 1024"

definition wire_put_u8 :: "u8 \<Rightarrow> bytes" where
  "wire_put_u8 v = [v]"

definition wire_put_u32 :: "u32 \<Rightarrow> bytes" where
  "wire_put_u32 v = map (\<lambda>s. ucast (drop_bit s v AND 0xff)) [24, 16, 8, 0]"

definition wire_put_u64 :: "u64 \<Rightarrow> bytes" where
  "wire_put_u64 v = map (\<lambda>s. ucast (drop_bit s v AND 0xff)) [56, 48, 40, 32, 24, 16, 8, 0]"

definition wire_get_u8 :: "u8 getter" where
  "wire_get_u8 i p =
     (if p + 1 > length i then Inl (Std_exception ''truncated raft frame'') else Inr (i ! p, p + 1))"

definition wire_get_u32 :: "u32 getter" where
  "wire_get_u32 i p =
     (if p + 4 > length i then Inl (Std_exception ''truncated raft frame'')
      else Inr (foldl (\<lambda>v n. push_bit 8 v OR ucast (i ! (p + n))) 0 [0, 1, 2, 3], p + 4))"

definition wire_get_u64 :: "u64 getter" where
  "wire_get_u64 i p =
     (if p + 8 > length i then Inl (Std_exception ''truncated raft frame'')
      else Inr (foldl (\<lambda>v n. push_bit 8 v OR ucast (i ! (p + n))) 0 [0, 1, 2, 3, 4, 5, 6, 7], p + 8))"

text \<open>The limit of the length prefixes, \<open>std::numeric_limits<std::uint32_t>::max()\<close>.\<close>

definition u32_max :: nat where
  "u32_max = 2 ^ 32 - 1"

definition wire_put_string :: "string \<Rightarrow> exn + bytes" where
  "wire_put_string v =
     (if length v > u32_max then Inl (Std_exception ''raft string is too large'')
      else Inr (wire_put_u32 (of_nat (length v)) @ bytes_of_string v))"

definition wire_put_bytes :: "bytes \<Rightarrow> exn + bytes" where
  "wire_put_bytes v =
     (if length v > u32_max then Inl (Std_exception ''raft byte payload is too large'')
      else Inr (wire_put_u32 (of_nat (length v)) @ v))"

definition wire_get_string :: "string getter" where
  "wire_get_string =
     gbind wire_get_u32 (\<lambda>n.
     gbind (get_raw ''truncated raft string'' (unat n)) (\<lambda>bs.
     gret (string_of_bytes bs)))"

definition wire_get_bytes :: "bytes getter" where
  "wire_get_bytes =
     gbind wire_get_u32 (\<lambda>n. get_raw ''truncated raft byte payload'' (unat n))"

text \<open>A count of 32 bits followed by the items.\<close>

definition wire_put_counted :: "string \<Rightarrow> ('a \<Rightarrow> exn + bytes) \<Rightarrow> 'a list \<Rightarrow> exn + bytes" where
  "wire_put_counted msg put xs =
     (if length xs > u32_max then Inl (Std_exception msg)
      else put_seq (Inr (wire_put_u32 (of_nat (length xs))) # map put xs))"

definition wire_get_counted :: "'a getter \<Rightarrow> 'a list getter" where
  "wire_get_counted g = gbind wire_get_u32 (\<lambda>n. get_times (unat n) g)"

definition put_nodes :: "node_id list \<Rightarrow> exn + bytes" where
  "put_nodes v = wire_put_counted ''too many raft nodes'' wire_put_string v"

definition get_nodes :: "node_id list getter" where
  "get_nodes = wire_get_counted wire_get_string"

definition put_config :: "configuration_state \<Rightarrow> exn + bytes" where
  "put_config c = put_seq [put_nodes (cs_voters c), put_nodes (cs_old_voters c),
     put_nodes (cs_learners c)]"

definition get_config :: "configuration_state getter" where
  "get_config =
     gbind get_nodes (\<lambda>voters. gbind get_nodes (\<lambda>old_voters. gbind get_nodes (\<lambda>learners.
     gret \<lparr>cs_voters = voters, cs_old_voters = old_voters, cs_learners = learners\<rparr>)))"

definition put_entry :: "log_entry \<Rightarrow> exn + bytes" where
  "put_entry e = put_seq [Inr (wire_put_u64 (le_index e)), Inr (wire_put_u64 (le_term e)),
     Inr (wire_put_u8 (ucast (entry_type_value (le_type e)))), wire_put_string (le_command e),
     put_config (le_configuration e)]"

definition get_entry :: "log_entry getter" where
  "get_entry =
     gbind wire_get_u64 (\<lambda>index. gbind wire_get_u64 (\<lambda>term0. gbind wire_get_u8 (\<lambda>type0.
     gbind wire_get_string (\<lambda>cmd. gbind get_config (\<lambda>conf.
     gret \<lparr>le_index = index, le_term = term0, le_type = Entry_type (ucast type0),
       le_command = cmd, le_configuration = conf\<rparr>)))))"

definition put_snapshot :: "snapshot_metadata \<Rightarrow> exn + bytes" where
  "put_snapshot m = put_seq [Inr (wire_put_u64 (last_included_index m)),
     Inr (wire_put_u64 (last_included_term m)), wire_put_string (sm_uri m),
     put_config (sm_configuration m)]"

definition get_snapshot :: "snapshot_metadata getter" where
  "get_snapshot =
     gbind wire_get_u64 (\<lambda>index. gbind wire_get_u64 (\<lambda>term0. gbind wire_get_string (\<lambda>uri.
     gbind get_config (\<lambda>conf.
     gret \<lparr>last_included_index = index, last_included_term = term0, sm_uri = uri,
       sm_configuration = conf\<rparr>))))"

definition put_bool :: "bool \<Rightarrow> exn + bytes" where
  "put_bool b = Inr (wire_put_u8 (if b then 1 else 0))"

definition get_bool :: "bool getter" where
  "get_bool = gbind wire_get_u8 (\<lambda>v. gret (v \<noteq> 0))"

definition put_vote :: "request_vote_request \<Rightarrow> exn + bytes" where
  "put_vote v = put_seq [Inr (wire_put_u64 (rv_term v)), wire_put_string (rv_candidate_id v),
     Inr (wire_put_u64 (rv_last_log_index v)), Inr (wire_put_u64 (rv_last_log_term v)),
     put_bool (rv_pre_vote v)]"

definition get_vote :: "request_vote_request getter" where
  "get_vote =
     gbind wire_get_u64 (\<lambda>term0. gbind wire_get_string (\<lambda>cand. gbind wire_get_u64 (\<lambda>lli.
     gbind wire_get_u64 (\<lambda>llt. gbind get_bool (\<lambda>pre.
     gret \<lparr>rv_term = term0, rv_candidate_id = cand, rv_last_log_index = lli,
       rv_last_log_term = llt, rv_pre_vote = pre\<rparr>)))))"

definition put_vote_response :: "request_vote_response \<Rightarrow> exn + bytes" where
  "put_vote_response r = put_seq [Inr (wire_put_u64 (rvr_term r)), put_bool (rvr_vote_granted r),
     put_bool (rvr_pre_vote r)]"

definition get_vote_response :: "request_vote_response getter" where
  "get_vote_response =
     gbind wire_get_u64 (\<lambda>term0. gbind get_bool (\<lambda>granted. gbind get_bool (\<lambda>pre.
     gret \<lparr>rvr_term = term0, rvr_vote_granted = granted, rvr_pre_vote = pre\<rparr>)))"

definition put_timeout_now :: "timeout_now_request \<Rightarrow> exn + bytes" where
  "put_timeout_now r = put_seq [Inr (wire_put_u64 (tn_term r)), wire_put_string (tn_leader_id r)]"

definition get_timeout_now :: "timeout_now_request getter" where
  "get_timeout_now =
     gbind wire_get_u64 (\<lambda>term0. gbind wire_get_string (\<lambda>lid.
     gret \<lparr>tn_term = term0, tn_leader_id = lid\<rparr>))"

definition put_read :: "read_index_request \<Rightarrow> exn + bytes" where
  "put_read r = put_seq [Inr (wire_put_u64 (ri_id r)), wire_put_string (ri_context r)]"

definition get_read :: "read_index_request getter" where
  "get_read = gbind wire_get_u64 (\<lambda>rid. gbind wire_get_string (\<lambda>ctx.
     gret \<lparr>ri_id = rid, ri_context = ctx\<rparr>))"

definition put_append :: "append_entries_request \<Rightarrow> exn + bytes" where
  "put_append a = put_seq [Inr (wire_put_u64 (ae_term a)), wire_put_string (ae_leader_id a),
     Inr (wire_put_u64 (ae_prev_log_index a)), Inr (wire_put_u64 (ae_prev_log_term a)),
     Inr (wire_put_u64 (ae_leader_commit a)),
     wire_put_counted ''too many raft entries'' put_entry (ae_entries a),
     wire_put_counted ''too many raft read-index contexts'' put_read (ae_read_contexts a)]"

definition get_append :: "append_entries_request getter" where
  "get_append =
     gbind wire_get_u64 (\<lambda>term0. gbind wire_get_string (\<lambda>lid. gbind wire_get_u64 (\<lambda>prev.
     gbind wire_get_u64 (\<lambda>prev_term. gbind wire_get_u64 (\<lambda>commit.
     gbind (wire_get_counted get_entry) (\<lambda>es.
     gbind (get_if_left [] (wire_get_counted get_read)) (\<lambda>rs.
     gret \<lparr>ae_term = term0, ae_leader_id = lid, ae_prev_log_index = prev,
       ae_prev_log_term = prev_term, ae_entries = es, ae_leader_commit = commit,
       ae_read_contexts = rs\<rparr>)))))))"

definition put_append_response :: "append_entries_response \<Rightarrow> exn + bytes" where
  "put_append_response r = put_seq [Inr (wire_put_u64 (aer_term r)), put_bool (aer_success r),
     Inr (wire_put_u64 (aer_match_index r)), Inr (wire_put_u64 (aer_conflict_index r)),
     Inr (wire_put_u64 (aer_conflict_term r)),
     wire_put_counted ''too many raft read-index acknowledgements''
       (\<lambda>x. Inr (wire_put_u64 x)) (aer_read_acks r)]"

definition get_append_response :: "append_entries_response getter" where
  "get_append_response =
     gbind wire_get_u64 (\<lambda>term0. gbind get_bool (\<lambda>ok. gbind wire_get_u64 (\<lambda>mi.
     gbind wire_get_u64 (\<lambda>ci. gbind wire_get_u64 (\<lambda>ct.
     gbind (get_if_left [] (wire_get_counted wire_get_u64)) (\<lambda>acks.
     gret \<lparr>aer_term = term0, aer_success = ok, aer_match_index = mi, aer_conflict_index = ci,
       aer_conflict_term = ct, aer_read_acks = acks\<rparr>))))))"



subsection \<open>Messages\<close>

text \<open>A byte that is none of the enumerators is kept, as the \<open>static_cast\<close> of the decoder does.\<close>

datatype raft_rpc_type = rpc_pre_vote | rpc_request_vote | rpc_request_vote_response
  | rpc_append_entries | rpc_append_entries_response | rpc_install_snapshot
  | rpc_install_snapshot_response | rpc_timeout_now | rpc_unnamed u8

definition rpc_value :: "raft_rpc_type \<Rightarrow> u8" where
  "rpc_value t = (case t of rpc_pre_vote \<Rightarrow> 1 | rpc_request_vote \<Rightarrow> 2
     | rpc_request_vote_response \<Rightarrow> 3 | rpc_append_entries \<Rightarrow> 4 | rpc_append_entries_response \<Rightarrow> 5
     | rpc_install_snapshot \<Rightarrow> 6 | rpc_install_snapshot_response \<Rightarrow> 7 | rpc_timeout_now \<Rightarrow> 8
     | rpc_unnamed v \<Rightarrow> v)"

definition rpc_of :: "u8 \<Rightarrow> raft_rpc_type" where
  "rpc_of v = (if v = 1 then rpc_pre_vote else if v = 2 then rpc_request_vote
     else if v = 3 then rpc_request_vote_response else if v = 4 then rpc_append_entries
     else if v = 5 then rpc_append_entries_response else if v = 6 then rpc_install_snapshot
     else if v = 7 then rpc_install_snapshot_response else if v = 8 then rpc_timeout_now
     else rpc_unnamed v)"

record raft_rpc_message =
  m_type :: raft_rpc_type
  m_from :: node_id
  m_to :: node_id
  m_auth_token :: string
  m_vote :: request_vote_request
  m_vote_response :: request_vote_response
  m_timeout_now :: timeout_now_request
  m_append :: append_entries_request
  m_append_response :: append_entries_response
  m_snapshot :: install_snapshot_request
  m_snapshot_response :: install_snapshot_response

definition default_raft_rpc_message :: raft_rpc_message where
  "default_raft_rpc_message = \<lparr>m_type = rpc_append_entries, m_from = [], m_to = [],
     m_auth_token = [], m_vote = default_request_vote_request,
     m_vote_response = default_request_vote_response, m_timeout_now = default_timeout_now_request,
     m_append = default_append_entries_request,
     m_append_response = default_append_entries_response,
     m_snapshot = default_install_snapshot_request,
     m_snapshot_response = default_install_snapshot_response\<rparr>"

text \<open>The cases of the two switches for snapshot requests and responses.\<close>

definition put_install :: "install_snapshot_request \<Rightarrow> exn + bytes" where
  "put_install r = put_seq [Inr (wire_put_u64 (is_term r)), wire_put_string (is_leader_id r),
     put_snapshot (is_metadata r), wire_put_string (is_uri r), wire_put_string (is_snapshot_id r),
     Inr (wire_put_u64 (is_offset r)), Inr (wire_put_u64 (is_total_size r)),
     Inr (wire_put_u32 (is_chunk_crc32 r)), Inr (wire_put_u32 (is_file_crc32 r)),
     put_bool (is_done r), wire_put_bytes (is_data r)]"

definition get_install_rest :: "install_snapshot_request \<Rightarrow> install_snapshot_request getter" where
  "get_install_rest r =
     gbind wire_get_string (\<lambda>sid. gbind wire_get_u64 (\<lambda>off. gbind wire_get_u64 (\<lambda>total.
     gbind wire_get_u32 (\<lambda>ccrc. gbind wire_get_u32 (\<lambda>fcrc. gbind get_bool (\<lambda>done0.
     gbind wire_get_bytes (\<lambda>dat.
     gret (r\<lparr>is_snapshot_id := sid, is_offset := off, is_total_size := total,
       is_chunk_crc32 := ccrc, is_file_crc32 := fcrc, is_done := done0, is_data := dat\<rparr>))))))))"

definition get_install :: "install_snapshot_request getter" where
  "get_install =
     gbind wire_get_u64 (\<lambda>term0. gbind wire_get_string (\<lambda>lid. gbind get_snapshot (\<lambda>md.
     gbind wire_get_string (\<lambda>uri.
       let r = default_install_snapshot_request\<lparr>is_term := term0, is_leader_id := lid,
         is_metadata := md, is_uri := uri\<rparr>
       in get_if_left r (get_install_rest r)))))"

definition put_install_response :: "install_snapshot_response \<Rightarrow> exn + bytes" where
  "put_install_response r = put_seq [Inr (wire_put_u64 (isr_term r)), put_bool (isr_success r),
     wire_put_string (isr_snapshot_id r), Inr (wire_put_u64 (isr_accepted_offset r)),
     wire_put_string (isr_error r)]"

definition get_install_response :: "install_snapshot_response getter" where
  "get_install_response =
     gbind wire_get_u64 (\<lambda>term0. gbind get_bool (\<lambda>ok.
       let r = default_install_snapshot_response\<lparr>isr_term := term0, isr_success := ok\<rparr>
       in get_if_left r
            (gbind wire_get_string (\<lambda>sid. gbind wire_get_u64 (\<lambda>off. gbind wire_get_string (\<lambda>err.
             gret (r\<lparr>isr_snapshot_id := sid, isr_accepted_offset := off, isr_error := err\<rparr>)))))))"

definition put_body :: "raft_rpc_message \<Rightarrow> exn + bytes" where
  "put_body m = (case m_type m of
       rpc_pre_vote \<Rightarrow> put_vote (m_vote m)
     | rpc_request_vote \<Rightarrow> put_vote (m_vote m)
     | rpc_request_vote_response \<Rightarrow> put_vote_response (m_vote_response m)
     | rpc_timeout_now \<Rightarrow> put_timeout_now (m_timeout_now m)
     | rpc_append_entries \<Rightarrow> put_append (m_append m)
     | rpc_append_entries_response \<Rightarrow> put_append_response (m_append_response m)
     | rpc_install_snapshot \<Rightarrow> put_install (m_snapshot m)
     | rpc_install_snapshot_response \<Rightarrow> put_install_response (m_snapshot_response m)
     | rpc_unnamed _ \<Rightarrow> Inr [])"

definition get_body :: "raft_rpc_message \<Rightarrow> raft_rpc_message getter" where
  "get_body m = (case m_type m of
       rpc_pre_vote \<Rightarrow> gbind get_vote (\<lambda>x. gret (m\<lparr>m_vote := x\<rparr>))
     | rpc_request_vote \<Rightarrow> gbind get_vote (\<lambda>x. gret (m\<lparr>m_vote := x\<rparr>))
     | rpc_request_vote_response \<Rightarrow>
         gbind get_vote_response (\<lambda>x. gret (m\<lparr>m_vote_response := x\<rparr>))
     | rpc_timeout_now \<Rightarrow> gbind get_timeout_now (\<lambda>x. gret (m\<lparr>m_timeout_now := x\<rparr>))
     | rpc_append_entries \<Rightarrow> gbind get_append (\<lambda>x. gret (m\<lparr>m_append := x\<rparr>))
     | rpc_append_entries_response \<Rightarrow>
         gbind get_append_response (\<lambda>x. gret (m\<lparr>m_append_response := x\<rparr>))
     | rpc_install_snapshot \<Rightarrow> gbind get_install (\<lambda>x. gret (m\<lparr>m_snapshot := x\<rparr>))
     | rpc_install_snapshot_response \<Rightarrow>
         gbind get_install_response (\<lambda>x. gret (m\<lparr>m_snapshot_response := x\<rparr>))
     | rpc_unnamed _ \<Rightarrow> gret m)"

definition encode_raft_message :: "raft_rpc_message \<Rightarrow> exn + bytes" where
  "encode_raft_message m =
     (case put_seq [Inr (wire_put_u8 (rpc_value (m_type m))), wire_put_string (m_from m),
             wire_put_string (m_to m), wire_put_string (m_auth_token m), put_body m] of
        Inl e \<Rightarrow> Inl e
      | Inr b \<Rightarrow>
          if length b > unat max_frame_size then Inl (Std_exception ''raft frame is too large'')
          else Inr (wire_put_u32 magic @ wire_put_u8 wire_version @
                    wire_put_u32 (of_nat (length b)) @ b))"

definition get_message :: "raft_rpc_message getter" where
  "get_message =
     gbind wire_get_u8 (\<lambda>t. gbind wire_get_string (\<lambda>from0. gbind wire_get_string (\<lambda>to0.
     gbind wire_get_string (\<lambda>auth.
       get_body (default_raft_rpc_message\<lparr>m_type := rpc_of t, m_from := from0, m_to := to0,
         m_auth_token := auth\<rparr>)))))"

definition get_frame_header :: "u32 getter" where
  "get_frame_header =
     gbind wire_get_u32 (\<lambda>mg i p. if mg \<noteq> magic
       then Inl (Std_exception ''invalid raft frame magic'')
       else gbind wire_get_u8 (\<lambda>v i p. if v \<noteq> wire_version
              then Inl (Std_exception ''unsupported raft frame version'')
              else wire_get_u32 i p) i p)"

definition decode_raft_message :: "bytes \<Rightarrow> exn + raft_rpc_message" where
  "decode_raft_message f =
     (case get_frame_header f 0 of
        Inl e \<Rightarrow> Inl e
      | Inr (n, p) \<Rightarrow>
          if n > max_frame_size \<or> p + unat n \<noteq> length f then
            Inl (Std_exception ''invalid raft frame size'')
          else
            let b = take (unat n) (drop p f) in
            case get_message b 0 of
              Inl e \<Rightarrow> Inl e
            | Inr (m, q) \<Rightarrow>
                if q \<noteq> length b then Inl (Std_exception ''raft frame has trailing bytes'') else Inr m)"

text \<open>The argument is an array of nine bytes.\<close>

definition raft_frame_payload_size :: "bytes \<Rightarrow> exn + u32" where
  "raft_frame_payload_size h =
     (case get_frame_header h 0 of
        Inl e \<Rightarrow> Inl e
      | Inr (n, _) \<Rightarrow>
          if n > max_frame_size then Inl (Std_exception ''raft frame exceeds maximum size'')
          else Inr n)"


subsection \<open>Fields\<close>

lemma wire_put_u32_be: "wire_put_u32 v = be_bytes 4 v"
  by (simp add: wire_put_u32_def be_bytes_def numeral_eq_Suc upt_rec)

lemma wire_put_u64_be: "wire_put_u64 v = be_bytes 8 v"
  by (simp add: wire_put_u64_def be_bytes_def numeral_eq_Suc upt_rec)

lemma length_wire_put [simp]:
  "length (wire_put_u8 b) = 1" "length (wire_put_u32 v) = 4" "length (wire_put_u64 w) = 8"
  by (simp_all add: wire_put_u8_def wire_put_u32_def wire_put_u64_def)

lemma wire_get_u32_value:
  "wire_get_u32 i p =
     (if p + 4 > length i then Inl (Std_exception ''truncated raft frame'')
      else Inr (be_value (take 4 (drop p i)), p + 4))"
proof -
  have "[0, 1, 2, 3] = [0..<4 :: nat]" by (simp add: upt_rec)
  then show ?thesis
    using foldl_offsets [of p 4 i "\<lambda>v b. push_bit 8 v OR ucast b" "0 :: u32"]
    by (simp add: wire_get_u32_def be_value_def not_less)
qed

lemma wire_get_u64_value:
  "wire_get_u64 i p =
     (if p + 8 > length i then Inl (Std_exception ''truncated raft frame'')
      else Inr (be_value (take 8 (drop p i)), p + 8))"
proof -
  have "[0, 1, 2, 3, 4, 5, 6, 7] = [0..<8 :: nat]" by (simp add: upt_rec)
  then show ?thesis
    using foldl_offsets [of p 8 i "\<lambda>v b. push_bit 8 v OR ucast b" "0 :: u64"]
    by (simp add: wire_get_u64_def be_value_def not_less)
qed

lemma reads_u8 [codec_simps, intro]: "reads wire_get_u8 (wire_put_u8 v) v"
  by (simp add: reads_on_def wire_get_u8_def wire_put_u8_def)

lemma reads_u32 [codec_simps, intro]: "reads wire_get_u32 (wire_put_u32 v) v"
  by (simp add: reads_on_def wire_get_u32_value wire_put_u32_be)

lemma reads_u64 [codec_simps, intro]: "reads wire_get_u64 (wire_put_u64 v) v"
  by (simp add: reads_on_def wire_get_u64_value wire_put_u64_be)

lemma u32_of_length [simp]: "n \<le> u32_max \<Longrightarrow> unat (of_nat n :: u32) = n"
  by (simp add: unat_of_nat u32_max_def)

lemma reads_string [intro]: "wire_put_string s = Inr e \<Longrightarrow> reads wire_get_string e s"
  unfolding wire_get_string_def
  by (auto simp: wire_put_string_def split: if_splits intro!: reads_bind reads_map reads_u32 reads_raw)

lemma reads_bytes [intro]: "wire_put_bytes bs = Inr e \<Longrightarrow> reads wire_get_bytes e bs"
  unfolding wire_get_bytes_def
  by (auto simp: wire_put_bytes_def split: if_splits intro!: reads_bind reads_u32 reads_raw)

lemma reads_bool [intro]: "put_bool b = Inr e \<Longrightarrow> reads get_bool e b"
  unfolding get_bool_def by (cases b) (auto simp: put_bool_def intro!: reads_map reads_u8)

lemma reads_counted:
  assumes "wire_put_counted msg put xs = Inr e"
    and "\<And>x e. x \<in> set xs \<Longrightarrow> put x = Inr e \<Longrightarrow> reads g e x"
  shows "reads (wire_get_counted g) e xs"
proof -
  obtain e' where n: "length xs \<le> u32_max" and e': "put_seq (map put xs) = Inr e'"
    and e: "e = wire_put_u32 (of_nat (length xs)) @ e'"
    using assms(1) by (auto simp: wire_put_counted_def put_seq_Cons_Inr split: if_splits sum.splits)
  show ?thesis
    unfolding wire_get_counted_def e
    using reads_times [OF e' assms(2)] n by (intro reads_bind [OF reads_u32]) simp_all
qed

lemma wire_put_counted_nonempty: "wire_put_counted msg put xs = Inr e \<Longrightarrow> e \<noteq> []"
  by (auto simp: wire_put_counted_def put_seq_Cons_Inr wire_put_u32_def split: if_splits sum.splits)

lemma wire_put_string_nonempty: "wire_put_string s = Inr e \<Longrightarrow> e \<noteq> []"
  by (auto simp: wire_put_string_def wire_put_u32_def split: if_splits)

lemmas seq_simps = put_seq_Cons_Inr put_seq.simps(1)



subsection \<open>Structures\<close>

lemma reads_nodes [intro]: "put_nodes v = Inr e \<Longrightarrow> reads get_nodes e v"
  unfolding put_nodes_def get_nodes_def by (rule reads_counted) auto

lemma reads_config [intro]: "put_config c = Inr e \<Longrightarrow> reads get_config e c"
  unfolding put_config_def get_config_def
  by (auto simp: seq_simps intro!: reads_bind reads_nodes reads_map)

definition entry_type_ok :: "entry_type \<Rightarrow> bool" where
  "entry_type_ok t \<longleftrightarrow> Entry_type (ucast (ucast (entry_type_value t) :: u8)) = t"

lemma reads_entry:
  "put_entry x = Inr e \<Longrightarrow> entry_type_ok (le_type x) \<Longrightarrow> reads get_entry e x"
  unfolding put_entry_def get_entry_def
  by (auto simp: seq_simps entry_type_ok_def
      intro!: reads_bind reads_u64 reads_u8 reads_string reads_config reads_map)

lemma reads_snapshot [intro]: "put_snapshot m = Inr e \<Longrightarrow> reads get_snapshot e m"
  unfolding put_snapshot_def get_snapshot_def
  by (auto simp: seq_simps intro!: reads_bind reads_u64 reads_string reads_config reads_map)

lemma reads_vote [intro]: "put_vote v = Inr e \<Longrightarrow> reads get_vote e v"
  unfolding put_vote_def get_vote_def
  by (auto simp: seq_simps intro!: reads_bind reads_u64 reads_string reads_bool reads_map)

lemma reads_vote_response [intro]: "put_vote_response r = Inr e \<Longrightarrow> reads get_vote_response e r"
  unfolding put_vote_response_def get_vote_response_def
  by (auto simp: seq_simps intro!: reads_bind reads_u64 reads_bool reads_map)

lemma reads_timeout_now [intro]: "put_timeout_now r = Inr e \<Longrightarrow> reads get_timeout_now e r"
  unfolding put_timeout_now_def get_timeout_now_def
  by (auto simp: seq_simps intro!: reads_bind reads_u64 reads_string reads_map)

lemma reads_read [intro]: "put_read r = Inr e \<Longrightarrow> reads get_read e r"
  unfolding put_read_def get_read_def
  by (auto simp: seq_simps intro!: reads_bind reads_u64 reads_string reads_map)

lemma reads_append:
  assumes "put_append a = Inr e" and "\<forall>x \<in> set (ae_entries a). entry_type_ok (le_type x)"
  shows "reads get_append e a"
proof -
  obtain es rs lid where es: "wire_put_counted ''too many raft entries'' put_entry (ae_entries a) = Inr es"
    and rs: "wire_put_counted ''too many raft read-index contexts'' put_read (ae_read_contexts a) = Inr rs"
    and lid: "wire_put_string (ae_leader_id a) = Inr lid"
    and e: "e = wire_put_u64 (ae_term a) @ lid @ wire_put_u64 (ae_prev_log_index a) @
      wire_put_u64 (ae_prev_log_term a) @ wire_put_u64 (ae_leader_commit a) @ es @ rs"
    using assms(1) by (auto simp: put_append_def seq_simps)
  have "reads (wire_get_counted get_entry) es (ae_entries a)"
    using assms(2) by (intro reads_counted [OF es] reads_entry) auto
  moreover have "reads (get_if_left [] (wire_get_counted get_read)) rs (ae_read_contexts a)"
    using wire_put_counted_nonempty [OF rs] by (intro reads_if_left reads_counted [OF rs]) auto
  ultimately show ?thesis
    unfolding get_append_def e
    by (auto intro!: reads_bind reads_u64 reads_string [OF lid] reads_map)
qed

lemma reads_append_response [intro]:
  assumes "put_append_response r = Inr e"
  shows "reads get_append_response e r"
proof -
  obtain acks where acks: "wire_put_counted ''too many raft read-index acknowledgements''
      (\<lambda>x. Inr (wire_put_u64 x)) (aer_read_acks r) = Inr acks"
    and e: "e = wire_put_u64 (aer_term r) @ wire_put_u8 (if aer_success r then 1 else 0) @
      wire_put_u64 (aer_match_index r) @ wire_put_u64 (aer_conflict_index r) @
      wire_put_u64 (aer_conflict_term r) @ acks"
    using assms by (auto simp: put_append_response_def seq_simps put_bool_def)
  have "reads (get_if_left [] (wire_get_counted wire_get_u64)) acks (aer_read_acks r)"
    using wire_put_counted_nonempty [OF acks] by (intro reads_if_left reads_counted [OF acks]) auto
  moreover have "reads get_bool (wire_put_u8 (if aer_success r then 1 else 0)) (aer_success r)"
    by (rule reads_bool) (simp add: put_bool_def)
  ultimately show ?thesis
    unfolding get_append_response_def e by (auto intro!: reads_bind reads_u64 reads_map)
qed

lemma reads_install [intro]:
  assumes "put_install r = Inr e"
  shows "reads get_install e r"
proof -
  let ?r = "default_install_snapshot_request\<lparr>is_term := is_term r, is_leader_id := is_leader_id r,
     is_metadata := is_metadata r, is_uri := is_uri r\<rparr>"
  obtain lid md uri sid dn dat where lid: "wire_put_string (is_leader_id r) = Inr lid"
    and md: "put_snapshot (is_metadata r) = Inr md" and uri: "wire_put_string (is_uri r) = Inr uri"
    and sid: "wire_put_string (is_snapshot_id r) = Inr sid"
    and dn: "put_bool (is_done r) = Inr dn" and dat: "wire_put_bytes (is_data r) = Inr dat"
    and e: "e = wire_put_u64 (is_term r) @ lid @ md @ uri @ sid @ wire_put_u64 (is_offset r) @
      wire_put_u64 (is_total_size r) @ wire_put_u32 (is_chunk_crc32 r) @
      wire_put_u32 (is_file_crc32 r) @ dn @ dat"
    using assms unfolding put_install_def by (auto simp: seq_simps)
  define rest where "rest = wire_put_u64 (is_offset r) @ wire_put_u64 (is_total_size r) @
    wire_put_u32 (is_chunk_crc32 r) @ wire_put_u32 (is_file_crc32 r) @ dn @ dat"
  have "reads (get_install_rest ?r) (sid @ rest) r"
    unfolding get_install_rest_def rest_def
    by (auto simp: default_install_snapshot_request_def
        intro!: reads_bind reads_u64 reads_u32 reads_bool [OF dn] reads_bytes [OF dat]
          reads_string [OF sid] reads_map)
  then have "reads (get_if_left ?r (get_install_rest ?r)) (sid @ rest) r"
    using wire_put_string_nonempty [OF sid] by (intro reads_if_left) simp_all
  then show ?thesis
    unfolding get_install_def e Let_def rest_def
    by (auto intro!: reads_bind reads_u64 reads_string [OF lid] reads_string [OF uri]
        reads_snapshot [OF md])
qed

lemma reads_install_response [intro]:
  assumes "put_install_response r = Inr e"
  shows "reads get_install_response e r"
proof -
  let ?r = "default_install_snapshot_response\<lparr>isr_term := isr_term r, isr_success := isr_success r\<rparr>"
  let ?g = "gbind wire_get_string (\<lambda>sid. gbind wire_get_u64 (\<lambda>off. gbind wire_get_string (\<lambda>err.
       gret (?r\<lparr>isr_snapshot_id := sid, isr_accepted_offset := off, isr_error := err\<rparr>))))"
  obtain sid err where sid: "wire_put_string (isr_snapshot_id r) = Inr sid"
    and err: "wire_put_string (isr_error r) = Inr err"
    and e: "e = wire_put_u64 (isr_term r) @ wire_put_u8 (if isr_success r then 1 else 0) @
      sid @ wire_put_u64 (isr_accepted_offset r) @ err"
    using assms by (auto simp: put_install_response_def seq_simps put_bool_def)
  have "reads ?g (sid @ wire_put_u64 (isr_accepted_offset r) @ err) r"
    by (auto simp: default_install_snapshot_response_def
        intro!: reads_bind reads_u64 reads_string [OF sid] reads_string [OF err] reads_map)
  then have "reads (get_if_left ?r ?g) (sid @ wire_put_u64 (isr_accepted_offset r) @ err) r"
    using wire_put_string_nonempty [OF sid] by (intro reads_if_left) simp_all
  moreover have "reads get_bool (wire_put_u8 (if isr_success r then 1 else 0)) (isr_success r)"
    by (rule reads_bool) (simp add: put_bool_def)
  ultimately show ?thesis
    unfolding get_install_response_def e Let_def by (auto intro!: reads_bind reads_u64)
qed



subsection \<open>Frames\<close>

text \<open>What a message must satisfy to come back unchanged: its type is one of the enumerators or a value
  that is none of them, and the types of its entries fit in the byte they are sent in.\<close>

definition message_ok :: "raft_rpc_message \<Rightarrow> bool" where
  "message_ok m \<longleftrightarrow> rpc_of (rpc_value (m_type m)) = m_type m \<and>
     (\<forall>x \<in> set (ae_entries (m_append m)). entry_type_ok (le_type x))"

text \<open>The part of a message that its type puts on the wire.\<close>

definition sent_part :: "raft_rpc_message \<Rightarrow> raft_rpc_message" where
  "sent_part m =
     (let d = default_raft_rpc_message\<lparr>m_type := m_type m, m_from := m_from m, m_to := m_to m,
            m_auth_token := m_auth_token m\<rparr>
      in case m_type m of
           rpc_pre_vote \<Rightarrow> d\<lparr>m_vote := m_vote m\<rparr>
         | rpc_request_vote \<Rightarrow> d\<lparr>m_vote := m_vote m\<rparr>
         | rpc_request_vote_response \<Rightarrow> d\<lparr>m_vote_response := m_vote_response m\<rparr>
         | rpc_timeout_now \<Rightarrow> d\<lparr>m_timeout_now := m_timeout_now m\<rparr>
         | rpc_append_entries \<Rightarrow> d\<lparr>m_append := m_append m\<rparr>
         | rpc_append_entries_response \<Rightarrow> d\<lparr>m_append_response := m_append_response m\<rparr>
         | rpc_install_snapshot \<Rightarrow> d\<lparr>m_snapshot := m_snapshot m\<rparr>
         | rpc_install_snapshot_response \<Rightarrow> d\<lparr>m_snapshot_response := m_snapshot_response m\<rparr>
         | rpc_unnamed _ \<Rightarrow> d)"

lemma reads_body:
  assumes "put_body m = Inr e" and "message_ok m"
  shows "reads (get_body (default_raft_rpc_message\<lparr>m_type := m_type m, m_from := m_from m,
    m_to := m_to m, m_auth_token := m_auth_token m\<rparr>)) e (sent_part m)"
  using assms
  by (cases "m_type m")
    (auto simp: put_body_def get_body_def sent_part_def message_ok_def Let_def reads_ret
      intro!: reads_map reads_append)

lemma reads_message:
  assumes "put_seq [Inr (wire_put_u8 (rpc_value (m_type m))), wire_put_string (m_from m),
      wire_put_string (m_to m), wire_put_string (m_auth_token m), put_body m] = Inr b"
    and "message_ok m"
  shows "reads get_message b (sent_part m)"
proof -
  obtain fr to au bd where "wire_put_string (m_from m) = Inr fr" "wire_put_string (m_to m) = Inr to"
    "wire_put_string (m_auth_token m) = Inr au" "put_body m = Inr bd"
    "b = wire_put_u8 (rpc_value (m_type m)) @ fr @ to @ au @ bd"
    using assms(1) by (auto simp: seq_simps)
  then show ?thesis
    using reads_body [of m bd] assms(2) unfolding get_message_def
    by (auto simp: message_ok_def intro!: reads_bind)
qed

definition frame_header :: "u32 \<Rightarrow> bytes" where
  "frame_header n = wire_put_u32 magic @ wire_put_u8 wire_version @ wire_put_u32 n"

lemma length_frame_header [simp]: "length (frame_header n) = 9"
  by (simp add: frame_header_def)

lemma reads_frame_header: "reads get_frame_header (frame_header n) n"
proof -
  have "reads (\<lambda>i p. if v \<noteq> wire_version then Inl (Std_exception ''unsupported raft frame version'')
      else wire_get_u32 i p) (wire_put_u32 n) n" if "v = wire_version" for v
    using that reads_u32 [of n] by (simp add: reads_on_def)
  then have "reads (gbind wire_get_u8 (\<lambda>v i p. if v \<noteq> wire_version
      then Inl (Std_exception ''unsupported raft frame version'') else wire_get_u32 i p))
      (wire_put_u8 wire_version @ wire_put_u32 n) n"
    by (intro reads_bind [OF reads_u8]) simp
  then show ?thesis
    unfolding get_frame_header_def frame_header_def
    by (intro reads_bind [OF reads_u32]) (simp add: reads_on_def)
qed

lemma get_frame_header_Inr:
  assumes "get_frame_header i 0 = Inr (n, p)"
  shows "p = 9 \<and> 9 \<le> length i \<and> get_frame_header (take 9 i) 0 = Inr (n, 9)"
  using assms unfolding get_frame_header_def gbind_def
  by (auto simp: wire_get_u32_value wire_get_u8_def drop_take split: if_splits)

lemma max_frame_size_nat: "unat max_frame_size = 67108864"
  by (simp add: max_frame_size_def)

lemma u32_of_payload: "k \<le> unat max_frame_size \<Longrightarrow> unat (of_nat k :: u32) = k"
  by (simp add: unat_of_nat max_frame_size_nat)

lemma header_of_frame: "get_frame_header (frame_header n @ xs) 0 = Inr (n, 9)"
  using reads_frame_header [of n] unfolding reads_on_def
  by (metis append.left_neutral length_frame_header list.size(3) add_0)

lemma encoded_frame:
  assumes "encode_raft_message m = Inr f"
  obtains b where "put_seq [Inr (wire_put_u8 (rpc_value (m_type m))), wire_put_string (m_from m),
      wire_put_string (m_to m), wire_put_string (m_auth_token m), put_body m] = Inr b"
    and "length b \<le> unat max_frame_size" and "f = frame_header (of_nat (length b)) @ b"
  using assms by (auto simp: encode_raft_message_def frame_header_def split: sum.splits if_splits)

lemma decoded_frame_length:
  assumes "get_frame_header g 0 = Inr (n, 9)" and "length g \<noteq> 9 + unat n"
  shows "isl (decode_raft_message g)"
  using assms by (simp add: decode_raft_message_def)

lemma short_frame:
  assumes "length g < 9"
  shows "isl (decode_raft_message g)"
  using assms get_frame_header_Inr [of g]
  by (cases "get_frame_header g 0") (auto simp: decode_raft_message_def)

lemma decode_encode:
  assumes "encode_raft_message m = Inr f" and "message_ok m"
  shows "decode_raft_message f = Inr (sent_part m)"
proof -
  obtain b where b: "put_seq [Inr (wire_put_u8 (rpc_value (m_type m))), wire_put_string (m_from m),
      wire_put_string (m_to m), wire_put_string (m_auth_token m), put_body m] = Inr b"
    and len: "length b \<le> unat max_frame_size"
    and f: "f = frame_header (of_nat (length b)) @ b"
    using encoded_frame [OF assms(1)] .
  have n: "unat (of_nat (length b) :: u32) = length b"
    using u32_of_payload [OF len] .
  have "get_frame_header f 0 = Inr (of_nat (length b), 9)"
    unfolding f by (rule header_of_frame)
  moreover have "\<not> of_nat (length b) > max_frame_size"
    using n len by (simp add: word_less_nat_alt)
  moreover have "get_message b 0 = Inr (sent_part m, length b)"
    using reads_all [OF reads_message [OF b assms(2)]] by simp
  ultimately show ?thesis
    by (simp add: decode_raft_message_def f n)
qed


subsection \<open>Properties\<close>

definition example_append :: raft_rpc_message where
  "example_append = default_raft_rpc_message\<lparr>m_from := ''a'', m_to := ''b'',
     m_append := default_append_entries_request\<lparr>ae_term := 3, ae_leader_id := ''a'',
       ae_entries := [default_log_entry\<lparr>le_index := 1, le_term := 3, le_command := ''x''\<rparr>],
       ae_read_contexts := [\<lparr>ri_id = 5, ri_context = []\<rparr>]\<rparr>\<rparr>"

text \<open>
  C18: Every frame that \<open>encode_raft_message\<close> produces is decoded by \<open>decode_raft_message\<close> to the message
  it was made from: the type, the addresses, the token and the structure that belongs to the type come
  back unchanged, and the structures of the other types have their default values.
\<close>

theorem raft_message_round_trip:
  assumes "encode_raft_message m = Inr f" and "message_ok m"
  shows "decode_raft_message f = Inr (sent_part m)"
  using assms by (rule decode_encode)

theorem raft_message_round_trip_witness:
  "\<exists>f. encode_raft_message example_append = Inr f \<and>
     decode_raft_message f = Inr (sent_part example_append)"
proof -
  obtain f where f: "encode_raft_message example_append = Inr f"
    by (cases "encode_raft_message example_append")
      (simp_all add: encode_raft_message_def example_append_def default_raft_rpc_message_def
        put_body_def put_append_def put_entry_def put_read_def put_config_def put_nodes_def
        wire_put_counted_def wire_put_string_def u32_max_def put_seq.simps max_frame_size_nat
        default_append_entries_request_def default_log_entry_def default_configuration_state_def
        wire_put_u32_def wire_put_u64_def wire_put_u8_def)
  have "message_ok example_append"
    by (simp add: message_ok_def example_append_def default_raft_rpc_message_def rpc_of_def
        rpc_value_def entry_type_ok_def default_log_entry_def command_def)
  with f show ?thesis
    using raft_message_round_trip by blast
qed

text \<open>
  C19: The frames delimit themselves: of any bytes that start with an encoded message, the first nine are a
  header that \<open>raft_frame_payload_size\<close> accepts, and cutting the bytes after the size it returns, at most
  64 MiB, behind the header gives the frame and what follows it. A frame that is cut short or has bytes after
  its end is rejected by \<open>decode_raft_message\<close>.
\<close>

theorem raft_frame_self_delimiting:
  assumes "encode_raft_message m = Inr f"
  shows "\<exists>n. raft_frame_payload_size (take 9 (f @ rest)) = Inr n \<and> unat n \<le> 64 * 1024 * 1024 \<and>
    take (9 + unat n) (f @ rest) = f \<and> drop (9 + unat n) (f @ rest) = rest \<and>
    (\<forall>k < length f. isl (decode_raft_message (take k f))) \<and>
    (\<forall>xs. xs \<noteq> [] \<longrightarrow> isl (decode_raft_message (f @ xs)))"
proof -
  obtain b where f: "f = frame_header (of_nat (length b)) @ b"
    and len: "length b \<le> unat max_frame_size"
    using encoded_frame [OF assms] by blast
  let ?n = "of_nat (length b) :: u32"
  have n: "unat ?n = length b" using u32_of_payload [OF len] .
  have "raft_frame_payload_size (take 9 (f @ rest)) = Inr ?n"
    using header_of_frame [of ?n "[]"] n len
    by (simp add: f raft_frame_payload_size_def word_less_nat_alt)
  moreover have "isl (decode_raft_message (take k f))" if "k < length f" for k
  proof (cases "k < 9")
    case False
    then have "take k f = frame_header ?n @ take (k - 9) b" by (simp add: f)
    moreover have "length (take k f) < 9 + length b" using that by (simp add: f)
    ultimately show ?thesis
      using header_of_frame [of ?n "take (k - 9) b"] decoded_frame_length [of _ ?n] n by simp
  qed (simp add: short_frame)
  moreover have "isl (decode_raft_message (f @ xs))" if "xs \<noteq> []" for xs
    using that header_of_frame [of ?n "b @ xs"] n by (intro decoded_frame_length [of _ ?n]) (simp_all add: f)
  ultimately show ?thesis
    using n len by (intro exI [of _ ?n]) (simp add: f max_frame_size_nat)
qed

theorem raft_frame_self_delimiting_witness:
  "\<exists>f n. encode_raft_message (default_raft_rpc_message\<lparr>m_type := rpc_timeout_now\<rparr>) = Inr f \<and>
     raft_frame_payload_size (take 9 (f @ [1, 2, 3])) = Inr n \<and>
     drop (9 + unat n) (f @ [1, 2, 3]) = [1, 2, 3] \<and> isl (decode_raft_message (f @ [1, 2, 3]))"
proof -
  let ?m = "default_raft_rpc_message\<lparr>m_type := rpc_timeout_now\<rparr>"
  obtain f where f: "encode_raft_message ?m = Inr f"
    by (cases "encode_raft_message ?m")
      (simp_all add: encode_raft_message_def default_raft_rpc_message_def put_body_def
        put_timeout_now_def default_timeout_now_request_def wire_put_string_def u32_max_def
        put_seq.simps max_frame_size_nat wire_put_u32_def wire_put_u64_def wire_put_u8_def)
  from raft_frame_self_delimiting [OF f, of "[1, 2, 3]"]
  obtain n where "raft_frame_payload_size (take 9 (f @ [1, 2, 3])) = Inr n"
    "drop (9 + unat n) (f @ [1, 2, 3]) = [1, 2, 3]"
    "isl (decode_raft_message (f @ [1, 2, 3]))"
    by blast
  with f show ?thesis by blast
qed

end
