(* ===== verification/Raft_Leveldb_Store.thy ===== *)
theory Raft_Leveldb_Store
  imports Raft_Memory_Store Byte_Codec
begin

text \<open>
  The persistent store, from \<open>src/src/protocol/raft/raft_leveldb_store.cpp\<close>: the records it writes and
  the operations over a LevelDB database. LevelDB is not part of the repository: \<open>leveldb\<close> is a record of
  the functions of its interface that the store calls, over a type \<open>'d\<close> of databases, and a parameter of
  every operation. \<open>leveldb_laws\<close> states the documented behaviour that the proofs rely on: a point read finds
  what the contents hold, an iterator passes over them in the order of the keys, and a write whose status is
  ok has been applied. Each of them may report an error instead: an iterator ends before its end, and after
  a write that failed nothing is known of the contents.

  Values are byte strings, keys are strings. \<open>std::size_t\<close> is 64 bits wide: the position of a reader is
  a natural number below \<open>2 ^ 64\<close>, and its sum with a stored length wraps.
\<close>

unbundle bit_operations_syntax


subsection \<open>LevelDB\<close>

datatype db_read = Found bytes | Not_found | Read_failed string

datatype batch_op = Batch_put string bytes | Batch_delete string

text \<open>\<open>db_scan d k\<close> is a traversal by an iterator from \<open>Seek(k)\<close> on: the items it is valid at, and the
  status it has when it is not valid any more. A write returns the text of a status that is not ok.\<close>

record 'd leveldb =
  db_get :: "'d \<Rightarrow> string \<Rightarrow> db_read"
  db_scan :: "'d \<Rightarrow> string \<Rightarrow> (string \<times> bytes) list \<times> string option"
  db_put :: "bool \<Rightarrow> string \<Rightarrow> bytes \<Rightarrow> 'd \<Rightarrow> string option \<times> 'd"
  db_write :: "bool \<Rightarrow> batch_op list \<Rightarrow> 'd \<Rightarrow> string option \<times> 'd"


subsection \<open>Keys\<close>

definition hard_state_key :: string where
  "hard_state_key = ''meta:hard_state''"

definition snapshot_key :: string where
  "snapshot_key = ''meta:snapshot''"

definition log_prefix :: string where
  "log_prefix = ''log:''"

definition has_log_prefix :: "string \<Rightarrow> bool" where
  "has_log_prefix key = (take 4 key = log_prefix)"

definition log_key :: "log_index \<Rightarrow> string" where
  "log_key index =
     (let ds = dec_digits (unat index)
      in log_prefix @ replicate (20 - length ds) (CHR ''0'') @ ds)"

definition is_space :: "char \<Rightarrow> bool" where
  "is_space c = (c = CHR '' '' \<or> of_char c \<in> {9 .. 13 :: nat})"

definition is_digit :: "char \<Rightarrow> bool" where
  "is_digit c = (of_char c \<in> {48 .. 57 :: nat})"

definition digits_value :: "string \<Rightarrow> nat" where
  "digits_value ds = foldl (\<lambda>v c. 10 * v + (of_char c - 48)) 0 ds"

text \<open>\<open>std::stoull\<close>: white space, a sign, digits; a negative value is taken modulo \<open>2 ^ 64\<close>.\<close>

definition stoull :: "string \<Rightarrow> exn + u64" where
  "stoull s =
     (let t = dropWhile is_space s;
          neg = (t \<noteq> [] \<and> hd t = CHR ''-'');
          u = (if t \<noteq> [] \<and> (hd t = CHR ''-'' \<or> hd t = CHR ''+'') then tl t else t);
          ds = takeWhile is_digit u;
          v = digits_value ds
      in if ds = [] then Inl (Std_exception ''stoull'')
         else if v \<ge> 2 ^ 64 then Inl (Std_exception ''stoull'')
         else Inr (if neg then - of_nat v else of_nat v))"

definition parse_log_index :: "string \<Rightarrow> exn + log_index" where
  "parse_log_index key = (if has_log_prefix key then stoull (drop 4 key) else Inr 0)"


subsection \<open>Records\<close>

definition ldb_put_u64 :: "u64 \<Rightarrow> bytes" where
  "ldb_put_u64 value = map (\<lambda>i. ucast (drop_bit (i * 8) value AND 0xff)) [0..<8]"

definition ldb_get_u64 :: "u64 getter" where
  "ldb_get_u64 i pos =
     (if pos + 8 > length i then Inl (Std_exception ''corrupt raft leveldb record'')
      else Inr (foldl (\<lambda>value n. value OR push_bit (n * 8) (ucast (i ! (pos + n)))) 0 [0..<8], pos + 8))"

definition ldb_put_string :: "string \<Rightarrow> bytes" where
  "ldb_put_string value = ldb_put_u64 (of_nat (length value)) @ bytes_of_string value"

definition ldb_get_string :: "string getter" where
  "ldb_get_string =
     gbind ldb_get_u64 (\<lambda>size i pos.
       let after = unat (of_nat pos + size)
       in if after > length i then Inl (Std_exception ''corrupt raft leveldb string'')
          else Inr (string_of_bytes (take (unat size) (drop pos i)), after))"

definition put_strings :: "node_id list \<Rightarrow> bytes" where
  "put_strings values = ldb_put_u64 (of_nat (length values)) @ concat (map ldb_put_string values)"

text \<open>\<open>std::vector::reserve\<close> throws for more elements than \<open>max_size\<close>; a \<open>std::string\<close> takes 32 bytes.\<close>

definition vector_max :: nat where
  "vector_max = 2 ^ 58 - 1"

definition reserve_strings :: "u64 \<Rightarrow> unit getter" where
  "reserve_strings count i pos =
     (if unat count > vector_max then Inl (Std_exception ''vector::reserve'') else Inr ((), pos))"

definition get_strings :: "node_id list getter" where
  "get_strings =
     gbind ldb_get_u64 (\<lambda>size. gbind (reserve_strings size) (\<lambda>_. get_times (unat size) ldb_get_string))"

definition ldb_put_config :: "configuration_state \<Rightarrow> bytes" where
  "ldb_put_config conf =
     put_strings (cs_voters conf) @ put_strings (cs_old_voters conf) @ put_strings (cs_learners conf)"

definition ldb_get_config :: "configuration_state getter" where
  "ldb_get_config =
     gbind get_strings (\<lambda>voters. gbind get_strings (\<lambda>old_voters.
     gbind (get_if_left [] get_strings) (\<lambda>learners.
     gret \<lparr>cs_voters = voters, cs_old_voters = old_voters, cs_learners = learners\<rparr>)))"

text \<open>
  The records are built by appending to a \<open>std::string\<close>, which throws when it would grow past its
  \<open>max_size\<close>.
\<close>

definition string_max :: nat where
  "string_max = 2 ^ 63 - 1"

definition bounded_record :: "bytes \<Rightarrow> exn + bytes" where
  "bounded_record out =
     (if length out > string_max then Inl (Std_exception ''basic_string::append'') else Inr out)"

definition state_record :: "hard_state \<Rightarrow> bytes" where
  "state_record s = ldb_put_u64 (current_term s) @ ldb_put_string (voted_for s) @
     ldb_put_u64 (commit_index s) @ ldb_put_u64 (last_applied s)"

definition serialize_state :: "hard_state \<Rightarrow> exn + bytes" where
  "serialize_state s = bounded_record (state_record s)"

definition get_state :: "hard_state getter" where
  "get_state =
     gbind ldb_get_u64 (\<lambda>term0. gbind ldb_get_string (\<lambda>vote. gbind ldb_get_u64 (\<lambda>commit.
     gbind ldb_get_u64 (\<lambda>applied.
     gret \<lparr>current_term = term0, voted_for = vote, commit_index = commit,
       last_applied = applied\<rparr>))))"

definition deserialize_state :: "bytes \<Rightarrow> exn + hard_state" where
  "deserialize_state data =
     (if data = [] then Inr default_hard_state else map_sum id fst (get_state data 0))"

definition snapshot_record :: "snapshot_metadata \<Rightarrow> bytes" where
  "snapshot_record s = ldb_put_u64 (last_included_index s) @ ldb_put_u64 (last_included_term s) @
     ldb_put_string (sm_uri s) @ ldb_put_config (sm_configuration s)"

definition serialize_snapshot :: "snapshot_metadata \<Rightarrow> exn + bytes" where
  "serialize_snapshot s = bounded_record (snapshot_record s)"

definition ldb_get_snapshot :: "snapshot_metadata getter" where
  "ldb_get_snapshot =
     gbind ldb_get_u64 (\<lambda>index. gbind ldb_get_u64 (\<lambda>term0. gbind ldb_get_string (\<lambda>uri.
     gbind ldb_get_config (\<lambda>conf.
     gret \<lparr>last_included_index = index, last_included_term = term0, sm_uri = uri,
       sm_configuration = conf\<rparr>))))"

definition deserialize_snapshot :: "bytes \<Rightarrow> exn + snapshot_metadata" where
  "deserialize_snapshot data =
     (if data = [] then Inr default_snapshot_metadata else map_sum id fst (ldb_get_snapshot data 0))"

definition entry_record :: "log_entry \<Rightarrow> bytes" where
  "entry_record e = ldb_put_u64 (le_term e) @ ldb_put_u64 (scast (entry_type_value (le_type e))) @
     ldb_put_string (le_command e) @ ldb_put_config (le_configuration e)"

definition serialize_entry :: "log_entry \<Rightarrow> exn + bytes" where
  "serialize_entry e = bounded_record (entry_record e)"

definition ldb_get_entry :: "log_index \<Rightarrow> log_entry getter" where
  "ldb_get_entry index =
     gbind ldb_get_u64 (\<lambda>term0. gbind ldb_get_u64 (\<lambda>type0. gbind ldb_get_string (\<lambda>cmd.
     gbind ldb_get_config (\<lambda>conf.
     gret \<lparr>le_index = index, le_term = term0, le_type = Entry_type (ucast type0),
       le_command = cmd, le_configuration = conf\<rparr>))))"

definition deserialize_entry :: "log_index \<Rightarrow> bytes \<Rightarrow> exn + log_entry" where
  "deserialize_entry index data = map_sum id fst (ldb_get_entry index data 0)"


subsection \<open>Reads\<close>

record 'd leveldb_store =
  ls_db :: 'd
  ls_sync :: bool











subsection \<open>Writes\<close>














definition set_sync :: "bool \<Rightarrow> 'd leveldb_store \<Rightarrow> 'd leveldb_store" where
  "set_sync enabled s = s\<lparr>ls_sync := enabled\<rparr>"


subsection \<open>Records read back what they hold\<close>

definition addressable :: "bytes \<Rightarrow> bool" where
  "addressable i \<longleftrightarrow> length i < 2 ^ 64"

lemma length_ldb_put_u64 [simp]: "length (ldb_put_u64 v) = 8"
  by (simp add: ldb_put_u64_def)

lemma reads_ldb_u64: "reads_on P ldb_get_u64 (ldb_put_u64 v) v"
proof -
  have "foldl (\<lambda>value n. value OR push_bit (n * 8) (ucast ((pre @ ldb_put_u64 v @ post) !
      (length pre + n)))) 0 [0..<8] = v" for pre post
  proof -
    have "foldl (\<lambda>value n. value OR push_bit (n * 8) (ucast ((pre @ ldb_put_u64 v @ post) !
        (length pre + n)))) 0 [0..<8] =
        foldl (\<lambda>value n. value OR push_bit (n * 8) (take_bit 8 (drop_bit (n * 8) v))) 0 [0..<8]"
      by (rule foldl_cong) (auto simp: ldb_put_u64_def nth_append ucast_ucast_byte)
    also have "\<dots> = take_bit (8 * 8) v" by (rule foldl_le_bytes)
    finally show ?thesis by (simp add: take_bit_word_eq_self)
  qed
  then show ?thesis by (simp add: reads_on_def ldb_get_u64_def)
qed

lemma reads_ldb_string: "reads_on addressable ldb_get_string (ldb_put_string s) s"
proof -
  have fit: "unat (of_nat a + (of_nat b :: u64)) = a + b" "unat (of_nat b :: u64) = b"
    if "a + b < 2 ^ 64" for a b
    using that by (simp_all flip: of_nat_add add: unat_of_nat)
  have "reads_on addressable (\<lambda>i pos. let after = unat (of_nat pos + (of_nat (length s) :: u64))
      in if after > length i then Inl (Std_exception ''corrupt raft leveldb string'')
         else Inr (string_of_bytes (take (unat (of_nat (length s) :: u64)) (drop pos i)), after))
      (bytes_of_string s) s"
    unfolding reads_on_def
  proof (intro allI impI)
    fix pre post
    assume "addressable (pre @ bytes_of_string s @ post)"
    then have "length pre + length s < 2 ^ 64" by (simp add: addressable_def)
    from fit [OF this]
    show "(let after = unat (of_nat (length pre) + (of_nat (length s) :: u64))
      in if after > length (pre @ bytes_of_string s @ post)
         then Inl (Std_exception ''corrupt raft leveldb string'')
         else Inr (string_of_bytes (take (unat (of_nat (length s) :: u64))
           (drop (length pre) (pre @ bytes_of_string s @ post))), after)) =
      Inr (s, length pre + length (bytes_of_string s))"
      by (simp add: Let_def)
  qed
  then show ?thesis
    unfolding ldb_get_string_def ldb_put_string_def by (rule reads_bind [OF reads_ldb_u64])
qed

text \<open>The lists of a configuration are vectors.\<close>

definition config_sized :: "configuration_state \<Rightarrow> bool" where
  "config_sized c \<longleftrightarrow> length (cs_voters c) \<le> vector_max \<and> length (cs_old_voters c) \<le> vector_max \<and>
     length (cs_learners c) \<le> vector_max"

lemma reads_strings:
  assumes "length v \<le> vector_max"
  shows "reads_on addressable get_strings (put_strings v) v"
proof -
  have "reads_on addressable (get_times (length v) ldb_get_string) (concat (map ldb_put_string v)) v"
    by (rule reads_times_concat) (rule reads_ldb_string)
  moreover have n: "unat (of_nat (length v) :: u64) = length v"
    using assms by (simp add: unat_of_nat vector_max_def)
  moreover have "reads_on addressable (reserve_strings (of_nat (length v))) [] ()"
    using assms n by (simp add: reads_on_def reserve_strings_def)
  ultimately have "reads_on addressable (gbind (reserve_strings (of_nat (length v)))
      (\<lambda>_. get_times (unat (of_nat (length v) :: u64)) ldb_get_string)) ([] @ concat (map ldb_put_string v)) v"
    by (intro reads_bind) simp_all
  then show ?thesis
    unfolding get_strings_def put_strings_def by (intro reads_bind [OF reads_ldb_u64]) simp
qed

lemma put_strings_nonempty: "put_strings v \<noteq> []"
  using length_ldb_put_u64 [of "of_nat (length v)"] unfolding put_strings_def by fastforce

lemma reads_ldb_config:
  assumes "config_sized c"
  shows "reads_on addressable ldb_get_config (ldb_put_config c) c"
  using assms unfolding ldb_get_config_def ldb_put_config_def config_sized_def
  by (auto intro!: reads_bind reads_map reads_strings reads_if_left put_strings_nonempty)

lemma deserialize_state_record:
  "serialize_state h = Inr data \<Longrightarrow> deserialize_state data = Inr h"
proof -
  assume "serialize_state h = Inr data"
  then have data: "data = state_record h" "addressable data"
    by (auto simp: addressable_def serialize_state_def bounded_record_def string_max_def split: if_splits)
  have "reads_on addressable get_state (state_record h) h"
    unfolding get_state_def state_record_def
    by (auto intro!: reads_bind reads_map reads_ldb_u64 reads_ldb_string)
  from reads_all [OF this] data show ?thesis
    by (auto simp: deserialize_state_def state_record_def ldb_put_u64_def)
qed

lemma deserialize_snapshot_record:
  "serialize_snapshot m = Inr data \<Longrightarrow> config_sized (sm_configuration m) \<Longrightarrow>
     deserialize_snapshot data = Inr m"
proof -
  assume "serialize_snapshot m = Inr data" and conf: "config_sized (sm_configuration m)"
  then have data: "data = snapshot_record m" "addressable data"
    by (auto simp: addressable_def serialize_snapshot_def bounded_record_def string_max_def split: if_splits)
  have "reads_on addressable ldb_get_snapshot (snapshot_record m) m"
    unfolding ldb_get_snapshot_def snapshot_record_def
    by (auto intro!: reads_bind reads_map reads_ldb_u64 reads_ldb_string reads_ldb_config conf)
  from reads_all [OF this] data show ?thesis
    by (auto simp: deserialize_snapshot_def snapshot_record_def ldb_put_u64_def)
qed

lemma ucast_scast_u32: "ucast (scast (v :: u32) :: u64) = v"
  by (rule bit_word_eqI) (auto simp: bit_simps)

lemma deserialize_entry_record:
  "serialize_entry e = Inr data \<Longrightarrow> config_sized (le_configuration e) \<Longrightarrow>
     deserialize_entry (le_index e) data = Inr e"
proof -
  assume "serialize_entry e = Inr data" and conf: "config_sized (le_configuration e)"
  then have data: "data = entry_record e" "addressable data"
    by (auto simp: addressable_def serialize_entry_def bounded_record_def string_max_def split: if_splits)
  have "reads_on addressable (ldb_get_entry (le_index e)) (entry_record e) e"
    unfolding ldb_get_entry_def entry_record_def
    by (auto simp: ucast_scast_u32
        intro!: reads_bind reads_map reads_ldb_u64 reads_ldb_string reads_ldb_config conf)
  from reads_all [OF this] data show ?thesis
    by (simp add: deserialize_entry_def)
qed


subsection \<open>Keys sort as the indexes they hold\<close>

primrec dec_pad :: "nat \<Rightarrow> nat \<Rightarrow> string" where
  "dec_pad 0 n = []"
| "dec_pad (Suc k) n = dec_pad k (n div 10) @ [char_of (48 + n mod 10)]"

lemma length_dec_pad [simp]: "length (dec_pad k n) = k"
  by (induction k arbitrary: n) simp_all

lemma dec_pad_zero: "dec_pad k 0 = replicate k (CHR ''0'')"
proof (induction k)
  case (Suc k)
  have "char_of (48 :: nat) = CHR ''0''" by code_simp
  with Suc show ?case by (simp add: replicate_append_same)
qed simp

lemma dec_digits_pad:
  assumes "n < 10 ^ k" and "0 < k"
  shows "length (dec_digits n) \<le> k \<and>
    replicate (k - length (dec_digits n)) (CHR ''0'') @ dec_digits n = dec_pad k n"
  using assms
proof (induction k arbitrary: n)
  case (Suc k)
  show ?case
  proof (cases "n < 10")
    case True
    then show ?thesis by (simp add: dec_digits.simps [of n] dec_pad_zero)
  next
    case False
    then have "n div 10 < 10 ^ k" "0 < k"
      using Suc.prems by (cases k; simp add: less_mult_imp_div_less mult.commute)+
    then have "length (dec_digits (n div 10)) \<le> k \<and>
        replicate (k - length (dec_digits (n div 10))) (CHR ''0'') @ dec_digits (n div 10) =
        dec_pad k (n div 10)"
      by (rule Suc.IH)
    then show ?thesis
      using False by (simp add: dec_digits.simps [of n] flip: append_assoc)
  qed
qed simp

lemma log_key_pad: "log_key i = log_prefix @ dec_pad 20 (unat i)"
proof -
  have "unat i < 10 ^ 20"
    using unsigned_less [of i, where ?'a = nat] by (simp add: order_less_trans)
  then show ?thesis
    using dec_digits_pad [of "unat i" 20] by (simp add: log_key_def Let_def)
qed

lemma snoc_less_iff:
  fixes xs ys :: "'a::linorder list"
  assumes "length xs = length ys"
  shows "xs @ [a] < ys @ [b] \<longleftrightarrow> xs < ys \<or> xs = ys \<and> a < b"
  using assms by (induction xs ys rule: list_induct2) auto

lemma digit_less: "a < 10 \<Longrightarrow> b < 10 \<Longrightarrow> char_of (48 + a) < char_of (48 + b :: nat) \<longleftrightarrow> a < (b :: nat)"
  by (simp add: less_char_def)

lemma div_mod_less:
  "a < b \<longleftrightarrow> a div 10 < b div 10 \<or> a div 10 = b div 10 \<and> a mod 10 < b mod 10" for a b :: nat
proof -
  have "a = 10 * (a div 10) + a mod 10" "b = 10 * (b div 10) + b mod 10"
    "a mod 10 < 10" "b mod 10 < 10"
    by simp_all
  then show ?thesis by linarith
qed

lemma dec_pad_less:
  assumes "a < 10 ^ k" and "b < 10 ^ k"
  shows "dec_pad k a < dec_pad k b \<longleftrightarrow> a < b"
  using assms
proof (induction k arbitrary: a b)
  case (Suc k)
  have d: "a div 10 < 10 ^ k" "b div 10 < 10 ^ k"
    using Suc.prems by (simp_all add: less_mult_imp_div_less mult.commute)
  have eq: "dec_pad k (a div 10) = dec_pad k (b div 10) \<longleftrightarrow> a div 10 = b div 10"
    using Suc.IH [OF d] Suc.IH [OF d(2,1)]
    by (cases "a div 10" "b div 10" rule: linorder_cases) auto
  have "dec_pad (Suc k) a < dec_pad (Suc k) b \<longleftrightarrow>
      a div 10 < b div 10 \<or> a div 10 = b div 10 \<and> a mod 10 < b mod 10"
    by (simp add: snoc_less_iff Suc.IH [OF d] eq digit_less)
  also have "\<dots> \<longleftrightarrow> a < b" by (rule div_mod_less [symmetric])
  finally show ?case .
qed simp

lemma unat_lt_10_20: "unat (i :: u64) < 10 ^ 20"
  using unsigned_less [of i, where ?'a = nat] by (simp add: order_less_trans)

lemma append_less_same: "(xs @ ys < xs @ zs) \<longleftrightarrow> ys < (zs :: 'a::linorder list)"
  by (induction xs) simp_all

lemma log_key_less [simp]: "log_key i < log_key j \<longleftrightarrow> i < j"
  using dec_pad_less [OF unat_lt_10_20 [of i] unat_lt_10_20 [of j]]
  by (simp add: log_key_pad append_less_same word_less_nat_alt)

lemma log_key_eq [simp]: "log_key i = log_key j \<longleftrightarrow> i = j"
  by (metis log_key_less less_irrefl linorder_neqE)

lemma log_key_le [simp]: "log_key i \<le> log_key j \<longleftrightarrow> i \<le> j"
  by (metis log_key_less not_le)

lemma log_key_prefix [simp]: "has_log_prefix (log_key i)"
  by (simp add: has_log_prefix_def log_key_pad log_prefix_def)

lemma digits_value_snoc: "digits_value (ds @ [c]) = 10 * digits_value ds + (of_char c - 48)"
  by (simp add: digits_value_def)

lemma digits_value_dec_pad: "n < 10 ^ k \<Longrightarrow> digits_value (dec_pad k n) = n"
proof (induction k arbitrary: n)
  case (Suc k)
  then have "n div 10 < 10 ^ k" by (simp add: less_mult_imp_div_less mult.commute)
  with Suc.IH show ?case by (simp add: digits_value_snoc)
qed (simp add: digits_value_def)

lemma dec_pad_digits: "c \<in> set (dec_pad k n) \<Longrightarrow> is_digit c"
  by (induction k arbitrary: n) (auto simp: is_digit_def)

lemma stoull_dec_pad:
  assumes "n < 2 ^ 64"
  shows "stoull (dec_pad 20 n) = Inr (of_nat n)"
proof -
  let ?s = "dec_pad 20 n"
  have ne: "?s \<noteq> []" using length_dec_pad [of 20 n] by (metis list.size(3) zero_neq_numeral)
  have dig: "is_digit (hd ?s)" using dec_pad_digits hd_in_set [OF ne] by blast
  then have h: "\<not> is_space (hd ?s)" "hd ?s \<noteq> CHR ''-''" "hd ?s \<noteq> CHR ''+''"
    by (auto simp: is_digit_def is_space_def)
  have "dropWhile is_space ?s = ?s" using ne h(1) by (metis dropWhile_eq_self_iff)
  moreover have "takeWhile is_digit ?s = ?s"
    using dec_pad_digits by (simp add: takeWhile_eq_all_conv)
  moreover have "digits_value ?s = n"
    using assms by (intro digits_value_dec_pad) simp
  ultimately show ?thesis
    using ne h assms by (simp add: stoull_def Let_def del: takeWhile_eq_all_conv)
qed

lemma parse_log_key [simp]: "parse_log_index (log_key i) = Inr i"
proof -
  have "unat i < 2 ^ 64" using unsigned_less [of i, where ?'a = nat] by simp
  from stoull_dec_pad [OF this] show ?thesis
    by (simp add: parse_log_index_def) (simp add: log_key_pad log_prefix_def)
qed


subsection \<open>What the store relies on\<close>



text \<open>The errors a database reports: on a point read or at the end of an iterator, and on a write.\<close>

definition read_error :: "'d leveldb \<Rightarrow> 'd leveldb_store \<Rightarrow> exn \<Rightarrow> bool" where
  "read_error L s e \<longleftrightarrow> (\<exists>msg. e = Std_exception msg \<and>
     ((\<exists>k. db_get L (ls_db s) k = Read_failed msg) \<or> (\<exists>k items. db_scan L (ls_db s) k = (items, Some msg))))"



definition or_thrown :: "'d leveldb \<Rightarrow> 'd leveldb_store \<Rightarrow> exn + 'a \<Rightarrow> exn + 'a \<Rightarrow> bool" where
  "or_thrown L s r r' \<longleftrightarrow> r = r' \<or> (\<exists>e. read_error L s e \<and> r = Inl e)"



lemma or_thrown_refl [simp]: "or_thrown L s r r"
  by (simp add: or_thrown_def)















subsection \<open>The image of a store in the database\<close>

definition log_items :: "log_entry list \<Rightarrow> (string \<times> bytes) list" where
  "log_items es = map (\<lambda>e. (log_key (le_index e), entry_record e)) es"

definition meta_items :: "hard_state option \<Rightarrow> snapshot_metadata option \<Rightarrow> (string \<times> bytes) list" where
  "meta_items ho mo =
     (case ho of None \<Rightarrow> [] | Some h \<Rightarrow> [(hard_state_key, state_record h)]) @
     (case mo of None \<Rightarrow> [] | Some m \<Rightarrow> [(snapshot_key, snapshot_record m)])"

definition fits :: "bytes \<Rightarrow> bool" where
  "fits b \<longleftrightarrow> length b \<le> string_max"

definition entry_ok :: "log_entry \<Rightarrow> bool" where
  "entry_ok e \<longleftrightarrow> fits (entry_record e) \<and> config_sized (le_configuration e)"

definition snapshot_ok :: "snapshot_metadata \<Rightarrow> bool" where
  "snapshot_ok m \<longleftrightarrow> fits (snapshot_record m) \<and> config_sized (sm_configuration m)"



lemma fits_serialize:
  "serialize_state h = (if fits (state_record h) then Inr (state_record h)
     else Inl (Std_exception ''basic_string::append''))"
  "serialize_snapshot m = (if fits (snapshot_record m) then Inr (snapshot_record m)
     else Inl (Std_exception ''basic_string::append''))"
  "serialize_entry e = (if fits (entry_record e) then Inr (entry_record e)
     else Inl (Std_exception ''basic_string::append''))"
  by (simp_all add: serialize_state_def serialize_snapshot_def serialize_entry_def
      bounded_record_def fits_def)

lemma deserialize_fits [simp]:
  "fits (state_record h) \<Longrightarrow> deserialize_state (state_record h) = Inr h"
  "snapshot_ok m \<Longrightarrow> deserialize_snapshot (snapshot_record m) = Inr m"
  "entry_ok e \<Longrightarrow> deserialize_entry (le_index e) (entry_record e) = Inr e"
  using deserialize_state_record deserialize_snapshot_record deserialize_entry_record
  by (simp_all add: fits_serialize entry_ok_def snapshot_ok_def)

lemma meta_keys [simp]:
  "\<not> has_log_prefix hard_state_key" "\<not> has_log_prefix snapshot_key"
  "hard_state_key < snapshot_key" "\<not> snapshot_key < hard_state_key" "hard_state_key \<noteq> snapshot_key" "snapshot_key \<noteq> hard_state_key"
  "log_prefix \<le> hard_state_key" "log_prefix \<le> snapshot_key"
  by (simp_all add: has_log_prefix_def hard_state_key_def snapshot_key_def log_prefix_def
      less_char_def less_eq_char_def)

lemma log_key_below_meta [simp]:
  "log_key i < hard_state_key" "log_key i < snapshot_key" "log_prefix \<le> log_key i"
  by (simp_all add: log_key_pad log_prefix_def hard_state_key_def snapshot_key_def less_char_def)

lemma log_key_not_meta [simp]:
  "log_key i \<noteq> hard_state_key" "log_key i \<noteq> snapshot_key"
  "hard_state_key \<noteq> log_key i" "snapshot_key \<noteq> log_key i"
  "\<not> hard_state_key < log_key i" "\<not> snapshot_key < log_key i"
  "log_key i \<le> hard_state_key" "log_key i \<le> snapshot_key"
  using log_key_below_meta [of i] by (auto simp del: log_key_below_meta)

lemma meta_items_prefix: "item \<in> set (meta_items ho mo) \<Longrightarrow> \<not> has_log_prefix (fst item)"
  by (auto simp: meta_items_def split: option.splits)


lemma map_of_log_items_meta [simp]:
  "map_of (log_items es) hard_state_key = None" "map_of (log_items es) snapshot_key = None"
  by (auto simp: log_items_def map_of_eq_None_iff)



lemma has_log_prefix_key [simp]: "has_log_prefix (log_key i)"
  by (simp add: has_log_prefix_def log_key_pad log_prefix_def)















subsection \<open>The persistent store keeps the abstract view\<close>

text \<open>The result of a read, or a default where it throws; only for the definition of the view.\<close>

definition value_or :: "'a \<Rightarrow> exn + 'a \<Rightarrow> 'a" where
  "value_or dflt r = (case r of Inl _ \<Rightarrow> dflt | Inr x \<Rightarrow> x)"




definition or_default :: "'a \<Rightarrow> 'a option \<Rightarrow> 'a" where
  "or_default x v = (case v of None \<Rightarrow> x | Some y \<Rightarrow> y)"

lemma or_default_simps [simp]: "or_default x None = x" "or_default x (Some y) = y"
  by (simp_all add: or_default_def)

lemma value_or_Inr [simp]: "value_or x (Inr y) = y"
  by (simp add: value_or_def)


























subsection \<open>Properties\<close>





text \<open>C38: A stored length close to \<open>2 ^ 64\<close> is not noticed: the sum of the position and the length wraps to a
  value inside the record, so instead of refusing the record the reader returns all the bytes that are left
  and goes on at the start of the record.\<close>

theorem ldb_string_length_wraps:
  "ldb_get_string (ldb_put_u64 (- 8) @ rest) 0 = Inr (string_of_bytes (take (2 ^ 64 - 8) rest), 0)"
proof -
  have "ldb_get_u64 (ldb_put_u64 (- 8) @ rest) 0 = Inr (- 8, 8)"
    using reads_ldb_u64 [of "\<lambda>_. True" "- 8", unfolded reads_on_def, rule_format, of "[]" rest]
    by simp
  then show ?thesis
    by (simp add: ldb_get_string_def gbind_def)
qed

end
