(* ===== verification/Core_Buffer.thy ===== *)
theory Core_Buffer
  imports Byte_Codec
begin

text \<open>
  The buffers of \<open>src/src/core/buffer_impl.cpp\<close>: \<open>dynamic_buffer\<close>, a byte queue in one growing vector, and
  \<open>buffer_reader\<close> and \<open>buffer_writer\<close>, which move integers of either byte order between memory and values. The
  byte order of the host is a parameter: an integer in memory is its bytes in that order, and \<open>hton\<close> and
  \<open>htole\<close> (\<open>src/src/utils/converter_impl.cpp\<close>) swap where the order asked for is the other one. The
  contract of a byte queue is a locale; the buffer of a QUIC stream is another instance of it.
\<close>


subsection \<open>Memory\<close>

text \<open>\<open>memcpy\<close> and \<open>memmove\<close> into a buffer at a position.\<close>

definition mem_write :: "nat \<Rightarrow> bytes \<Rightarrow> bytes \<Rightarrow> bytes" where
  "mem_write pos src dst = take pos dst @ src @ drop (pos + length src) dst"

lemma length_mem_write [simp]: "pos + length src \<le> length dst \<Longrightarrow> length (mem_write pos src dst) = length dst"
  by (simp add: mem_write_def)

lemma mem_write_segment:
  assumes "i \<le> j" and "j + length src \<le> length dst"
  shows "take (j + length src - i) (drop i (mem_write j src dst)) = take (j - i) (drop i dst) @ src"
proof -
  have "drop i (mem_write j src dst) = take (j - i) (drop i dst) @ src @ drop (j + length src) dst"
    using assms by (simp add: mem_write_def drop_take)
  moreover have "length (take (j - i) (drop i dst)) = j - i" using assms by simp
  ultimately show ?thesis using assms by simp
qed

lemma take_mem_write_front: "length src \<le> length dst \<Longrightarrow> take (length src) (mem_write 0 src dst) = src"
  by (simp add: mem_write_def)

lemma mem_write_at: "p + length bs \<le> length d \<Longrightarrow> take (length bs) (drop p (mem_write p bs d)) = bs"
  using mem_write_segment [of p p bs d] by simp

lemma mem_write_before: "p \<le> length d \<Longrightarrow> take p (mem_write p bs d) = take p d"
  by (simp add: mem_write_def)


subsection \<open>Byte queues\<close>

locale byte_queue =
  fixes invar :: "'q \<Rightarrow> bool" and live :: "'q \<Rightarrow> bytes" and fits :: "nat \<Rightarrow> 'q \<Rightarrow> bool"
    and append :: "bytes \<Rightarrow> 'q \<Rightarrow> 'q" and consume :: "nat \<Rightarrow> 'q \<Rightarrow> 'q" and clear :: "'q \<Rightarrow> 'q"
  assumes append_invar: "invar q \<Longrightarrow> fits (length bs) q \<Longrightarrow> invar (append bs q)"
    and append_live: "invar q \<Longrightarrow> fits (length bs) q \<Longrightarrow> live (append bs q) = live q @ bs"
    and consume_invar: "invar q \<Longrightarrow> n \<le> length (live q) \<Longrightarrow> invar (consume n q)"
    and consume_live: "invar q \<Longrightarrow> n \<le> length (live q) \<Longrightarrow> live (consume n q) = drop n (live q)"
    and clear_invar: "invar q \<Longrightarrow> invar (clear q)"
    and clear_live: "invar q \<Longrightarrow> live (clear q) = []"
    and append_fits: "invar q \<Longrightarrow> fits (length bs + k) q \<Longrightarrow> fits k (append bs q)"
    and consume_fits: "invar q \<Longrightarrow> n \<le> length (live q) \<Longrightarrow> fits k q \<Longrightarrow> fits k (consume n q)"
    and fits_mono: "fits k q \<Longrightarrow> j \<le> k \<Longrightarrow> fits j q"
begin

lemmas laws = append_invar append_live consume_invar consume_live clear_invar clear_live

text \<open>What is read and what is left are what was appended, in order.\<close>

lemma read_front: "invar q \<Longrightarrow> n \<le> length (live q) \<Longrightarrow> take n (live q) @ live (consume n q) = live q"
  by (simp add: consume_live)

text \<open>Pieces appended one after the other are their concatenation.\<close>

lemma fold_append:
  "invar q \<Longrightarrow> fits (length (concat bss)) q \<Longrightarrow>
     invar (fold append bss q) \<and> live (fold append bss q) = live q @ concat bss"
proof (induction bss arbitrary: q)
  case (Cons bs bss)
  then have "fits (length bs) q" "fits (length (concat bss)) (append bs q)"
    using fits_mono append_fits by auto
  with Cons show ?case by (simp add: append_invar append_live)
qed simp

end


subsection \<open>The dynamic buffer\<close>

text \<open>
  Positions and sizes are \<open>std::size_t\<close>: the sum in \<open>prepare\<close> wraps. \<open>std::vector::resize\<close> appends zero bytes,
  or cuts the vector off.
\<close>

record dynamic_buffer =
  db_data :: bytes
  db_read_pos :: nat
  db_write_pos :: nat

definition size_add :: "nat \<Rightarrow> nat \<Rightarrow> nat" where
  "size_add a b = (a + b) mod 2 ^ 64"

definition vec_resize :: "nat \<Rightarrow> bytes \<Rightarrow> bytes" where
  "vec_resize n d = take n d @ replicate (n - length d) 0"

definition mk_dynamic_buffer :: "nat \<Rightarrow> dynamic_buffer" where
  "mk_dynamic_buffer initial_capacity =
     \<lparr>db_data = replicate initial_capacity 0, db_read_pos = 0, db_write_pos = 0\<rparr>"

definition db_readable :: "dynamic_buffer \<Rightarrow> bytes" where
  "db_readable b = take (db_write_pos b - db_read_pos b) (drop (db_read_pos b) (db_data b))"

definition db_readable_bytes :: "dynamic_buffer \<Rightarrow> nat" where
  "db_readable_bytes b = db_write_pos b - db_read_pos b"

text \<open>\<open>prepare\<close>; the region it returns begins at the write position of the buffer it leaves.\<close>

definition db_prepare :: "nat \<Rightarrow> dynamic_buffer \<Rightarrow> dynamic_buffer" where
  "db_prepare n b =
     (let b1 = (if size_add (db_write_pos b) n > length (db_data b) \<and> db_read_pos b > 0
                then b\<lparr>db_data := mem_write 0 (db_readable b) (db_data b), db_read_pos := 0,
                       db_write_pos := db_readable_bytes b\<rparr>
                else b)
      in if size_add (db_write_pos b1) n > length (db_data b1)
         then b1\<lparr>db_data := vec_resize (size_add (db_write_pos b1) n) (db_data b1)\<rparr>
         else b1)"

definition db_commit :: "nat \<Rightarrow> dynamic_buffer \<Rightarrow> dynamic_buffer" where
  "db_commit n b = b\<lparr>db_write_pos := size_add (db_write_pos b) n\<rparr>"

text \<open>What a caller does with the region: it writes to its front.\<close>

definition db_fill :: "bytes \<Rightarrow> dynamic_buffer \<Rightarrow> dynamic_buffer" where
  "db_fill bs b = b\<lparr>db_data := mem_write (db_write_pos b) bs (db_data b)\<rparr>"

definition db_consume :: "nat \<Rightarrow> dynamic_buffer \<Rightarrow> dynamic_buffer" where
  "db_consume n0 b =
     (let n = min n0 (db_readable_bytes b);
          b1 = b\<lparr>db_read_pos := db_read_pos b + n\<rparr>
      in if db_read_pos b1 = db_write_pos b1 then b1\<lparr>db_read_pos := 0, db_write_pos := 0\<rparr> else b1)"

definition db_append :: "bytes \<Rightarrow> dynamic_buffer \<Rightarrow> dynamic_buffer" where
  "db_append bs b =
     (if bs = [] then b else db_commit (length bs) (db_fill bs (db_prepare (length bs) b)))"

definition db_clear :: "dynamic_buffer \<Rightarrow> dynamic_buffer" where
  "db_clear b = b\<lparr>db_read_pos := 0, db_write_pos := 0\<rparr>"

definition db_reserve :: "nat \<Rightarrow> dynamic_buffer \<Rightarrow> dynamic_buffer" where
  "db_reserve capacity b =
     (if capacity \<le> length (db_data b) then b
      else
        let readable = db_readable_bytes b;
            d = (if db_read_pos b \<noteq> 0 \<and> readable \<noteq> 0 then mem_write 0 (db_readable b) (db_data b) else db_data b)
        in b\<lparr>db_read_pos := 0, db_write_pos := readable, db_data := vec_resize capacity d\<rparr>)"


text \<open>The positions are in order and in the vector.\<close>

definition db_ok :: "dynamic_buffer \<Rightarrow> bool" where
  "db_ok b \<longleftrightarrow> db_read_pos b \<le> db_write_pos b \<and> db_write_pos b \<le> length (db_data b)"

text \<open>There is address space for \<open>n\<close> more bytes.\<close>

definition db_fits :: "nat \<Rightarrow> dynamic_buffer \<Rightarrow> bool" where
  "db_fits n b \<longleftrightarrow> db_write_pos b + n < 2 ^ 64"

lemma length_db_readable: "db_ok b \<Longrightarrow> length (db_readable b) = db_readable_bytes b"
  by (auto simp: db_ok_def db_readable_def db_readable_bytes_def min_def)

lemma db_compact:
  assumes "db_ok b"
  defines "b' \<equiv> b\<lparr>db_data := mem_write 0 (db_readable b) (db_data b), db_read_pos := 0, db_write_pos := db_readable_bytes b\<rparr>"
  shows "db_ok b'" and "db_readable b' = db_readable b" and "db_write_pos b' \<le> db_write_pos b"
    and "length (db_data b') = length (db_data b)"
proof -
  have l: "length (db_readable b) = db_readable_bytes b" "db_readable_bytes b \<le> length (db_data b)"
    using length_db_readable [OF assms(1)] assms(1) by (auto simp: db_ok_def db_readable_bytes_def)
  then show len: "length (db_data b') = length (db_data b)" by (simp add: b'_def)
  then show "db_ok b'" using l by (simp add: db_ok_def b'_def)
  have "db_readable b' = take (db_readable_bytes b) (mem_write 0 (db_readable b) (db_data b))"
    unfolding b'_def by (subst db_readable_def) simp
  then show "db_readable b' = db_readable b"
    using take_mem_write_front [of "db_readable b" "db_data b"] l by simp
  show "db_write_pos b' \<le> db_write_pos b" by (simp add: b'_def db_readable_bytes_def)
qed

lemma take_drop_resize:
  "i \<le> j \<Longrightarrow> j \<le> length d \<Longrightarrow> length d \<le> n \<Longrightarrow> take (j - i) (drop i (vec_resize n d)) = take (j - i) (drop i d)"
  by (simp add: vec_resize_def)

lemma db_prepare_room:
  assumes ok: "db_ok b" and fits: "db_fits n b"
  shows "db_ok (db_prepare n b)" and "db_readable (db_prepare n b) = db_readable b"
    and "db_write_pos (db_prepare n b) + n \<le> length (db_data (db_prepare n b))"
    and "db_write_pos (db_prepare n b) \<le> db_write_pos b"
proof -
  define b1 where "b1 = (if size_add (db_write_pos b) n > length (db_data b) \<and> db_read_pos b > 0
      then b\<lparr>db_data := mem_write 0 (db_readable b) (db_data b), db_read_pos := 0, db_write_pos := db_readable_bytes b\<rparr>
      else b)"
  have b1: "db_ok b1" "db_readable b1 = db_readable b" "db_write_pos b1 \<le> db_write_pos b"
    using ok db_compact [OF ok] by (simp_all add: b1_def)
  have s: "size_add (db_write_pos b1) n = db_write_pos b1 + n"
    using b1(3) fits by (simp add: size_add_def db_fits_def)
  have p: "db_prepare n b = (if db_write_pos b1 + n > length (db_data b1)
      then b1\<lparr>db_data := vec_resize (db_write_pos b1 + n) (db_data b1)\<rparr> else b1)"
    unfolding db_prepare_def b1_def [symmetric] Let_def s by simp
  show "db_ok (db_prepare n b)" "db_write_pos (db_prepare n b) \<le> db_write_pos b"
    "db_write_pos (db_prepare n b) + n \<le> length (db_data (db_prepare n b))"
    using b1 unfolding p by (auto simp: db_ok_def vec_resize_def)
  show "db_readable (db_prepare n b) = db_readable b"
    using b1 take_drop_resize [of "db_read_pos b1" "db_write_pos b1" "db_data b1" "db_write_pos b1 + n"]
    unfolding p by (auto simp: db_readable_def [of "b1\<lparr>db_data := _\<rparr>"] db_readable_def [of b1] db_ok_def)
qed

text \<open>Bytes written to a prepared region and committed are appended.\<close>

lemma db_fill_commit:
  assumes "db_ok b" and "db_write_pos b + length bs \<le> length (db_data b)" and "db_fits (length bs) b"
  shows "db_ok (db_commit (length bs) (db_fill bs b))"
    and "db_readable (db_commit (length bs) (db_fill bs b)) = db_readable b @ bs"
    and "db_write_pos (db_commit (length bs) (db_fill bs b)) = db_write_pos b + length bs"
proof -
  have s: "size_add (db_write_pos b) (length bs) = db_write_pos b + length bs"
    using assms(3) by (simp add: size_add_def db_fits_def)
  then show "db_write_pos (db_commit (length bs) (db_fill bs b)) = db_write_pos b + length bs"
    by (simp add: db_commit_def db_fill_def)
  show "db_ok (db_commit (length bs) (db_fill bs b))"
    using assms(1,2) s by (simp add: db_ok_def db_commit_def db_fill_def)
  show "db_readable (db_commit (length bs) (db_fill bs b)) = db_readable b @ bs"
    using mem_write_segment [of "db_read_pos b" "db_write_pos b" bs "db_data b"] assms(1,2) s
    by (simp add: db_readable_def db_ok_def db_commit_def db_fill_def)
qed

lemma db_append_queue:
  assumes "db_ok b" and "db_fits (length bs) b"
  shows "db_ok (db_append bs b)" and "db_readable (db_append bs b) = db_readable b @ bs"
    and "db_write_pos (db_append bs b) \<le> db_write_pos b + length bs"
proof -
  note p = db_prepare_room [OF assms]
  have "db_fits (length bs) (db_prepare (length bs) b)" using p(4) assms(2) by (simp add: db_fits_def)
  note f = db_fill_commit [OF p(1,3) this]
  show "db_ok (db_append bs b)" "db_readable (db_append bs b) = db_readable b @ bs"
    "db_write_pos (db_append bs b) \<le> db_write_pos b + length bs"
    using assms(1) f p by (simp_all add: db_append_def)
qed

lemma db_consume_queue:
  assumes "db_ok b"
  shows "db_ok (db_consume n b)" and "db_readable (db_consume n b) = drop n (db_readable b)"
    and "db_write_pos (db_consume n b) \<le> db_write_pos b"
  using assms by (auto simp: db_consume_def Let_def db_ok_def db_readable_def db_readable_bytes_def min_def drop_take add.commute)

lemma db_reserve_queue:
  assumes ok: "db_ok b"
  shows "db_ok (db_reserve c b)" and "db_readable (db_reserve c b) = db_readable b"
    and "db_write_pos (db_reserve c b) \<le> db_write_pos b"
proof -
  note k = db_compact [OF ok]
  let ?b = "b\<lparr>db_data := mem_write 0 (db_readable b) (db_data b), db_read_pos := 0, db_write_pos := db_readable_bytes b\<rparr>"
  show "db_ok (db_reserve c b)" "db_write_pos (db_reserve c b) \<le> db_write_pos b"
    using ok k by (auto simp: db_reserve_def Let_def db_ok_def vec_resize_def db_readable_bytes_def)
  show "db_readable (db_reserve c b) = db_readable b"
  proof (cases "c \<le> length (db_data b) \<or> db_readable_bytes b = 0")
    case True
    then show ?thesis by (auto simp: db_reserve_def Let_def db_readable_def db_readable_bytes_def)
  next
    case False
    show ?thesis
      using False ok k take_drop_resize [of 0 "db_readable_bytes b" "db_data ?b" c]
        take_drop_resize [of 0 "db_readable_bytes b" "db_data b" c]
      by (auto simp: db_reserve_def Let_def db_ok_def db_readable_def db_readable_bytes_def)
  qed
qed

interpretation dynamic: byte_queue db_ok db_readable db_fits db_append db_consume db_clear
proof
  fix b n bs k assume ok: "db_ok b"
  show "db_ok (db_append bs b)" "db_readable (db_append bs b) = db_readable b @ bs" if "db_fits (length bs) b"
    using db_append_queue [OF ok that] by simp_all
  show "db_ok (db_consume n b)" "db_readable (db_consume n b) = drop n (db_readable b)"
    using db_consume_queue [OF ok] by simp_all
  show "db_ok (db_clear b)" "db_readable (db_clear b) = []"
    by (simp_all add: db_clear_def db_ok_def db_readable_def)
  show "db_fits k (db_append bs b)" if "db_fits (length bs + k) b"
    using db_append_queue(3) [OF ok, of bs] that by (simp add: db_fits_def)
  show "db_fits k (db_consume n b)" if "db_fits k b"
    using db_consume_queue(3) [OF ok, of n] that by (simp add: db_fits_def)
qed (simp add: db_fits_def)


subsection \<open>Byte order\<close>

datatype endian = little | big

definition bswap16 :: "u16 \<Rightarrow> u16" where
  "bswap16 v = drop_bit 8 v OR push_bit 8 v"

definition bswap32 :: "u32 \<Rightarrow> u32" where
  "bswap32 v = (drop_bit 24 v AND 0x000000FF) OR (drop_bit 8 v AND 0x0000FF00) OR
     (push_bit 8 v AND 0x00FF0000) OR (push_bit 24 v AND 0xFF000000)"

definition bswap64 :: "u64 \<Rightarrow> u64" where
  "bswap64 v = (drop_bit 56 v AND 0x00000000000000FF) OR (drop_bit 40 v AND 0x000000000000FF00) OR
     (drop_bit 24 v AND 0x0000000000FF0000) OR (drop_bit 8 v AND 0x00000000FF000000) OR
     (push_bit 8 v AND 0x000000FF00000000) OR (push_bit 24 v AND 0x0000FF0000000000) OR
     (push_bit 40 v AND 0x00FF000000000000) OR (push_bit 56 v AND 0xFF00000000000000)"

definition hton16 :: "endian \<Rightarrow> u16 \<Rightarrow> u16" where
  "hton16 native v = (if native = big then v else bswap16 v)"

definition hton32 :: "endian \<Rightarrow> u32 \<Rightarrow> u32" where
  "hton32 native v = (if native = big then v else bswap32 v)"

definition hton64 :: "endian \<Rightarrow> u64 \<Rightarrow> u64" where
  "hton64 native v = (if native = big then v else bswap64 v)"

definition ntoh16 :: "endian \<Rightarrow> u16 \<Rightarrow> u16" where
  "ntoh16 native v = hton16 native v"

definition ntoh32 :: "endian \<Rightarrow> u32 \<Rightarrow> u32" where
  "ntoh32 native v = hton32 native v"

definition ntoh64 :: "endian \<Rightarrow> u64 \<Rightarrow> u64" where
  "ntoh64 native v = hton64 native v"

definition htole16 :: "endian \<Rightarrow> u16 \<Rightarrow> u16" where
  "htole16 native v = (if native = little then v else bswap16 v)"

definition htole32 :: "endian \<Rightarrow> u32 \<Rightarrow> u32" where
  "htole32 native v = (if native = little then v else bswap32 v)"

definition htole64 :: "endian \<Rightarrow> u64 \<Rightarrow> u64" where
  "htole64 native v = (if native = little then v else bswap64 v)"

definition letoh16 :: "endian \<Rightarrow> u16 \<Rightarrow> u16" where
  "letoh16 native v = htole16 native v"

definition letoh32 :: "endian \<Rightarrow> u32 \<Rightarrow> u32" where
  "letoh32 native v = htole32 native v"

definition letoh64 :: "endian \<Rightarrow> u64 \<Rightarrow> u64" where
  "letoh64 native v = htole64 native v"

text \<open>The bytes of an integer in memory, and the integer some bytes in memory are.\<close>

definition object_bytes :: "endian \<Rightarrow> nat \<Rightarrow> 'a::len word \<Rightarrow> bytes" where
  "object_bytes native k v = (if native = big then be_bytes k v else le_bytes k v)"

definition object_value :: "endian \<Rightarrow> bytes \<Rightarrow> 'a::len word" where
  "object_value native bs = (if native = big then be_value bs else le_value bs)"

lemma byte_masks32:
  "(0xFF :: u32) = push_bit 0 (mask 8)" "(0xFF00 :: u32) = push_bit 8 (mask 8)"
  "(0xFF0000 :: u32) = push_bit 16 (mask 8)" "(0xFF000000 :: u32) = push_bit 24 (mask 8)"
  by (simp_all add: mask_eq_exp_minus_1 push_bit_eq_mult)

lemma byte_masks64:
  "(0xFF :: u64) = push_bit 0 (mask 8)" "(0xFF00 :: u64) = push_bit 8 (mask 8)"
  "(0xFF0000 :: u64) = push_bit 16 (mask 8)" "(0xFF000000 :: u64) = push_bit 24 (mask 8)"
  "(0xFF00000000 :: u64) = push_bit 32 (mask 8)" "(0xFF0000000000 :: u64) = push_bit 40 (mask 8)"
  "(0xFF000000000000 :: u64) = push_bit 48 (mask 8)" "(0xFF00000000000000 :: u64) = push_bit 56 (mask 8)"
  by (simp_all add: mask_eq_exp_minus_1 push_bit_eq_mult)

lemma upt_small:
  "[0..<2] = [0, 1 :: nat]" "[0..<4] = [0, 1, 2, 3 :: nat]" "[0..<8] = [0, 1, 2, 3, 4, 5, 6, 7 :: nat]"
  by (simp_all add: upt_rec)

lemmas byte_lists = be_bytes_def le_bytes_def upt_small

lemma be_bytes_bswap16: "be_bytes 2 (bswap16 v) = le_bytes 2 v"
  unfolding bswap16_def byte_lists
  by simp (intro conjI bit_word_eqI; auto simp: bit_simps ac_simps)

lemma be_bytes_bswap32: "be_bytes 4 (bswap32 v) = le_bytes 4 v"
  unfolding bswap32_def byte_masks32 byte_lists
  by simp (intro conjI bit_word_eqI; auto simp: bit_simps ac_simps)

lemma be_bytes_bswap64: "be_bytes 8 (bswap64 v) = le_bytes 8 v"
  unfolding bswap64_def byte_masks64 byte_lists
  by simp (intro conjI bit_word_eqI; auto simp: bit_simps ac_simps)

text \<open>Converted for the network or to little-endian, an integer has the same bytes on every host.\<close>

lemma object_bytes_order [codec_simps]:
  "object_bytes native 2 (hton16 native v2) = be_bytes 2 v2" "object_bytes native 2 (htole16 native v2) = le_bytes 2 v2"
  "object_bytes native 4 (hton32 native v4) = be_bytes 4 v4" "object_bytes native 4 (htole32 native v4) = le_bytes 4 v4"
  "object_bytes native 8 (hton64 native v8) = be_bytes 8 v8" "object_bytes native 8 (htole64 native v8) = le_bytes 8 v8"
  by (cases native; simp add: object_bytes_def hton16_def htole16_def hton32_def htole32_def hton64_def htole64_def
      be_bytes_bswap16 be_bytes_bswap32 be_bytes_bswap64 le_bytes_rev
      be_bytes_bswap16 [unfolded le_bytes_rev] be_bytes_bswap32 [unfolded le_bytes_rev] be_bytes_bswap64 [unfolded le_bytes_rev])+

lemma be_bytes_inject: "LENGTH('a) \<le> 8 * k \<Longrightarrow> be_bytes k x = be_bytes k y \<Longrightarrow> x = (y :: 'a::len word)"
  by (metis be_value_id)

lemma bswap_bswap: "bswap16 (bswap16 v2) = v2" "bswap32 (bswap32 v4) = v4" "bswap64 (bswap64 v8) = v8"
  by (rule be_bytes_inject [of 2] be_bytes_inject [of 4] be_bytes_inject [of 8];
      simp add: be_bytes_bswap16 be_bytes_bswap32 be_bytes_bswap64 le_bytes_rev)+

lemma object_value_bytes: "LENGTH('a) \<le> 8 * k \<Longrightarrow> object_value native (object_bytes native k v) = (v :: 'a::len word)"
  by (simp add: object_value_def object_bytes_def)

lemma be_bytes_of: "length bs = k \<Longrightarrow> 8 * k \<le> LENGTH('a) \<Longrightarrow> be_bytes k (be_value bs :: 'a::len word) = bs"
  using be_bytes_be_value by blast

lemma bswap_be_value:
  "length b2 = 2 \<Longrightarrow> bswap16 (be_value b2) = le_value b2"
  "length b4 = 4 \<Longrightarrow> bswap32 (be_value b4) = le_value b4"
  "length b8 = 8 \<Longrightarrow> bswap64 (be_value b8) = le_value b8"
proof -
  show "bswap16 (be_value b2) = le_value b2" if "length b2 = 2"
    unfolding le_value_def by (rule be_bytes_inject [of 2])
      (use that in \<open>simp_all add: be_bytes_of be_bytes_bswap16 le_bytes_rev\<close>)
  show "bswap32 (be_value b4) = le_value b4" if "length b4 = 4"
    unfolding le_value_def by (rule be_bytes_inject [of 4])
      (use that in \<open>simp_all add: be_bytes_of be_bytes_bswap32 le_bytes_rev\<close>)
  show "bswap64 (be_value b8) = le_value b8" if "length b8 = 8"
    unfolding le_value_def by (rule be_bytes_inject [of 8])
      (use that in \<open>simp_all add: be_bytes_of be_bytes_bswap64 le_bytes_rev\<close>)
qed

lemma bswap_le_value:
  "length b2 = 2 \<Longrightarrow> bswap16 (le_value b2) = be_value b2"
  "length b4 = 4 \<Longrightarrow> bswap32 (le_value b4) = be_value b4"
  "length b8 = 8 \<Longrightarrow> bswap64 (le_value b8) = be_value b8"
  using bswap_be_value(1) [of "rev b2"] bswap_be_value(2) [of "rev b4"] bswap_be_value(3) [of "rev b8"]
  by (simp_all add: le_value_def)

lemma object_value_order [codec_simps]:
  "length b2 = 2 \<Longrightarrow> ntoh16 native (object_value native b2) = be_value b2"
  "length b2 = 2 \<Longrightarrow> letoh16 native (object_value native b2) = le_value b2"
  "length b4 = 4 \<Longrightarrow> ntoh32 native (object_value native b4) = be_value b4"
  "length b4 = 4 \<Longrightarrow> letoh32 native (object_value native b4) = le_value b4"
  "length b8 = 8 \<Longrightarrow> ntoh64 native (object_value native b8) = be_value b8"
  "length b8 = 8 \<Longrightarrow> letoh64 native (object_value native b8) = le_value b8"
  by (cases native; simp add: object_value_def bswap_be_value bswap_le_value ntoh16_def hton16_def ntoh32_def hton32_def
      ntoh64_def hton64_def letoh16_def htole16_def letoh32_def htole32_def letoh64_def htole64_def)+


subsection \<open>Reading and writing integers\<close>

record buffer_reader =
  br_data :: bytes
  br_pos :: nat

definition mk_buffer_reader :: "bytes \<Rightarrow> buffer_reader" where
  "mk_buffer_reader buffer = \<lparr>br_data = buffer, br_pos = 0\<rparr>"

definition br_remaining :: "buffer_reader \<Rightarrow> nat" where
  "br_remaining r = length (br_data r) - br_pos r"

definition br_skip :: "nat \<Rightarrow> buffer_reader \<Rightarrow> bool \<times> buffer_reader" where
  "br_skip n r = (if br_remaining r < n then (False, r) else (True, r\<lparr>br_pos := br_pos r + n\<rparr>))"

text \<open>\<open>read_bytes\<close> gives the bytes it copies to the destination.\<close>

definition br_read_bytes :: "nat \<Rightarrow> buffer_reader \<Rightarrow> bytes option \<times> buffer_reader" where
  "br_read_bytes n r =
     (if br_remaining r < n then (None, r)
      else (Some (take n (drop (br_pos r) (br_data r))), r\<lparr>br_pos := br_pos r + n\<rparr>))"

definition read_u8 :: "buffer_reader \<Rightarrow> u8 option \<times> buffer_reader" where
  "read_u8 r = (if br_remaining r < 1 then (None, r) else (Some (br_data r ! br_pos r), r\<lparr>br_pos := br_pos r + 1\<rparr>))"

text \<open>\<open>memcpy(&value, data_ + pos_, sizeof(value))\<close>.\<close>

definition read_object :: "endian \<Rightarrow> nat \<Rightarrow> buffer_reader \<Rightarrow> 'a::len word" where
  "read_object native k r = object_value native (take k (drop (br_pos r) (br_data r)))"

definition read_u16_be :: "endian \<Rightarrow> buffer_reader \<Rightarrow> u16 option \<times> buffer_reader" where
  "read_u16_be native r = (if br_remaining r < 2 then (None, r)
     else (Some (ntoh16 native (read_object native 2 r)), r\<lparr>br_pos := br_pos r + 2\<rparr>))"

definition read_u32_be :: "endian \<Rightarrow> buffer_reader \<Rightarrow> u32 option \<times> buffer_reader" where
  "read_u32_be native r = (if br_remaining r < 4 then (None, r)
     else (Some (ntoh32 native (read_object native 4 r)), r\<lparr>br_pos := br_pos r + 4\<rparr>))"

definition read_u64_be :: "endian \<Rightarrow> buffer_reader \<Rightarrow> u64 option \<times> buffer_reader" where
  "read_u64_be native r = (if br_remaining r < 8 then (None, r)
     else (Some (ntoh64 native (read_object native 8 r)), r\<lparr>br_pos := br_pos r + 8\<rparr>))"

definition read_u16_le :: "endian \<Rightarrow> buffer_reader \<Rightarrow> u16 option \<times> buffer_reader" where
  "read_u16_le native r = (if br_remaining r < 2 then (None, r)
     else (Some (letoh16 native (read_object native 2 r)), r\<lparr>br_pos := br_pos r + 2\<rparr>))"

definition read_u32_le :: "endian \<Rightarrow> buffer_reader \<Rightarrow> u32 option \<times> buffer_reader" where
  "read_u32_le native r = (if br_remaining r < 4 then (None, r)
     else (Some (letoh32 native (read_object native 4 r)), r\<lparr>br_pos := br_pos r + 4\<rparr>))"

definition read_u64_le :: "endian \<Rightarrow> buffer_reader \<Rightarrow> u64 option \<times> buffer_reader" where
  "read_u64_le native r = (if br_remaining r < 8 then (None, r)
     else (Some (letoh64 native (read_object native 8 r)), r\<lparr>br_pos := br_pos r + 8\<rparr>))"

record buffer_writer =
  bw_data :: bytes
  bw_pos :: nat

definition mk_buffer_writer :: "bytes \<Rightarrow> buffer_writer" where
  "mk_buffer_writer buffer = \<lparr>bw_data = buffer, bw_pos = 0\<rparr>"

definition bw_remaining :: "buffer_writer \<Rightarrow> nat" where
  "bw_remaining w = length (bw_data w) - bw_pos w"

definition bw_write_bytes :: "bytes \<Rightarrow> buffer_writer \<Rightarrow> bool \<times> buffer_writer" where
  "bw_write_bytes bs w =
     (if bw_remaining w < length bs then (False, w)
      else (True, w\<lparr>bw_data := mem_write (bw_pos w) bs (bw_data w), bw_pos := bw_pos w + length bs\<rparr>))"

definition write_u8 :: "u8 \<Rightarrow> buffer_writer \<Rightarrow> bool \<times> buffer_writer" where
  "write_u8 v w = (if bw_remaining w < 1 then (False, w)
     else (True, w\<lparr>bw_data := (bw_data w)[bw_pos w := v], bw_pos := bw_pos w + 1\<rparr>))"

text \<open>\<open>memcpy(data_ + pos_, &value, sizeof(value))\<close>, which moves the position.\<close>

definition write_object :: "endian \<Rightarrow> nat \<Rightarrow> 'a::len word \<Rightarrow> buffer_writer \<Rightarrow> buffer_writer" where
  "write_object native k v w =
     w\<lparr>bw_data := mem_write (bw_pos w) (object_bytes native k v) (bw_data w), bw_pos := bw_pos w + k\<rparr>"

definition write_u16_be :: "endian \<Rightarrow> u16 \<Rightarrow> buffer_writer \<Rightarrow> bool \<times> buffer_writer" where
  "write_u16_be native v w =
     (if bw_remaining w < 2 then (False, w) else (True, write_object native 2 (hton16 native v) w))"

definition write_u32_be :: "endian \<Rightarrow> u32 \<Rightarrow> buffer_writer \<Rightarrow> bool \<times> buffer_writer" where
  "write_u32_be native v w =
     (if bw_remaining w < 4 then (False, w) else (True, write_object native 4 (hton32 native v) w))"

definition write_u64_be :: "endian \<Rightarrow> u64 \<Rightarrow> buffer_writer \<Rightarrow> bool \<times> buffer_writer" where
  "write_u64_be native v w =
     (if bw_remaining w < 8 then (False, w) else (True, write_object native 8 (hton64 native v) w))"

definition write_u16_le :: "endian \<Rightarrow> u16 \<Rightarrow> buffer_writer \<Rightarrow> bool \<times> buffer_writer" where
  "write_u16_le native v w =
     (if bw_remaining w < 2 then (False, w) else (True, write_object native 2 (htole16 native v) w))"

definition write_u32_le :: "endian \<Rightarrow> u32 \<Rightarrow> buffer_writer \<Rightarrow> bool \<times> buffer_writer" where
  "write_u32_le native v w =
     (if bw_remaining w < 4 then (False, w) else (True, write_object native 4 (htole32 native v) w))"

definition write_u64_le :: "endian \<Rightarrow> u64 \<Rightarrow> buffer_writer \<Rightarrow> bool \<times> buffer_writer" where
  "write_u64_le native v w =
     (if bw_remaining w < 8 then (False, w) else (True, write_object native 8 (htole64 native v) w))"

text \<open>The fields of a record, their writers and readers, and the bytes they stand for on every host.\<close>

datatype field = U8 u8 | U16_be u16 | U32_be u32 | U64_be u64 | U16_le u16 | U32_le u32 | U64_le u64 | Raw bytes

fun write_field :: "endian \<Rightarrow> field \<Rightarrow> buffer_writer \<Rightarrow> bool \<times> buffer_writer" where
  "write_field native (U8 v) w = write_u8 v w"
| "write_field native (U16_be v) w = write_u16_be native v w"
| "write_field native (U32_be v) w = write_u32_be native v w"
| "write_field native (U64_be v) w = write_u64_be native v w"
| "write_field native (U16_le v) w = write_u16_le native v w"
| "write_field native (U32_le v) w = write_u32_le native v w"
| "write_field native (U64_le v) w = write_u64_le native v w"
| "write_field native (Raw bs) w = bw_write_bytes bs w"

text \<open>The reader of the kind of a given field, on its value.\<close>

fun read_like :: "endian \<Rightarrow> field \<Rightarrow> buffer_reader \<Rightarrow> field option \<times> buffer_reader" where
  "read_like native (U8 _) r = apfst (map_option U8) (read_u8 r)"
| "read_like native (U16_be _) r = apfst (map_option U16_be) (read_u16_be native r)"
| "read_like native (U32_be _) r = apfst (map_option U32_be) (read_u32_be native r)"
| "read_like native (U64_be _) r = apfst (map_option U64_be) (read_u64_be native r)"
| "read_like native (U16_le _) r = apfst (map_option U16_le) (read_u16_le native r)"
| "read_like native (U32_le _) r = apfst (map_option U32_le) (read_u32_le native r)"
| "read_like native (U64_le _) r = apfst (map_option U64_le) (read_u64_le native r)"
| "read_like native (Raw bs) r = apfst (map_option Raw) (br_read_bytes (length bs) r)"

fun field_bytes :: "field \<Rightarrow> bytes" where
  "field_bytes (U8 v) = [v]"
| "field_bytes (U16_be v) = be_bytes 2 v"
| "field_bytes (U32_be v) = be_bytes 4 v"
| "field_bytes (U64_be v) = be_bytes 8 v"
| "field_bytes (U16_le v) = le_bytes 2 v"
| "field_bytes (U32_le v) = le_bytes 4 v"
| "field_bytes (U64_le v) = le_bytes 8 v"
| "field_bytes (Raw bs) = bs"

fun write_fields :: "endian \<Rightarrow> field list \<Rightarrow> buffer_writer \<Rightarrow> bool \<times> buffer_writer" where
  "write_fields native [] w = (True, w)"
| "write_fields native (f # fs) w =
     (case write_field native f w of (False, w') \<Rightarrow> (False, w') | (True, w') \<Rightarrow> write_fields native fs w')"

fun read_fields :: "endian \<Rightarrow> field list \<Rightarrow> buffer_reader \<Rightarrow> field list option \<times> buffer_reader" where
  "read_fields native [] r = (Some [], r)"
| "read_fields native (f # fs) r =
     (case read_like native f r of
        (None, r') \<Rightarrow> (None, r')
      | (Some g, r') \<Rightarrow> apfst (map_option (\<lambda>gs. g # gs)) (read_fields native fs r'))"


lemma write_field_bytes:
  assumes "bw_pos w \<le> length (bw_data w)"
  shows "write_field native f w =
    (if bw_remaining w < length (field_bytes f) then (False, w)
     else (True, w\<lparr>bw_data := mem_write (bw_pos w) (field_bytes f) (bw_data w),
                   bw_pos := bw_pos w + length (field_bytes f)\<rparr>))"
proof (cases f)
  case (U8 v)
  have "(bw_data w)[bw_pos w := v] = mem_write (bw_pos w) [v] (bw_data w)" if "bw_pos w < length (bw_data w)"
    using that by (simp add: mem_write_def upd_conv_take_nth_drop)
  then show ?thesis using U8 assms by (auto simp: write_u8_def bw_remaining_def)
qed (simp_all add: write_u16_be_def write_u32_be_def write_u64_be_def write_u16_le_def write_u32_le_def
    write_u64_le_def bw_write_bytes_def write_object_def codec_simps)

lemma object_value_id:
  "ntoh16 native (object_value native (be_bytes 2 v2)) = v2" "letoh16 native (object_value native (le_bytes 2 v2)) = v2"
  "ntoh32 native (object_value native (be_bytes 4 v4)) = v4" "letoh32 native (object_value native (le_bytes 4 v4)) = v4"
  "ntoh64 native (object_value native (be_bytes 8 v8)) = v8" "letoh64 native (object_value native (le_bytes 8 v8)) = v8"
  by (simp_all add: object_value_order)

lemma read_like_bytes:
  assumes "br_pos r + length (field_bytes f) \<le> length (br_data r)"
    and "take (length (field_bytes f)) (drop (br_pos r) (br_data r)) = field_bytes f"
  shows "read_like native f r = (Some f, r\<lparr>br_pos := br_pos r + length (field_bytes f)\<rparr>)"
proof -
  have rem: "\<not> br_remaining r < length (field_bytes f)" using assms(1) by (simp add: br_remaining_def)
  show ?thesis
  proof (cases f)
    case (U8 v)
    obtain y ys where d: "drop (br_pos r) (br_data r) = y # ys"
      using assms(1) U8 by (cases "drop (br_pos r) (br_data r)") auto
    then have "br_data r ! br_pos r = v" using assms(2) U8 nth_via_drop [OF d] by simp
    then show ?thesis using U8 rem by (simp add: read_u8_def)
  next
    case (Raw bs)
    then show ?thesis using rem assms(2) by (simp add: br_read_bytes_def)
  qed (use rem assms(2) in \<open>simp_all add: read_u16_be_def read_u32_be_def read_u64_be_def read_u16_le_def
      read_u32_le_def read_u64_le_def read_object_def object_value_id\<close>)
qed

lemma mem_write_append: "length a + length b \<le> length d \<Longrightarrow>
  mem_write (length a) b (a @ drop (length a) d) = (a @ b) @ drop (length (a @ b)) d"
  by (simp add: mem_write_def add.commute)

text \<open>A writer that has written \<open>out\<close> writes the fields that fit, up to the first that does not.\<close>

lemma write_fields_prefix:
  assumes "bw_data w = out @ drop (length out) buf" and "bw_pos w = length out" and "length out \<le> length buf"
    and "write_fields native fs w = (ok, w')"
  shows "\<exists>k \<le> length fs. let out' = out @ concat (map field_bytes (take k fs)) in
    bw_data w' = out' @ drop (length out') buf \<and> bw_pos w' = length out' \<and> length out' \<le> length buf \<and>
    (if ok then k = length fs else k < length fs \<and> length (out' @ field_bytes (fs ! k)) > length buf)"
  using assms
proof (induction fs arbitrary: w out)
  case Nil
  then show ?case by simp
next
  case (Cons f fs)
  let ?o = "out @ field_bytes f"
  have step: "write_field native f w =
    (if length ?o > length buf then (False, w)
     else (True, w\<lparr>bw_data := mem_write (length out) (field_bytes f) (bw_data w), bw_pos := length ?o\<rparr>))"
    using write_field_bytes [of w native f] Cons.prems(1-3) by (auto simp: bw_remaining_def)
  show ?case
  proof (cases "length ?o > length buf")
    case True
    then show ?thesis using Cons.prems step by (intro exI [of _ 0]) (auto simp: Let_def)
  next
    case False
    define w1 where "w1 = w\<lparr>bw_data := mem_write (length out) (field_bytes f) (bw_data w), bw_pos := length ?o\<rparr>"
    have "bw_data w1 = ?o @ drop (length ?o) buf" "bw_pos w1 = length ?o" "write_fields native fs w1 = (ok, w')"
      using Cons.prems False step mem_write_append [of out "field_bytes f" buf] by (simp_all add: w1_def)
    from Cons.IH [OF this(1,2) _ this(3)] False obtain k where "k \<le> length fs"
      "let out' = ?o @ concat (map field_bytes (take k fs)) in
        bw_data w' = out' @ drop (length out') buf \<and> bw_pos w' = length out' \<and> length out' \<le> length buf \<and>
        (if ok then k = length fs else k < length fs \<and> length (out' @ field_bytes (fs ! k)) > length buf)"
      by auto
    then show ?thesis by (intro exI [of _ "Suc k"]) (auto simp: Let_def)
  qed
qed

lemma read_fields_bytes:
  assumes "br_data r = out @ concat (map field_bytes fs) @ rest" and "br_pos r = length out"
  shows "read_fields native fs r = (Some fs, r\<lparr>br_pos := length out + length (concat (map field_bytes fs))\<rparr>)"
  using assms
proof (induction fs arbitrary: r out)
  case Nil
  then show ?case by simp
next
  case (Cons f fs)
  let ?r = "r\<lparr>br_pos := length (out @ field_bytes f)\<rparr>"
  have "read_like native f r = (Some f, ?r)"
    using read_like_bytes [of r f native] Cons.prems by simp
  moreover have "read_fields native fs ?r =
      (Some fs, ?r\<lparr>br_pos := length (out @ field_bytes f) + length (concat (map field_bytes fs))\<rparr>)"
    by (rule Cons.IH) (use Cons.prems in simp_all)
  ultimately show ?case by (simp add: add.assoc)
qed

lemma concat_take_le: "length (concat (take k xs)) \<le> length (concat xs)"
  by (subst (2) append_take_drop_id [of k xs, symmetric]) (simp only: concat_append length_append le_add1)

lemma concat_take_nth_le:
  assumes "k < length xs"
  shows "length (concat (take k xs)) + length (xs ! k) \<le> length (concat xs)"
  using concat_take_le [of "Suc k" xs] assms by (simp add: take_Suc_conv_app_nth)


text \<open>
  C26: Fields written one after the other by a \<open>buffer_writer\<close> on a host of one byte order are written exactly
  when they fit into the memory, the memory behind them is left as it was, and the readers of the same
  kinds on a host of the same or of the other byte order give the fields back and stop behind them.
\<close>

theorem written_fields_are_read:
  "case write_fields native fs (mk_buffer_writer buf) of (ok, w) \<Rightarrow>
     (\<exists>k \<le> length fs. let out = concat (map field_bytes (take k fs)) in
        bw_data w = out @ drop (length out) buf \<and> length out \<le> length buf \<and> (ok = (k = length fs)) \<and>
        (ok = (length (concat (map field_bytes fs)) \<le> length buf)) \<and>
        read_fields native' (take k fs) (mk_buffer_reader (bw_data w)) =
          (Some (take k fs), \<lparr>br_data = bw_data w, br_pos = bw_pos w\<rparr>))"
proof -
  obtain ok w where w: "write_fields native fs (mk_buffer_writer buf) = (ok, w)" by fastforce
  obtain k where k: "k \<le> length fs" "let out = concat (map field_bytes (take k fs)) in
      bw_data w = out @ drop (length out) buf \<and> bw_pos w = length out \<and> length out \<le> length buf \<and>
      (if ok then k = length fs else k < length fs \<and> length (out @ field_bytes (fs ! k)) > length buf)"
    using write_fields_prefix [OF _ _ _ w, of "[]" buf] by (auto simp: mk_buffer_writer_def)
  define out where "out = concat (map field_bytes (take k fs))"
  have d: "bw_data w = out @ drop (length out) buf" "bw_pos w = length out" "length out \<le> length buf"
    and ok: "if ok then k = length fs else k < length fs \<and> length out + length (field_bytes (fs ! k)) > length buf"
    using k(2) by (auto simp: out_def Let_def split: if_splits)
  have "read_fields native' (take k fs) (mk_buffer_reader (bw_data w)) =
      (Some (take k fs), \<lparr>br_data = bw_data w, br_pos = bw_pos w\<rparr>)"
    using read_fields_bytes [of "mk_buffer_reader (bw_data w)" "[]" "take k fs" "drop (length out) buf" native']
      d(1,2) by (simp add: mk_buffer_reader_def out_def)
  moreover have "\<not> ok \<Longrightarrow> length (concat (map field_bytes fs)) > length buf"
    using ok concat_take_nth_le [of k "map field_bytes fs"] by (auto simp: out_def take_map)
  ultimately show ?thesis
    using w k(1) d ok by (auto simp: out_def Let_def intro!: exI [of _ k] split: if_splits)
qed


subsection \<open>Runs of the dynamic buffer\<close>

text \<open>
  A use of the buffer is a sequence of appends, of regions prepared, filled in front and committed, as a
  receiving socket does it, of consumed bytes, and of \<open>clear\<close> and \<open>reserve\<close>. What it promises is a byte queue.
\<close>

datatype buffer_op = Append bytes | Fill nat bytes | Consume nat | Clear | Reserve nat

fun run_op :: "buffer_op \<Rightarrow> dynamic_buffer \<Rightarrow> dynamic_buffer" where
  "run_op (Append bs) b = db_append bs b"
| "run_op (Fill n bs) b = db_commit (length bs) (db_fill bs (db_prepare n b))"
| "run_op (Consume n) b = db_consume n b"
| "run_op Clear b = db_clear b"
| "run_op (Reserve c) b = db_reserve c b"

fun queue_op :: "buffer_op \<Rightarrow> bytes \<Rightarrow> bytes" where
  "queue_op (Append bs) q = q @ bs"
| "queue_op (Fill n bs) q = q @ bs"
| "queue_op (Consume n) q = drop n q"
| "queue_op Clear q = []"
| "queue_op (Reserve c) q = q"

text \<open>The address space an operation may take, and that a socket writes no more than the region holds.\<close>

fun op_size :: "buffer_op \<Rightarrow> nat" where
  "op_size (Append bs) = length bs"
| "op_size (Fill n bs) = n"
| "op_size _ = 0"

fun op_ok :: "buffer_op \<Rightarrow> bool" where
  "op_ok (Fill n bs) \<longleftrightarrow> length bs \<le> n"
| "op_ok _ \<longleftrightarrow> True"

lemma run_op_queue:
  assumes "db_ok b" and "op_ok oper" and "db_fits (op_size oper) b"
  shows "db_ok (run_op oper b)" and "db_readable (run_op oper b) = queue_op oper (db_readable b)"
    and "db_write_pos (run_op oper b) \<le> db_write_pos b + op_size oper"
proof -
  have "db_ok (run_op oper b) \<and> db_readable (run_op oper b) = queue_op oper (db_readable b) \<and>
      db_write_pos (run_op oper b) \<le> db_write_pos b + op_size oper"
  proof (cases oper)
    case (Append bs)
    then show ?thesis using db_append_queue [OF assms(1), of bs] assms(3) by simp
  next
    case (Fill n bs)
    with assms have n: "length bs \<le> n" "db_fits n b" by simp_all
    note p = db_prepare_room [OF assms(1) n(2)]
    have "db_fits (length bs) (db_prepare n b)" using p(4) n by (simp add: db_fits_def)
    from db_fill_commit [OF p(1) _ this] show ?thesis using p n(1) Fill by simp
  next
    case (Consume n)
    then show ?thesis using db_consume_queue [OF assms(1), of n] by simp
  next
    case (Reserve c)
    then show ?thesis using db_reserve_queue [OF assms(1), of c] by simp
  qed (use assms dynamic.clear_invar dynamic.clear_live in \<open>auto simp: db_clear_def\<close>)
  then show "db_ok (run_op oper b)" and "db_readable (run_op oper b) = queue_op oper (db_readable b)"
    and "db_write_pos (run_op oper b) \<le> db_write_pos b + op_size oper" by simp_all
qed

lemma fold_run_op:
  assumes "db_ok b" and "list_all op_ok ops" and "db_fits (sum_list (map op_size ops)) b"
  shows "db_ok (fold run_op ops b) \<and> db_readable (fold run_op ops b) = fold queue_op ops (db_readable b)"
  using assms
proof (induction ops arbitrary: b)
  case (Cons oper ops)
  then have "db_fits (op_size oper) b" by (simp add: db_fits_def)
  note r = run_op_queue [OF Cons.prems(1) _ this]
  then have "db_fits (sum_list (map op_size ops)) (run_op oper b)"
    using Cons.prems by (simp add: db_fits_def)
  with Cons r show ?case by simp
qed simp


text \<open>
  C25: Over every sequence of appends, receptions into a prepared region, \<open>consume\<close>, \<open>clear\<close> and \<open>reserve\<close> on a
  new \<open>dynamic_buffer\<close>, through every compaction and growth of its vector, the readable bytes are those of a
  queue, and the positions stay in order and in the vector, while the sizes asked for add up to less than
  the address space.
\<close>

theorem dynamic_buffer_is_queue:
  assumes "list_all op_ok ops" and "sum_list (map op_size ops) < 2 ^ 64"
  shows "db_readable (fold run_op ops (mk_dynamic_buffer c)) = fold queue_op ops [] \<and>
    db_ok (fold run_op ops (mk_dynamic_buffer c)) \<and>
    db_readable_bytes (fold run_op ops (mk_dynamic_buffer c)) = length (fold queue_op ops [])"
proof -
  let ?b = "mk_dynamic_buffer c"
  have b: "db_ok ?b" "db_readable ?b = []" "db_fits (sum_list (map op_size ops)) ?b"
    using assms(2) by (simp_all add: mk_dynamic_buffer_def db_ok_def db_readable_def db_fits_def)
  from fold_run_op [OF b(1) assms(1) b(3)] show ?thesis
    using length_db_readable [of "fold run_op ops ?b"] b(2) by simp
qed

theorem dynamic_buffer_is_queue_witness:
  "db_readable (fold run_op [Append [1, 2, 3], Consume 2, Fill 4 [4, 5], Reserve 16, Append [6]] (mk_dynamic_buffer 4)) =
    [3, 4, 5, 6]"
  using dynamic_buffer_is_queue [of "[Append [1, 2, 3], Consume 2, Fill 4 [4, 5], Reserve 16, Append [6]]" 4]
  by simp

end
