(* ===== verification/Quic_Types.thy ===== *)
theory Quic_Types
  imports Byte_Codec
begin

text \<open>
  The types the QUIC theories share, from \<open>src/src/protocol/quic/quic_foundation.cppm\<close> and
  \<open>quic_foundation.cpp\<close>: error codes, roles, stream identifiers and connection identifiers. A function
  that returns \<open>std::expected\<close> with a \<open>std::error_code\<close> returns a sum whose left side is a \<open>quic_error\<close>:
  a portable error condition, an error of the QUIC category, an exception that leaves the function, or the
  end of the process by \<open>std::terminate\<close>.
\<close>

unbundle bit_operations_syntax

datatype std_errc = bad_message | value_too_large | no_buffer_space | operation_not_permitted
  | operation_canceled | operation_would_block

datatype quic_errc = no_error | internal_error | connection_refused | flow_control_error
  | stream_limit_error | stream_state_error | final_size_error | frame_encoding_error
  | transport_parameter_error | connection_id_limit_error | protocol_violation | invalid_token
  | application_error | crypto_buffer_exceeded | key_update_error | aead_limit_reached
  | no_viable_path | crypto_error

datatype quic_error = Std_errc std_errc | Quic_errc quic_errc | Thrown exn | Terminates

datatype quic_role = client | server

type_synonym stream_id = u64

definition is_client_initiated :: "stream_id \<Rightarrow> bool" where
  "is_client_initiated sid = (sid AND 0x01 = 0)"

definition is_server_initiated :: "stream_id \<Rightarrow> bool" where
  "is_server_initiated sid = (sid AND 0x01 = 1)"

text \<open>A connection identifier is its bytes up to its length; the constructors cut at \<open>max_cid_length\<close>.\<close>

type_synonym connection_id = bytes

definition max_cid_length :: nat where
  "max_cid_length = 20"

definition mk_connection_id :: "bytes \<Rightarrow> connection_id" where
  "mk_connection_id data = take max_cid_length data"

end
