(* ===== verification/Quic_Varint.thy ===== *)
theory Quic_Varint
  imports Quic_Types
begin

text \<open>
  QUIC variable-length integers, from \<open>src/src/protocol/quic/varint.cpp\<close> and \<open>varint.cppm\<close>. The two top bits
  of the first byte select a length of 1, 2, 4 or 8 bytes. The output span of \<open>encode_varint_to\<close> and the
  array of \<open>encode_varint\<close> are byte lists that the operations return updated.
\<close>

unbundle bit_operations_syntax

definition max_varint_value :: u64 where
  "max_varint_value = push_bit 62 1 - 1"

definition varint_size :: "u64 \<Rightarrow> nat" where
  "varint_size value =
     (if value < push_bit 6 1 then 1
      else if value < push_bit 14 1 then 2
      else if value < push_bit 30 1 then 4
      else 8)"

definition decode_varint :: "bytes \<Rightarrow> quic_error + u64 \<times> nat" where
  "decode_varint data =
     (if data = [] then Inl (Std_errc bad_message)
      else
        let first = data ! 0;
            prefix = drop_bit 6 first AND 0x03;
            len = 2 ^ unat prefix
        in if length data < len then Inl (Std_errc bad_message)
           else
             let value = foldl (\<lambda>value i. push_bit 8 value OR ucast (data ! i))
                   (ucast (first AND 0x3f)) [1..<len]
             in if value > max_varint_value then Inl (Std_errc value_too_large)
                else Inr (value, len))"

text \<open>The switch over the length, which both encoders contain.\<close>

definition write_varint :: "u64 \<Rightarrow> nat \<Rightarrow> bytes \<Rightarrow> bytes" where
  "write_varint value len out =
     (if len = 1 then out[0 := ucast value]
      else if len = 2 then
        out[0 := ucast (0x40 OR drop_bit 8 value), 1 := ucast (value AND 0xff)]
      else if len = 4 then
        out[0 := ucast (0x80 OR drop_bit 24 value),
            1 := ucast (drop_bit 16 value AND 0xff),
            2 := ucast (drop_bit 8 value AND 0xff),
            3 := ucast (value AND 0xff)]
      else if len = 8 then
        out[0 := ucast (0xc0 OR drop_bit 56 value),
            1 := ucast (drop_bit 48 value AND 0xff),
            2 := ucast (drop_bit 40 value AND 0xff),
            3 := ucast (drop_bit 32 value AND 0xff),
            4 := ucast (drop_bit 24 value AND 0xff),
            5 := ucast (drop_bit 16 value AND 0xff),
            6 := ucast (drop_bit 8 value AND 0xff),
            7 := ucast (value AND 0xff)]
      else out)"

definition encode_varint :: "u64 \<Rightarrow> quic_error + bytes \<times> nat" where
  "encode_varint value =
     (if value > max_varint_value then Inl (Std_errc value_too_large)
      else let len = varint_size value in Inr (write_varint value len (replicate 8 0), len))"

definition encode_varint_to :: "u64 \<Rightarrow> bytes \<Rightarrow> (quic_error + nat) \<times> bytes" where
  "encode_varint_to value output =
     (if value > max_varint_value then (Inl (Std_errc value_too_large), output)
      else
        let len = varint_size value
        in if length output < len then (Inl (Std_errc no_buffer_space), output)
           else (Inr len, write_varint value len output))"


subsection \<open>The bytes of a variable-length integer\<close>

text \<open>The integer with its length code in the two top bits.\<close>

definition length_code :: "nat \<Rightarrow> nat" where
  "length_code len = (if len = 1 then 0 else if len = 2 then 1 else if len = 4 then 2 else 3)"

definition tagged :: "nat \<Rightarrow> u64 \<Rightarrow> u64" where
  "tagged len value = value OR push_bit (8 * len - 2) (of_nat (length_code len))"

lemma varint_size_bound: "v \<le> max_varint_value \<Longrightarrow> v < 2 ^ (8 * varint_size v - 2)"
  by (auto simp: varint_size_def max_varint_value_def intro: le_less_trans)

lemma varint_size_in: "varint_size v \<in> {1, 2, 4, 8}"
  by (simp add: varint_size_def)

lemma byte_overflow:
  "(0x4000 :: byte) = 0" "(0x8000 :: byte) = 0" "(0x800000 :: byte) = 0" "(0x80000000 :: byte) = 0"
  "(0xc000 :: byte) = 0" "(0xc00000 :: byte) = 0" "(0xc0000000 :: byte) = 0"
  "(0xc000000000 :: byte) = 0" "(0xc00000000000 :: byte) = 0" "(0xc0000000000000 :: byte) = 0"
  "(0xc000000000000000 :: byte) = 0"
  by simp_all

lemma write_varint_bytes:
  assumes "len \<in> {1, 2, 4, 8}" and "len \<le> length out"
  shows "write_varint value len out = be_bytes len (tagged len value) @ drop len out"
proof -
  consider "len = 1" | "len = 2" | "len = 4" | "len = 8" using assms(1) by auto
  then show ?thesis
  proof cases
    case 1
    then obtain a out' where "out = a # out'" using assms(2) by (cases out) auto
    with 1 show ?thesis by (simp add: write_varint_def be_bytes_def tagged_def length_code_def)
  next
    case 2
    then obtain a b out' where "out = a # b # out'"
      using assms(2) by (auto simp: numeral_eq_Suc Suc_le_length_iff)
    with 2 show ?thesis
      by (simp add: write_varint_def be_bytes_def tagged_def length_code_def upt_rec unsigned_or_eq byte_overflow or.commute)
  next
    case 3
    then obtain a b c d out' where "out = a # b # c # d # out'"
      using assms(2) by (auto simp: numeral_eq_Suc Suc_le_length_iff)
    with 3 show ?thesis
      by (simp add: write_varint_def be_bytes_def tagged_def length_code_def upt_rec unsigned_or_eq byte_overflow or.commute)
  next
    case 4
    then obtain a b c d e f g h out' where "out = a # b # c # d # e # f # g # h # out'"
      using assms(2) by (auto simp: numeral_eq_Suc Suc_le_length_iff)
    with 4 show ?thesis
      by (simp add: write_varint_def be_bytes_def tagged_def length_code_def upt_rec unsigned_or_eq byte_overflow or.commute)
  qed
qed

lemma unat_exp: "unat (2 ^ m :: 'a::len word) = 2 ^ m mod 2 ^ LENGTH('a)"
  by (metis of_nat_numeral of_nat_power unat_of_nat)

lemma unat_exp_le: "unat (2 ^ m :: 'a::len word) \<le> 2 ^ m"
  by (simp add: unat_exp)

lemma bit_below:
  fixes v :: "'a::len word"
  assumes "v < 2 ^ m" and "m \<le> i"
  shows "\<not> bit v i"
proof -
  have "unat v < 2 ^ m"
    using assms(1) unat_exp_le [of m, where ?'a = 'a] by (simp add: word_less_nat_alt)
  then have "take_bit m (unat v) = unat v" by (simp add: take_bit_nat_eq_self)
  then have "\<not> bit (unat v) i" using assms(2) by (metis bit_take_bit_iff leD)
  then show ?thesis by (auto simp: bit_unsigned_iff)
qed

lemma tagged_top:
  fixes "value" :: u64
  assumes "value < 2 ^ (8 * k + 6)" and "k < 8"
  shows "drop_bit 6 (ucast (drop_bit (8 * k) (value OR push_bit (8 * k + 6) c)) :: byte) AND 0x03 =
      take_bit 2 (ucast c)"
    and "(ucast (drop_bit (8 * k) (value OR push_bit (8 * k + 6) c)) :: byte) AND 0x3f =
      ucast (drop_bit (8 * k) value)"
    and "take_bit (8 * k) (value OR push_bit (8 * k + 6) c) = take_bit (8 * k) value"
proof -
  have top: "\<not> bit value (8 * k + n)" if "6 \<le> n" for n
    using bit_below [OF assms(1)] that by simp
  have m: "(0x03 :: byte) = mask 2" "(0x3f :: byte) = mask 6" by (simp_all add: mask_eq_exp_minus_1)
  show "drop_bit 6 (ucast (drop_bit (8 * k) (value OR push_bit (8 * k + 6) c)) :: byte) AND 0x03 =
      take_bit 2 (ucast c)"
    unfolding m using assms(2) top [of "_ + 6"]
    by (intro bit_word_eqI) (auto simp: bit_simps algebra_simps)
  show "(ucast (drop_bit (8 * k) (value OR push_bit (8 * k + 6) c)) :: byte) AND 0x3f =
      ucast (drop_bit (8 * k) value)"
  proof (rule bit_word_eqI, unfold m)
    fix n assume "n < LENGTH(8)"
    then show "bit ((ucast (drop_bit (8 * k) (value OR push_bit (8 * k + 6) c)) :: byte) AND mask 6) n =
        bit (ucast (drop_bit (8 * k) value) :: byte) n"
      using top [of n] by (cases "n < 6") (simp_all add: bit_simps algebra_simps)
  qed
  show "take_bit (8 * k) (value OR push_bit (8 * k + 6) c) = take_bit (8 * k) value"
    by (rule bit_word_eqI) (auto simp: bit_simps)
qed

lemma decode_tagged:
  assumes k: "k < 8" "Suc k = 2 ^ c" and v: "value < 2 ^ (8 * k + 6)" and c: "c < 4"
  shows "decode_varint (be_bytes (Suc k) (value OR push_bit (8 * k + 6) (of_nat c)) @ rest) =
    Inr (value, Suc k)"
proof -
  let ?w = "value OR push_bit (8 * k + 6) (of_nat c)"
  let ?d = "be_bytes (Suc k) ?w @ rest"
  note top = tagged_top [OF v k(1), of "of_nat c"]
  have first: "?d ! 0 = ucast (drop_bit (8 * k) ?w)" by (simp add: be_bytes_Suc)
  have "unat (take_bit 2 (ucast (of_nat c :: u64)) :: byte) = c"
  proof -
    have "c = 0 \<or> c = 1 \<or> c = 2 \<or> c = 3" using c by auto
    then show ?thesis by auto
  qed
  then have len: "2 ^ unat (drop_bit 6 (?d ! 0) AND 0x03) = Suc k"
    unfolding first top(1) by (simp only: k(2))
  have rest: "foldl (\<lambda>value i. push_bit 8 value OR ucast (?d ! i)) a [1..<Suc k] =
      (push_bit (8 * k) a OR take_bit (8 * k) value :: u64)" for a
  proof -
    have "foldl (\<lambda>value i. push_bit 8 value OR ucast (?d ! i)) a [1..<Suc k] =
        foldl (\<lambda>v n. push_bit 8 v OR ucast (?d ! (1 + n))) a [0..<k]"
      by (simp add: map_Suc_upt [symmetric] foldl_map del: upt_Suc)
    also have "\<dots> = foldl (\<lambda>v b. push_bit 8 v OR ucast b) a (take k (drop 1 ?d))"
      by (rule foldl_offsets) simp
    also have "take k (drop 1 ?d) = be_bytes k ?w" by (simp add: be_bytes_Suc)
    finally show ?thesis by (simp only: foldl_be_bytes top(3))
  qed
  have "push_bit (8 * k) (ucast (ucast (drop_bit (8 * k) value) :: byte)) OR take_bit (8 * k) value = value"
  proof (rule bit_word_eqI)
    fix n assume "n < LENGTH(64)"
    then show "bit (push_bit (8 * k) (ucast (ucast (drop_bit (8 * k) value) :: byte)) OR
        take_bit (8 * k) value) n = bit value n"
      using bit_below [OF v, of n] by (cases "n < 8 * k"; cases "n < 8 * k + 6") (auto simp: bit_simps)
  qed
  then have val: "foldl (\<lambda>value i. push_bit 8 value OR ucast (?d ! i)) (ucast (?d ! 0 AND 0x3f)) [1..<Suc k] = value"
    by (simp only: rest first top(2))
  have "unat value < 2 ^ (8 * k + 6)"
    using v unat_exp_le [of "8 * k + 6", where ?'a = 64] by (simp only: word_less_nat_alt)
  also have "\<dots> \<le> (2 :: nat) ^ 62" using k(1) by (intro power_increasing) auto
  finally have "\<not> value > max_varint_value"
    by (simp add: max_varint_value_def not_less word_le_nat_alt)
  then show ?thesis
    unfolding decode_varint_def Let_def len val by (simp add: be_bytes_Suc)
qed

lemma decode_coded:
  assumes len: "len \<in> {1, 2, 4, 8}" and v: "value < 2 ^ (8 * len - 2)"
  shows "decode_varint (be_bytes len (tagged len value) @ rest) = Inr (value, len)"
proof -
  obtain k where k: "len = Suc k" "k < 8" using len by auto
  have c: "Suc k = 2 ^ length_code len" "length_code len < 4"
    using len unfolding k(1) [symmetric] by (auto simp: length_code_def)
  have e: "8 * len - 2 = 8 * k + 6" using k(1) by simp
  show ?thesis
    using decode_tagged [OF k(2) c(1) v [unfolded e] c(2), of rest]
    unfolding tagged_def e by (simp only: k(1))
qed

lemma decode_written:
  assumes "value \<le> max_varint_value" and "varint_size value \<le> length out"
  shows "decode_varint (take (varint_size value) (write_varint value (varint_size value) out) @ rest) =
    Inr (value, varint_size value)"
  using write_varint_bytes [OF varint_size_in assms(2)]
    decode_coded [OF varint_size_in varint_size_bound [OF assms(1)], of rest]
  by simp

text \<open>What a decoder returns is in range and within the input.\<close>

lemma decode_varint_bounds:
  assumes "decode_varint data = Inr (v, n)"
  shows "v \<le> max_varint_value" "n \<in> {1, 2, 4, 8}" "n \<le> length data"
proof -
  have "unat (b AND 0x03 :: byte) < 4" for b
    using word_and_le1 [of b "0x03"] by (simp add: word_le_nat_alt)
  moreover have "2 ^ n \<in> {1, 2, 4, 8 :: nat}" if "n < 4" for n :: nat
  proof -
    have "n = 0 \<or> n = 1 \<or> n = 2 \<or> n = 3" using that by auto
    then show ?thesis by auto
  qed
  ultimately have "2 ^ unat (drop_bit 6 (data ! 0) AND 0x03) \<in> {1, 2, 4, 8 :: nat}"
    by blast
  then show "v \<le> max_varint_value" "n \<in> {1, 2, 4, 8}" "n \<le> length data"
    using assms by (auto simp: decode_varint_def Let_def split: if_splits)
qed


text \<open>A varint of \<open>n\<close> bytes carries fewer than \<open>8 * n - 1\<close> bits, so no decoder reads a value from fewer
  bytes than the encoder writes for it.\<close>

lemma drop_bit_zero_less:
  fixes w :: u64
  assumes "drop_bit m w = 0" and "m < 64"
  shows "w < 2 ^ m"
proof -
  have "unat w div 2 ^ m = 0"
    using unat_drop_bit_eq [of m w] assms(1) by (simp only: drop_bit_eq_div [of m "unat w"] unat_0)
  moreover have "unat (2 ^ m :: u64) = 2 ^ m"
    using assms(2) power_strict_increasing [of m 64 "2 :: nat"] by (simp add: unat_exp)
  ultimately show ?thesis by (simp add: word_less_nat_alt div_eq_0_iff)
qed

lemma drop_shifted_in_byte:
  fixes w :: u64 and b :: byte
  assumes "drop_bit m w = 0"
  shows "drop_bit (m + 8) (push_bit 8 w OR ucast b) = 0"
proof (rule bit_eqI)
  fix i
  have "bit (drop_bit m w) i = False" by (simp add: assms)
  moreover have "\<not> bit b (m + 8 + i)" using bit_imp_le_length [of b "m + 8 + i"] by auto
  ultimately show "bit (drop_bit (m + 8) (push_bit 8 w OR ucast b)) i = bit (0 :: u64) i"
    by (auto simp: bit_simps ac_simps)
qed

lemma varint_fold_bits:
  fixes data :: bytes
  shows "drop_bit (8 * k + 6) (foldl (\<lambda>value i. push_bit 8 value OR ucast (data ! i))
    (ucast (data ! 0 AND 0x3f)) [1..<Suc k] :: u64) = 0"
proof (induction k)
  case 0
  have m: "(0x3f :: byte) = mask 6" by (simp add: mask_eq_exp_minus_1)
  have "drop_bit 6 (ucast (b AND mask 6) :: u64) = 0" for b :: byte
    by (rule bit_eqI) (simp add: bit_simps del: mask_numeral)
  then show ?case by (simp add: m del: mask_numeral)
next
  case (Suc k)
  then show ?case using drop_shifted_in_byte [of "8 * k + 6" _ "data ! Suc k"] by (simp add: ac_simps)
qed

lemma decode_varint_value_bound:
  assumes "decode_varint data = Inr (v, n)"
  shows "v < 2 ^ (8 * n - 2)"
proof -
  have n: "n \<in> {1, 2, 4, 8}" by (rule decode_varint_bounds [OF assms])
  then obtain k where k: "n = Suc k" "k < 8" by auto
  have "v = foldl (\<lambda>value i. push_bit 8 value OR ucast (data ! i)) (ucast (data ! 0 AND 0x3f)) [1..<n]"
    using assms by (auto simp: decode_varint_def Let_def split: if_splits)
  then have "drop_bit (8 * k + 6) v = 0"
    unfolding k(1) by (simp only: varint_fold_bits)
  moreover have "8 * n - 2 = 8 * k + 6" using k(1) by simp
  ultimately show ?thesis using drop_bit_zero_less k(2) by simp
qed

lemma varint_size_least:
  assumes "decode_varint data = Inr (v, n)"
  shows "varint_size v \<le> n"
  using decode_varint_bounds(2) [OF assms] decode_varint_value_bound [OF assms]
  by (auto simp: varint_size_def)


subsection \<open>Properties\<close>

text \<open>C29: Every value up to \<open>2 ^ 62 - 1\<close> is encoded, and decoding the written bytes, whatever
  follows them, gives the value and the number of bytes back; the encoding is the shortest there is: no
  bytes at all from which the decoder reads this value are fewer. Both encoders write the same bytes, and the
  bytes of the output buffer after them are kept.\<close>

theorem varint_round_trip:
  assumes "value \<le> max_varint_value" and "varint_size value \<le> length out"
  shows "\<exists>buf. encode_varint value = Inr (buf, varint_size value) \<and>
    (\<exists>out'. encode_varint_to value out = (Inr (varint_size value), out') \<and>
       length out' = length out \<and>
       take (varint_size value) out' = take (varint_size value) buf \<and>
       drop (varint_size value) out' = drop (varint_size value) out \<and>
       decode_varint (take (varint_size value) out' @ rest) = Inr (value, varint_size value)) \<and>
    (\<forall>data n. decode_varint data = Inr (value, n) \<longrightarrow> varint_size value \<le> n)"
proof -
  have s8: "varint_size value \<le> length (replicate 8 0 :: bytes)" by (simp add: varint_size_def)
  show ?thesis
    using assms write_varint_bytes [OF varint_size_in assms(2)] write_varint_bytes [OF varint_size_in s8]
      decode_written [OF assms, of rest] varint_size_least
    by (auto simp: encode_varint_def encode_varint_to_def Let_def)
qed

theorem varint_round_trip_witness:
  "\<exists>out'. encode_varint_to 15293 [0, 0, 7] = (Inr 2, out') \<and> decode_varint (take 2 out' @ [9]) = Inr (15293, 2)"
proof -
  have "varint_size 15293 = 2" "(15293 :: u64) \<le> max_varint_value"
    by (simp_all add: varint_size_def max_varint_value_def)
  with varint_round_trip [of 15293 "[0, 0, 7]" "[9]"] show ?thesis by auto
qed

end
