(* ===== verification/Quic_Frame.thy ===== *)
theory Quic_Frame
  imports Quic_Varint
begin

text \<open>
  QUIC frames, from \<open>src/src/protocol/quic/quic_frame.cpp\<close> and \<open>quic_frame.cppm\<close>: the variant of all frame
  structs, the decoder of one frame from the front of a packet payload, and the encoders. The lambdas
  \<open>read_varint\<close> and \<open>read_varint_at\<close>, which decode at an offset and advance it, are the getter
  \<open>read_varint\<close>; a span into the packet is the bytes it views.
\<close>

unbundle bit_operations_syntax


subsection \<open>Frames\<close>

record ack_range =
  ack_gap :: u64
  ack_range_length :: u64

record ack_frame =
  largest_acked :: u64
  ack_delay :: u64
  ack_range_count :: u64
  first_ack_range :: u64
  ack_ranges :: "ack_range list"
  has_ecn :: bool
  ect_0_count :: u64
  ect_1_count :: u64
  ecn_ce_count :: u64

record new_connection_id_frame =
  nc_sequence_number :: u64
  nc_retire_prior_to :: u64
  nc_cid :: connection_id
  nc_stateless_reset_token :: bytes

datatype quic_frame_variant =
    Padding_frame
  | Ping_frame
  | Ack_frame ack_frame
  | Reset_stream_frame (rs_stream_id: u64) (rs_application_error_code: u64) (rs_final_size: u64)
  | Stop_sending_frame (ss_stream_id: u64) (ss_application_error_code: u64)
  | Crypto_frame (cr_offset: u64) (cr_data: bytes)
  | New_token_frame (nt_token: bytes)
  | Stream_frame (st_stream_id: u64) (st_offset: u64) (st_data: bytes) (st_fin: bool)
  | Max_data_frame (md_maximum: u64)
  | Max_stream_data_frame (msd_stream_id: u64) (msd_maximum: u64)
  | Max_streams_frame (ms_maximum: u64) (ms_bidirectional: bool)
  | Data_blocked_frame (db_maximum_data: u64)
  | Stream_data_blocked_frame (sdb_stream_id: u64) (sdb_maximum_stream_data: u64)
  | Streams_blocked_frame (sb_maximum: u64) (sb_bidirectional: bool)
  | New_connection_id_frame new_connection_id_frame
  | Retire_connection_id_frame (rc_sequence_number: u64)
  | Path_challenge_frame (pc_data: bytes)
  | Path_response_frame (pr_data: bytes)
  | Connection_close_frame (cc_error_code: u64) (cc_frame_type_value: u64) (cc_reason: string)
      (cc_is_application_error: bool)
  | Handshake_done_frame
  | Datagram_frame (dg_data: bytes) (dg_has_length: bool)
  | Path_ack_frame (pa_path_id: u32) (pa_acknowledgment: ack_frame)
  | Path_abandon_frame (pab_path_id: u32) (pab_error_code: u64)
  | Path_status_frame (ps_path_id: u32) (ps_sequence_number: u64) (ps_backup: bool)
  | Path_new_connection_id_frame (pn_path_id: u32) (pn_connection_id: new_connection_id_frame)
  | Path_retire_connection_id_frame (prc_path_id: u32) (prc_sequence_number: u64)
  | Max_path_id_frame (mp_maximum_path_id: u32)
  | Paths_blocked_frame (pb_maximum_path_id: u32)
  | Path_cids_blocked_frame (pcb_path_id: u32)

text \<open>The numbers of the multipath frame types.\<close>

definition ft_path_ack :: u64 where "ft_path_ack = 0x15228c00"

definition ft_path_ack_ecn :: u64 where "ft_path_ack_ecn = 0x15228c01"

definition ft_path_abandon :: u64 where "ft_path_abandon = 0x15228c05"

definition ft_path_backup :: u64 where "ft_path_backup = 0x15228c07"

definition ft_path_available :: u64 where "ft_path_available = 0x15228c08"

definition ft_path_new_connection_id :: u64 where "ft_path_new_connection_id = 0x15228c09"

definition ft_path_retire_connection_id :: u64 where "ft_path_retire_connection_id = 0x15228c0a"

definition ft_max_path_id :: u64 where "ft_max_path_id = 0x15228c0c"

definition ft_paths_blocked :: u64 where "ft_paths_blocked = 0x15228c0d"

definition ft_path_cids_blocked :: u64 where "ft_path_cids_blocked = 0x15228c0e"


subsection \<open>Decoding\<close>

definition read_varint :: "(quic_error, u64) egetter" where
  "read_varint data offset =
     (case decode_varint (drop offset data) of
        Inl e \<Rightarrow> Inl e
      | Inr (v, n) \<Rightarrow> Inr (v, offset + n))"

text \<open>
  A getter that takes the following \<open>len\<close> bytes, if the input has them. The lengths read from a packet are
  below \<open>2 ^ 62\<close>, so the sum of the offset and the length does not wrap.
\<close>

definition read_span :: "nat \<Rightarrow> (quic_error, bytes) egetter" where
  "read_span len data offset =
     (if offset + len > length data then Inl (Std_errc bad_message)
      else Inr (take len (drop offset data), offset + len))"

text \<open>
  \<open>reserve\<close> throws \<open>std::length_error\<close> for more elements than a vector of 16-byte elements can have. A
  failure to allocate fewer elements depends on the memory of the process and is not modelled.
\<close>

definition ack_range_max :: u64 where
  "ack_range_max = 2 ^ 59 - 1"

definition reserve_ranges :: "u64 \<Rightarrow> (quic_error, unit) egetter" where
  "reserve_ranges count data offset =
     (if count > ack_range_max then Inl (Thrown (Std_exception ''vector::reserve''))
      else Inr ((), offset))"

definition read_ack_range :: "(quic_error, ack_range) egetter" where
  "read_ack_range =
     gbind read_varint (\<lambda>gap. gbind read_varint (\<lambda>range_len.
     gret \<lparr>ack_gap = gap, ack_range_length = range_len\<rparr>))"

definition decode_ack_frame :: "bool \<Rightarrow> (quic_error, ack_frame) egetter" where
  "decode_ack_frame ecn =
     gbind read_varint (\<lambda>largest. gbind read_varint (\<lambda>delay.
     gbind read_varint (\<lambda>range_count. gbind read_varint (\<lambda>first_range.
     gbind (reserve_ranges range_count) (\<lambda>_.
     gbind (get_times (unat range_count) read_ack_range) (\<lambda>ranges.
     if ecn then
       gbind read_varint (\<lambda>ect_0. gbind read_varint (\<lambda>ect_1. gbind read_varint (\<lambda>ce.
       gret \<lparr>largest_acked = largest, ack_delay = delay, ack_range_count = range_count,
         first_ack_range = first_range, ack_ranges = ranges, has_ecn = True,
         ect_0_count = ect_0, ect_1_count = ect_1, ecn_ce_count = ce\<rparr>)))
     else
       gret \<lparr>largest_acked = largest, ack_delay = delay, ack_range_count = range_count,
         first_ack_range = first_range, ack_ranges = ranges, has_ecn = False,
         ect_0_count = 0, ect_1_count = 0, ecn_ce_count = 0\<rparr>))))))"

definition read_rest :: "(quic_error, bytes) egetter" where
  "read_rest data offset = Inr (drop offset data, length data)"

definition decode_stream_frame :: "u64 \<Rightarrow> (quic_error, quic_frame_variant) egetter" where
  "decode_stream_frame type_value =
     (let has_off = (type_value AND 0x04 \<noteq> 0);
          has_len = (type_value AND 0x02 \<noteq> 0);
          fin = (type_value AND 0x01 \<noteq> 0)
      in gbind read_varint (\<lambda>sid.
         gbind (if has_off then read_varint else gret 0) (\<lambda>off.
         gbind (if has_len then gbind read_varint (\<lambda>len. read_span (unat len)) else read_rest) (\<lambda>data.
         gret (Stream_frame sid off data fin)))))"

definition decode_connection_close_frame :: "bool \<Rightarrow> (quic_error, quic_frame_variant) egetter" where
  "decode_connection_close_frame is_app_error =
     gbind read_varint (\<lambda>err.
     gbind (if \<not> is_app_error then read_varint else gret 0) (\<lambda>ft.
     gbind read_varint (\<lambda>reason_len.
     gbind (read_span (unat reason_len)) (\<lambda>reason.
     gret (Connection_close_frame err ft (string_of_bytes reason) is_app_error)))))"

text \<open>The fields of NEW\_CONNECTION\_ID: an explicit length byte, the identifier, 16 bytes of token.\<close>

definition read_byte :: "(quic_error, byte) egetter" where
  "read_byte data offset =
     (if offset \<ge> length data then Inl (Std_errc bad_message) else Inr (data ! offset, offset + 1))"

definition read_cid :: "bool \<Rightarrow> u64 \<Rightarrow> u64 \<Rightarrow> (quic_error, new_connection_id_frame) egetter" where
  "read_cid allow_empty sequence retire =
     gbind read_byte (\<lambda>cid_len data offset.
       if (\<not> allow_empty \<and> cid_len = 0) \<or> unat cid_len > max_cid_length \<or>
          offset + unat cid_len + 16 > length data
       then Inl (Std_errc bad_message)
       else Inr (\<lparr>nc_sequence_number = sequence, nc_retire_prior_to = retire,
                  nc_cid = mk_connection_id (take (unat cid_len) (drop offset data)),
                  nc_stateless_reset_token = take 16 (drop (offset + unat cid_len) data)\<rparr>,
                 offset + unat cid_len + 16))"

text \<open>Multipath frames report every malformed field as \<open>bad_message\<close>.\<close>

definition or_bad_message :: "(quic_error, 'a) egetter \<Rightarrow> (quic_error, 'a) egetter" where
  "or_bad_message g data offset =
     (case g data offset of Inl _ \<Rightarrow> Inl (Std_errc bad_message) | Inr r \<Rightarrow> Inr r)"

definition read_path_id :: "(quic_error, u32) egetter" where
  "read_path_id =
     gbind (or_bad_message read_varint) (\<lambda>v data offset.
       if v > 0xffffffff then Inl (Std_errc bad_message) else Inr (ucast v, offset))"

text \<open>
  The body of a frame, after its type: the first switch of \<open>decode_frame\<close>, whose default goes on, the test
  for STREAM frames, and the second switch, here in three parts.
\<close>

definition first_switch :: "u64 \<Rightarrow> (quic_error, quic_frame_variant) egetter \<Rightarrow>
    (quic_error, quic_frame_variant) egetter" where
  "first_switch t go_on =
     (if t = 0x00 then gret Padding_frame
      else if t = 0x01 then gret Ping_frame
      else if t = 0x02 \<or> t = 0x03 then
        gbind (decode_ack_frame (t = 0x03)) (\<lambda>f. gret (Ack_frame f))
      else if t = 0x04 then
        gbind read_varint (\<lambda>sid. gbind read_varint (\<lambda>err. gbind read_varint (\<lambda>fs.
        gret (Reset_stream_frame sid err fs))))
      else if t = 0x05 then
        gbind read_varint (\<lambda>sid. gbind read_varint (\<lambda>err. gret (Stop_sending_frame sid err)))
      else if t = 0x06 then
        gbind read_varint (\<lambda>off. gbind read_varint (\<lambda>len. gbind (read_span (unat len)) (\<lambda>data.
        gret (Crypto_frame off data))))
      else if t = 0x07 then
        gbind read_varint (\<lambda>len. gbind (read_span (unat len)) (\<lambda>data. gret (New_token_frame data)))
      else go_on)"

definition multipath_switch :: "u64 \<Rightarrow> (quic_error, quic_frame_variant) egetter" where
  "multipath_switch t =
     (if t = ft_path_ack \<or> t = ft_path_ack_ecn then
        gbind read_path_id (\<lambda>pid. gbind (decode_ack_frame (t = ft_path_ack_ecn)) (\<lambda>f.
        gret (Path_ack_frame pid f)))
      else if t = ft_path_abandon then
        gbind read_path_id (\<lambda>pid. gbind (or_bad_message read_varint) (\<lambda>err.
        gret (Path_abandon_frame pid err)))
      else if t = ft_path_backup \<or> t = ft_path_available then
        gbind read_path_id (\<lambda>pid. gbind (or_bad_message read_varint) (\<lambda>seq.
        gret (Path_status_frame pid seq (t = ft_path_backup))))
      else if t = ft_path_new_connection_id then
        gbind read_path_id (\<lambda>pid. gbind (or_bad_message read_varint) (\<lambda>seq.
        gbind (or_bad_message read_varint) (\<lambda>retire. gbind (read_cid False seq retire) (\<lambda>f.
        gret (Path_new_connection_id_frame pid f)))))
      else if t = ft_path_retire_connection_id then
        gbind read_path_id (\<lambda>pid. gbind (or_bad_message read_varint) (\<lambda>seq.
        gret (Path_retire_connection_id_frame pid seq)))
      else if t = ft_max_path_id then gbind read_path_id (\<lambda>pid. gret (Max_path_id_frame pid))
      else if t = ft_paths_blocked then gbind read_path_id (\<lambda>pid. gret (Paths_blocked_frame pid))
      else if t = ft_path_cids_blocked then
        gbind read_path_id (\<lambda>pid. gret (Path_cids_blocked_frame pid))
      else (\<lambda>_ _. Inl (Std_errc bad_message)))"

definition connection_switch :: "u64 \<Rightarrow> (quic_error, quic_frame_variant) egetter" where
  "connection_switch t =
     (if t = 0x18 then
        gbind read_varint (\<lambda>seq. gbind read_varint (\<lambda>retire. gbind (read_cid True seq retire) (\<lambda>f.
        gret (New_connection_id_frame f))))
      else if t = 0x19 then gbind read_varint (\<lambda>seq. gret (Retire_connection_id_frame seq))
      else if t = 0x1a then gbind (read_span 8) (\<lambda>d. gret (Path_challenge_frame d))
      else if t = 0x1b then gbind (read_span 8) (\<lambda>d. gret (Path_response_frame d))
      else if t = 0x1c \<or> t = 0x1d then decode_connection_close_frame (t = 0x1d)
      else if t = 0x1e then gret Handshake_done_frame
      else if t = 0x30 then gbind read_rest (\<lambda>d. gret (Datagram_frame d False))
      else if t = 0x31 then
        gbind read_varint (\<lambda>len. gbind (read_span (unat len)) (\<lambda>d. gret (Datagram_frame d True)))
      else multipath_switch t)"

definition second_switch :: "u64 \<Rightarrow> (quic_error, quic_frame_variant) egetter" where
  "second_switch t =
     (if t = 0x10 then gbind read_varint (\<lambda>v. gret (Max_data_frame v))
      else if t = 0x11 then
        gbind read_varint (\<lambda>sid. gbind read_varint (\<lambda>v. gret (Max_stream_data_frame sid v)))
      else if t = 0x12 then gbind read_varint (\<lambda>v. gret (Max_streams_frame v True))
      else if t = 0x13 then gbind read_varint (\<lambda>v. gret (Max_streams_frame v False))
      else if t = 0x14 then gbind read_varint (\<lambda>v. gret (Data_blocked_frame v))
      else if t = 0x15 then
        gbind read_varint (\<lambda>sid. gbind read_varint (\<lambda>v. gret (Stream_data_blocked_frame sid v)))
      else if t = 0x16 then gbind read_varint (\<lambda>v. gret (Streams_blocked_frame v True))
      else if t = 0x17 then gbind read_varint (\<lambda>v. gret (Streams_blocked_frame v False))
      else connection_switch t)"

definition decode_body :: "u64 \<Rightarrow> (quic_error, quic_frame_variant) egetter" where
  "decode_body t =
     first_switch t (if 0x08 \<le> t \<and> t \<le> 0x0f then decode_stream_frame t else second_switch t)"

definition decode_frame :: "bytes \<Rightarrow> quic_error + quic_frame_variant \<times> nat" where
  "decode_frame data =
     (if data = [] then Inl (Std_errc bad_message)
      else
        case decode_varint data of
          Inl e \<Rightarrow> Inl e
        | Inr (type_value, type_offset) \<Rightarrow>
            (case decode_body type_value (drop type_offset data) 0 of
               Inl e \<Rightarrow> Inl e
             | Inr (frame, off) \<Rightarrow> Inr (frame, type_offset + off)))"


subsection \<open>Encoding\<close>

text \<open>
  \<open>append_varint\<close> ignores the result of \<open>encode_varint_to\<close>: for a value that is too large it appends the
  zero bytes of the resized vector.
\<close>

definition append_varint :: "u64 \<Rightarrow> bytes" where
  "append_varint value = snd (encode_varint_to value (replicate (varint_size value) 0))"

definition append_ranges :: "ack_range list \<Rightarrow> bytes" where
  "append_ranges rs = concat (map (\<lambda>r. append_varint (ack_gap r) @ append_varint (ack_range_length r)) rs)"

definition append_ack_fields :: "ack_frame \<Rightarrow> bytes" where
  "append_ack_fields f =
     append_varint (largest_acked f) @ append_varint (ack_delay f) @
     append_varint (ack_range_count f) @ append_varint (first_ack_range f) @
     append_ranges (ack_ranges f) @
     (if has_ecn f then
        append_varint (ect_0_count f) @ append_varint (ect_1_count f) @ append_varint (ecn_ce_count f)
      else [])"

definition append_ack_frame :: "ack_frame \<Rightarrow> bytes" where
  "append_ack_frame f = append_varint (if has_ecn f then 0x03 else 0x02) @ append_ack_fields f"

definition append_path_ack_frame :: "u32 \<Rightarrow> ack_frame \<Rightarrow> bytes" where
  "append_path_ack_frame path_id f =
     append_varint (if has_ecn f then ft_path_ack_ecn else ft_path_ack) @
     append_varint (ucast path_id) @ append_ack_fields f"

definition append_cid :: "new_connection_id_frame \<Rightarrow> bytes" where
  "append_cid f =
     append_varint (nc_sequence_number f) @ append_varint (nc_retire_prior_to f) @
     [of_nat (length (nc_cid f))] @ nc_cid f @ nc_stateless_reset_token f"

definition append_sized :: "bytes \<Rightarrow> bytes" where
  "append_sized data = append_varint (of_nat (length data)) @ data"

definition stream_type_byte :: "u64 \<Rightarrow> bool \<Rightarrow> u64" where
  "stream_type_byte off fin =
     (let t = 0x08;
          t = (if off > 0 then t OR 0x04 else t);
          t = t OR 0x02
      in if fin then t OR 0x01 else t)"

definition encode_reset_stream_frame :: "u64 \<Rightarrow> u64 \<Rightarrow> u64 \<Rightarrow> bytes" where
  "encode_reset_stream_frame sid err fs =
     append_varint 0x04 @ append_varint sid @ append_varint err @ append_varint fs"

definition encode_stop_sending_frame :: "u64 \<Rightarrow> u64 \<Rightarrow> bytes" where
  "encode_stop_sending_frame sid err =
     append_varint 0x05 @ append_varint sid @ append_varint err"

definition encode_crypto_frame :: "u64 \<Rightarrow> bytes \<Rightarrow> bytes" where
  "encode_crypto_frame off data =
     append_varint 0x06 @ append_varint off @ append_sized data"

definition encode_new_token_frame :: "bytes \<Rightarrow> bytes" where
  "encode_new_token_frame token =
     append_varint 0x07 @ append_sized token"

definition encode_stream_frame :: "u64 \<Rightarrow> u64 \<Rightarrow> bytes \<Rightarrow> bool \<Rightarrow> bytes" where
  "encode_stream_frame sid off data fin =
     append_varint (stream_type_byte off fin) @ append_varint sid @
     (if off > 0 then append_varint off else []) @ append_sized data"

definition encode_max_data_frame :: "u64 \<Rightarrow> bytes" where
  "encode_max_data_frame v =
     append_varint 0x10 @ append_varint v"

definition encode_max_stream_data_frame :: "u64 \<Rightarrow> u64 \<Rightarrow> bytes" where
  "encode_max_stream_data_frame sid v =
     append_varint 0x11 @ append_varint sid @ append_varint v"

definition encode_max_streams_frame :: "u64 \<Rightarrow> bool \<Rightarrow> bytes" where
  "encode_max_streams_frame v bidi =
     append_varint (if bidi then 0x12 else 0x13) @ append_varint v"

definition encode_data_blocked_frame :: "u64 \<Rightarrow> bytes" where
  "encode_data_blocked_frame v =
     append_varint 0x14 @ append_varint v"

definition encode_stream_data_blocked_frame :: "u64 \<Rightarrow> u64 \<Rightarrow> bytes" where
  "encode_stream_data_blocked_frame sid v =
     append_varint 0x15 @ append_varint sid @ append_varint v"

definition encode_streams_blocked_frame :: "u64 \<Rightarrow> bool \<Rightarrow> bytes" where
  "encode_streams_blocked_frame v bidi =
     append_varint (if bidi then 0x16 else 0x17) @ append_varint v"

definition encode_new_connection_id_frame :: "new_connection_id_frame \<Rightarrow> bytes" where
  "encode_new_connection_id_frame f =
     append_varint 0x18 @ append_cid f"

definition encode_retire_connection_id_frame :: "u64 \<Rightarrow> bytes" where
  "encode_retire_connection_id_frame seq =
     append_varint 0x19 @ append_varint seq"

definition encode_path_challenge_frame :: "bytes \<Rightarrow> bytes" where
  "encode_path_challenge_frame data =
     [0x1a] @ data"

definition encode_path_response_frame :: "bytes \<Rightarrow> bytes" where
  "encode_path_response_frame data =
     [0x1b] @ data"

definition encode_connection_close_frame :: "u64 \<Rightarrow> u64 \<Rightarrow> string \<Rightarrow> bool \<Rightarrow> bytes" where
  "encode_connection_close_frame err ft reason app =
     append_varint (if app then 0x1d else 0x1c) @ append_varint err @
     (if \<not> app then append_varint ft else []) @ append_sized (bytes_of_string reason)"

definition encode_datagram_frame :: "bytes \<Rightarrow> bool \<Rightarrow> bytes" where
  "encode_datagram_frame data has_len =
     append_varint (if has_len then 0x31 else 0x30) @ (if has_len then append_sized data else data)"

definition encode_path_abandon_frame :: "u32 \<Rightarrow> u64 \<Rightarrow> bytes" where
  "encode_path_abandon_frame path_id err =
     append_varint ft_path_abandon @ append_varint (ucast path_id) @ append_varint err"

definition encode_path_status_frame :: "u32 \<Rightarrow> u64 \<Rightarrow> bool \<Rightarrow> bytes" where
  "encode_path_status_frame path_id seq backup =
     append_varint (if backup then ft_path_backup else ft_path_available) @
     append_varint (ucast path_id) @ append_varint seq"

definition encode_path_new_connection_id_frame :: "u32 \<Rightarrow> new_connection_id_frame \<Rightarrow> bytes" where
  "encode_path_new_connection_id_frame path_id f =
     append_varint ft_path_new_connection_id @ append_varint (ucast path_id) @ append_cid f"

definition encode_path_retire_connection_id_frame :: "u32 \<Rightarrow> u64 \<Rightarrow> bytes" where
  "encode_path_retire_connection_id_frame path_id seq =
     append_varint ft_path_retire_connection_id @ append_varint (ucast path_id) @ append_varint seq"

definition encode_max_path_id_frame :: "u32 \<Rightarrow> bytes" where
  "encode_max_path_id_frame m =
     append_varint ft_max_path_id @ append_varint (ucast m)"

definition encode_paths_blocked_frame :: "u32 \<Rightarrow> bytes" where
  "encode_paths_blocked_frame m =
     append_varint ft_paths_blocked @ append_varint (ucast m)"

definition encode_path_cids_blocked_frame :: "u32 \<Rightarrow> bytes" where
  "encode_path_cids_blocked_frame path_id =
     append_varint ft_path_cids_blocked @ append_varint (ucast path_id)"

fun encode_frame :: "quic_frame_variant \<Rightarrow> bytes" where
  "encode_frame Padding_frame = [0x00]"
| "encode_frame Ping_frame = [0x01]"
| "encode_frame (Ack_frame f) = append_ack_frame f"
| "encode_frame (Reset_stream_frame sid err fs) = encode_reset_stream_frame sid err fs"
| "encode_frame (Stop_sending_frame sid err) = encode_stop_sending_frame sid err"
| "encode_frame (Crypto_frame off data) = encode_crypto_frame off data"
| "encode_frame (New_token_frame token) = encode_new_token_frame token"
| "encode_frame (Stream_frame sid off data fin) = encode_stream_frame sid off data fin"
| "encode_frame (Max_data_frame v) = encode_max_data_frame v"
| "encode_frame (Max_stream_data_frame sid v) = encode_max_stream_data_frame sid v"
| "encode_frame (Max_streams_frame v bidi) = encode_max_streams_frame v bidi"
| "encode_frame (Data_blocked_frame v) = encode_data_blocked_frame v"
| "encode_frame (Stream_data_blocked_frame sid v) = encode_stream_data_blocked_frame sid v"
| "encode_frame (Streams_blocked_frame v bidi) = encode_streams_blocked_frame v bidi"
| "encode_frame (New_connection_id_frame f) = encode_new_connection_id_frame f"
| "encode_frame (Retire_connection_id_frame seq) = encode_retire_connection_id_frame seq"
| "encode_frame (Path_challenge_frame data) = encode_path_challenge_frame data"
| "encode_frame (Path_response_frame data) = encode_path_response_frame data"
| "encode_frame (Connection_close_frame err ft reason app) = encode_connection_close_frame err ft reason app"
| "encode_frame Handshake_done_frame = [0x1e]"
| "encode_frame (Datagram_frame data has_len) = encode_datagram_frame data has_len"
| "encode_frame (Path_ack_frame path_id f) = append_path_ack_frame path_id f"
| "encode_frame (Path_abandon_frame path_id err) = encode_path_abandon_frame path_id err"
| "encode_frame (Path_status_frame path_id seq backup) = encode_path_status_frame path_id seq backup"
| "encode_frame (Path_new_connection_id_frame path_id f) = encode_path_new_connection_id_frame path_id f"
| "encode_frame (Path_retire_connection_id_frame path_id seq) = encode_path_retire_connection_id_frame path_id seq"
| "encode_frame (Max_path_id_frame m) = encode_max_path_id_frame m"
| "encode_frame (Paths_blocked_frame m) = encode_paths_blocked_frame m"
| "encode_frame (Path_cids_blocked_frame path_id) = encode_path_cids_blocked_frame path_id"

lemmas encoders [simp] = encode_reset_stream_frame_def encode_stop_sending_frame_def encode_crypto_frame_def
  encode_new_token_frame_def encode_stream_frame_def encode_max_data_frame_def
  encode_max_stream_data_frame_def encode_max_streams_frame_def encode_data_blocked_frame_def
  encode_stream_data_blocked_frame_def encode_streams_blocked_frame_def
  encode_new_connection_id_frame_def encode_retire_connection_id_frame_def
  encode_path_challenge_frame_def encode_path_response_frame_def
  encode_connection_close_frame_def encode_datagram_frame_def encode_path_abandon_frame_def
  encode_path_status_frame_def encode_path_new_connection_id_frame_def
  encode_path_retire_connection_id_frame_def encode_max_path_id_frame_def
  encode_paths_blocked_frame_def encode_path_cids_blocked_frame_def

definition is_ack_eliciting :: "quic_frame_variant \<Rightarrow> bool" where
  "is_ack_eliciting f =
     (case f of
        Padding_frame \<Rightarrow> False
      | Ack_frame _ \<Rightarrow> False
      | Path_ack_frame _ _ \<Rightarrow> False
      | Connection_close_frame _ _ _ _ \<Rightarrow> False
      | _ \<Rightarrow> True)"

definition is_probing :: "quic_frame_variant \<Rightarrow> bool" where
  "is_probing f =
     (case f of
        Path_challenge_frame _ \<Rightarrow> True
      | Path_response_frame _ \<Rightarrow> True
      | Padding_frame \<Rightarrow> True
      | New_connection_id_frame _ \<Rightarrow> True
      | _ \<Rightarrow> False)"


subsection \<open>Well-formed frames\<close>

definition varint_ok :: "u64 \<Rightarrow> bool" where
  "varint_ok v \<longleftrightarrow> v \<le> max_varint_value"

definition size_ok :: "'a list \<Rightarrow> bool" where
  "size_ok xs \<longleftrightarrow> length xs < 2 ^ 62"

definition ack_ok :: "ack_frame \<Rightarrow> bool" where
  "ack_ok f \<longleftrightarrow> varint_ok (largest_acked f) \<and> varint_ok (ack_delay f) \<and>
     varint_ok (first_ack_range f) \<and> ack_range_count f \<le> ack_range_max \<and>
     length (ack_ranges f) = unat (ack_range_count f) \<and>
     list_all (\<lambda>r. varint_ok (ack_gap r) \<and> varint_ok (ack_range_length r)) (ack_ranges f) \<and>
     varint_ok (ect_0_count f) \<and> varint_ok (ect_1_count f) \<and> varint_ok (ecn_ce_count f) \<and>
     (has_ecn f \<or> ect_0_count f = 0 \<and> ect_1_count f = 0 \<and> ecn_ce_count f = 0)"

definition cid_ok :: "new_connection_id_frame \<Rightarrow> bool" where
  "cid_ok f \<longleftrightarrow> varint_ok (nc_sequence_number f) \<and> varint_ok (nc_retire_prior_to f) \<and>
     length (nc_cid f) \<le> max_cid_length \<and> length (nc_stateless_reset_token f) = 16"

fun frame_ok :: "quic_frame_variant \<Rightarrow> bool" where
  "frame_ok (Ack_frame f) = ack_ok f"
| "frame_ok (Reset_stream_frame sid err fs) = (varint_ok sid \<and> varint_ok err \<and> varint_ok fs)"
| "frame_ok (Stop_sending_frame sid err) = (varint_ok sid \<and> varint_ok err)"
| "frame_ok (Crypto_frame off data) = (varint_ok off \<and> size_ok data)"
| "frame_ok (New_token_frame token) = size_ok token"
| "frame_ok (Stream_frame sid off data fin) = (varint_ok sid \<and> varint_ok off \<and> size_ok data)"
| "frame_ok (Max_data_frame v) = varint_ok v"
| "frame_ok (Max_stream_data_frame sid v) = (varint_ok sid \<and> varint_ok v)"
| "frame_ok (Max_streams_frame v bidi) = varint_ok v"
| "frame_ok (Data_blocked_frame v) = varint_ok v"
| "frame_ok (Stream_data_blocked_frame sid v) = (varint_ok sid \<and> varint_ok v)"
| "frame_ok (Streams_blocked_frame v bidi) = varint_ok v"
| "frame_ok (New_connection_id_frame f) = cid_ok f"
| "frame_ok (Retire_connection_id_frame seq) = varint_ok seq"
| "frame_ok (Path_challenge_frame data) = (length data = 8)"
| "frame_ok (Path_response_frame data) = (length data = 8)"
| "frame_ok (Connection_close_frame err ft reason app) =
     (varint_ok err \<and> varint_ok ft \<and> (app \<longrightarrow> ft = 0) \<and> size_ok reason)"
| "frame_ok (Datagram_frame data has_len) = size_ok data"
| "frame_ok (Path_ack_frame path_id f) = ack_ok f"
| "frame_ok (Path_abandon_frame path_id err) = varint_ok err"
| "frame_ok (Path_status_frame path_id seq backup) = varint_ok seq"
| "frame_ok (Path_new_connection_id_frame path_id f) = (cid_ok f \<and> nc_cid f \<noteq> [])"
| "frame_ok (Path_retire_connection_id_frame path_id seq) = varint_ok seq"
| "frame_ok _ = True"

text \<open>A DATAGRAM without a length field extends to the end of the packet.\<close>

fun to_end_of_packet :: "quic_frame_variant \<Rightarrow> bool" where
  "to_end_of_packet (Datagram_frame data has_len) = (\<not> has_len)"
| "to_end_of_packet _ = False"


subsection \<open>Reading back what was written\<close>

lemma append_varint_write:
  "varint_ok v \<Longrightarrow> append_varint v = write_varint v (varint_size v) (replicate (varint_size v) 0)"
  by (auto simp: append_varint_def encode_varint_to_def varint_ok_def Let_def)

lemma length_append_varint [simp]: "varint_ok v \<Longrightarrow> length (append_varint v) = varint_size v"
  by (simp add: append_varint_write write_varint_bytes [OF varint_size_in])

lemma decode_append_varint: "varint_ok v \<Longrightarrow> decode_varint (append_varint v @ rest) = Inr (v, varint_size v)"
  using decode_written [of v "replicate (varint_size v) 0" rest] length_append_varint [of v]
  by (simp add: append_varint_write varint_ok_def)

lemma reads_varint: "varint_ok v \<Longrightarrow> reads_on P read_varint (append_varint v) v"
  by (simp add: reads_on_def read_varint_def decode_append_varint)

lemma varint_ok_size: "size_ok xs \<Longrightarrow> varint_ok (of_nat (length xs)) \<and> unat (of_nat (length xs) :: u64) = length xs"
  by (simp add: size_ok_def varint_ok_def max_varint_value_def word_le_nat_alt unat_of_nat)

lemma reads_span: "length d = n \<Longrightarrow> reads_on P (read_span n) d d"
  by (simp add: reads_on_def read_span_def)

lemma reads_sized:
  assumes "size_ok d"
  shows "reads_on P (gbind read_varint (\<lambda>len. read_span (unat len))) (append_sized d) d"
  unfolding append_sized_def
  using varint_ok_size [OF assms] by (intro reads_bind [OF reads_varint]) (auto intro: reads_span)

lemma reads_sized_then:
  assumes "size_ok d" and "reads_on P (h d) e y"
  shows "reads_on P (gbind read_varint (\<lambda>len. gbind (read_span (unat len)) h)) (append_sized d @ e) y"
proof -
  have "reads_on P (gbind read_varint (\<lambda>len. gbind (read_span (unat len)) h))
      (append_varint (of_nat (length d)) @ d @ e) y"
    using varint_ok_size [OF assms(1)] assms(2)
    by (intro reads_bind [OF reads_varint] reads_bind [OF reads_span]) auto
  then show ?thesis by (simp add: append_sized_def)
qed

lemmas reads_sized_last = reads_sized_then [where e = "[]", simplified]

lemma reads_bind_empty:
  assumes "reads_on P g [] x" and "reads_on P (f x) e y"
  shows "reads_on P (gbind g f) e y"
  using reads_bind [where e = "[]" and f = f and g = g and x = x and e' = e] assms by simp

lemma reads_ack_range:
  "varint_ok (ack_gap r) \<and> varint_ok (ack_range_length r) \<Longrightarrow>
     reads_on P read_ack_range (append_varint (ack_gap r) @ append_varint (ack_range_length r)) r"
  unfolding read_ack_range_def by (auto intro!: reads_bind reads_map reads_varint)

lemma reads_ack_fields:
  assumes "ack_ok f"
  shows "reads_on P (decode_ack_frame (has_ecn f)) (append_ack_fields f) f"
proof -
  have count: "varint_ok (ack_range_count f)"
    using assms by (auto simp: ack_ok_def ack_range_max_def varint_ok_def max_varint_value_def
        intro: order_trans)
  have reserve: "reads_on P (reserve_ranges (ack_range_count f)) [] ()"
    using assms by (auto simp: reads_on_def reserve_ranges_def ack_ok_def)
  have ranges: "reads_on P (get_times (unat (ack_range_count f)) read_ack_range)
      (append_ranges (ack_ranges f)) (ack_ranges f)"
    using assms unfolding append_ranges_def ack_ok_def list_all_iff
    by (metis (no_types, lifting) reads_ack_range reads_times_concat)
  show ?thesis
    using assms count unfolding decode_ack_frame_def append_ack_fields_def
    by (cases "has_ecn f")
      (auto simp: ack_ok_def intro!: reads_bind [OF reads_varint] reads_bind_empty [OF reserve]
        reads_bind [OF ranges] reads_map [OF ranges] reads_map [OF reads_varint])
qed

lemma reads_cid:
  assumes "cid_ok f" and "allow_empty \<or> nc_cid f \<noteq> []"
  shows "reads_on P (read_cid allow_empty (nc_sequence_number f) (nc_retire_prior_to f))
    ([of_nat (length (nc_cid f))] @ nc_cid f @ nc_stateless_reset_token f) f"
proof -
  have len: "length (nc_cid f) \<le> 20" "length (nc_stateless_reset_token f) = 16"
    using assms(1) by (simp_all add: cid_ok_def max_cid_length_def)
  then have u: "unat (of_nat (length (nc_cid f)) :: byte) = length (nc_cid f)"
    by (simp add: unat_of_nat)
  then have "of_nat (length (nc_cid f)) \<noteq> (0 :: byte) \<or> nc_cid f = []"
    by (metis length_0_conv unat_0)
  then show ?thesis
    using assms(2) len u
    by (auto simp: reads_on_def read_cid_def gbind_def read_byte_def max_cid_length_def
        mk_connection_id_def nth_append)
qed

lemma reads_append_cid:
  assumes "cid_ok f" and "allow_empty \<or> nc_cid f \<noteq> []" and "y = h f"
  shows "reads_on P (gbind read_varint (\<lambda>seq. gbind read_varint (\<lambda>retire.
    gbind (read_cid allow_empty seq retire) (\<lambda>f. gret (h f))))) (append_cid f) y"
  using assms reads_cid [OF assms(1,2)] unfolding append_cid_def
  by (intro reads_bind [OF reads_varint] reads_map) (auto simp: cid_ok_def)

lemma reads_or_bad_message: "reads_on P g e x \<Longrightarrow> reads_on P (or_bad_message g) e x"
  by (simp add: reads_on_def or_bad_message_def)

lemma varint_ok_u32: "varint_ok (ucast (w :: u32))"
proof -
  have "unat w < 2 ^ 32" using unsigned_less [of w, where ?'a = nat] by simp
  then show ?thesis by (simp add: varint_ok_def max_varint_value_def word_le_nat_alt unsigned_ucast_eq take_bit_nat_eq_self)
qed

lemma reads_path_id: "reads_on P read_path_id (append_varint (ucast w)) w"
proof -
  have "unat w < 2 ^ 32" using unsigned_less [of w, where ?'a = nat] by simp
  then have "\<not> (ucast w :: u64) > 0xffffffff"
    by (simp add: word_less_nat_alt unsigned_ucast_eq take_bit_nat_eq_self)
  moreover have "ucast (ucast w :: u64) = w" by (rule bit_word_eqI) (simp add: bit_simps)
  ultimately have "reads_on P (\<lambda>data offset. if (ucast w :: u64) > 0xffffffff then Inl (Std_errc bad_message)
      else Inr (ucast (ucast w :: u64), offset)) [] w"
    by (simp add: reads_on_def)
  then show ?thesis
    using reads_bind [OF reads_or_bad_message [OF reads_varint [OF varint_ok_u32 [of w]]],
        where e' = "[]" and y = w]
    unfolding read_path_id_def by simp
qed

lemma reads_or_bad_varint: "varint_ok v \<Longrightarrow> reads_on P (or_bad_message read_varint) (append_varint v) v"
  by (rule reads_or_bad_message [OF reads_varint])

lemma decode_frame_typed:
  assumes "varint_ok t" and "reads (decode_body t) b f"
  shows "decode_frame (append_varint t @ b @ rest) = Inr (f, length (append_varint t @ b))"
proof -
  have "append_varint t \<noteq> []"
    using length_append_varint [OF assms(1)] varint_size_in [of t] by auto
  moreover have "decode_body t (b @ rest) 0 = Inr (f, length b)"
    using assms(2) [unfolded reads_on_def, rule_format, of "[]" rest] by simp
  ultimately show ?thesis
    using assms(1) by (simp add: decode_frame_def decode_append_varint)
qed

lemma append_varint_byte: "v < 64 \<Longrightarrow> append_varint v = [ucast v]"
proof -
  assume v: "v < 64"
  then have "varint_size v = 1" by (simp add: varint_size_def)
  moreover have "varint_ok v"
    using v by (simp add: varint_ok_def max_varint_value_def word_less_nat_alt word_le_nat_alt)
  ultimately show ?thesis by (simp add: append_varint_write write_varint_def)
qed

lemma stream_type_byte_in: "stream_type_byte off fin \<in> {0x0a, 0x0b, 0x0e, 0x0f}"
  by (simp add: stream_type_byte_def Let_def)

lemma reads_stream_body:
  assumes "varint_ok sid" "varint_ok off" "size_ok data"
  shows "reads_on P (decode_stream_frame (stream_type_byte off fin))
    (append_varint sid @ (if off > 0 then append_varint off else []) @ append_sized data)
    (Stream_frame sid off data fin)"
proof -
  have flags: "stream_type_byte off fin AND 0x04 \<noteq> 0 \<longleftrightarrow> off > 0"
    "stream_type_byte off fin AND 0x02 \<noteq> 0" "stream_type_byte off fin AND 0x01 \<noteq> 0 \<longleftrightarrow> fin"
    by (simp_all add: stream_type_byte_def Let_def)
  have "reads_on P (if off > 0 then read_varint else gret 0) (if off > 0 then append_varint off else []) off"
    using assms(2) by (cases "off = 0") (auto simp: word_neq_0_conv intro: reads_varint reads_ret)
  moreover have "reads_on P (gbind (gbind read_varint (\<lambda>len. read_span (unat len)))
      (\<lambda>data. gret (Stream_frame sid off data fin))) (append_sized data) (Stream_frame sid off data fin)"
    by (rule reads_map [OF reads_sized [OF assms(3)]]) simp
  ultimately have "reads_on P (gbind read_varint (\<lambda>sid.
      gbind (if off > 0 then read_varint else gret 0) (\<lambda>off.
      gbind (gbind read_varint (\<lambda>len. read_span (unat len))) (\<lambda>data.
      gret (Stream_frame sid off data fin)))))
      (append_varint sid @ (if off > 0 then append_varint off else []) @ append_sized data)
      (Stream_frame sid off data fin)"
    by (intro reads_bind [OF reads_varint [OF assms(1)]] reads_bind)
  then show ?thesis
    unfolding decode_stream_frame_def Let_def using flags by (simp only: if_True not_False_eq_True)
qed

lemma multipath_types_ok:
  "varint_ok ft_path_ack" "varint_ok ft_path_ack_ecn" "varint_ok ft_path_abandon"
  "varint_ok ft_path_backup" "varint_ok ft_path_available" "varint_ok ft_path_new_connection_id"
  "varint_ok ft_path_retire_connection_id" "varint_ok ft_max_path_id" "varint_ok ft_paths_blocked"
  "varint_ok ft_path_cids_blocked"
  by (simp_all add: varint_ok_def max_varint_value_def ft_path_ack_def ft_path_ack_ecn_def
      ft_path_abandon_def ft_path_backup_def ft_path_available_def ft_path_new_connection_id_def
      ft_path_retire_connection_id_def ft_max_path_id_def ft_paths_blocked_def
      ft_path_cids_blocked_def)

lemma small_type_ok: "t < 64 \<Longrightarrow> varint_ok t"
  by (simp add: varint_ok_def max_varint_value_def word_less_nat_alt word_le_nat_alt)

lemmas ft_defs = ft_path_ack_def ft_path_ack_ecn_def ft_path_abandon_def ft_path_backup_def
  ft_path_available_def ft_path_new_connection_id_def ft_path_retire_connection_id_def
  ft_max_path_id_def ft_paths_blocked_def ft_path_cids_blocked_def

lemmas decode_body_defs = decode_body_def first_switch_def second_switch_def connection_switch_def
  multipath_switch_def

lemma decode_body_core:
  "decode_body 0x00 = gret Padding_frame"
  "decode_body 0x01 = gret Ping_frame"
  "decode_body 0x02 = gbind (decode_ack_frame False) (\<lambda>f. gret (Ack_frame f))"
  "decode_body 0x03 = gbind (decode_ack_frame True) (\<lambda>f. gret (Ack_frame f))"
  "decode_body 0x04 = gbind read_varint (\<lambda>sid. gbind read_varint (\<lambda>err. gbind read_varint (\<lambda>fs.
     gret (Reset_stream_frame sid err fs))))"
  "decode_body 0x05 = gbind read_varint (\<lambda>sid. gbind read_varint (\<lambda>err. gret (Stop_sending_frame sid err)))"
  "decode_body 0x06 = gbind read_varint (\<lambda>off. gbind read_varint (\<lambda>len. gbind (read_span (unat len)) (\<lambda>data.
     gret (Crypto_frame off data))))"
  "decode_body 0x07 = gbind read_varint (\<lambda>len. gbind (read_span (unat len)) (\<lambda>data. gret (New_token_frame data)))"
  "decode_body 0x10 = gbind read_varint (\<lambda>v. gret (Max_data_frame v))"
  "decode_body 0x11 = gbind read_varint (\<lambda>sid. gbind read_varint (\<lambda>v. gret (Max_stream_data_frame sid v)))"
  "decode_body 0x12 = gbind read_varint (\<lambda>v. gret (Max_streams_frame v True))"
  "decode_body 0x13 = gbind read_varint (\<lambda>v. gret (Max_streams_frame v False))"
  "decode_body 0x14 = gbind read_varint (\<lambda>v. gret (Data_blocked_frame v))"
  "decode_body 0x15 = gbind read_varint (\<lambda>sid. gbind read_varint (\<lambda>v. gret (Stream_data_blocked_frame sid v)))"
  "decode_body 0x16 = gbind read_varint (\<lambda>v. gret (Streams_blocked_frame v True))"
  "decode_body 0x17 = gbind read_varint (\<lambda>v. gret (Streams_blocked_frame v False))"
  "decode_body 0x18 = gbind read_varint (\<lambda>seq. gbind read_varint (\<lambda>retire.
     gbind (read_cid True seq retire) (\<lambda>f. gret (New_connection_id_frame f))))"
  "decode_body 0x19 = gbind read_varint (\<lambda>seq. gret (Retire_connection_id_frame seq))"
  "decode_body 0x1a = gbind (read_span 8) (\<lambda>d. gret (Path_challenge_frame d))"
  "decode_body 0x1b = gbind (read_span 8) (\<lambda>d. gret (Path_response_frame d))"
  "decode_body 0x1c = decode_connection_close_frame False"
  "decode_body 0x1d = decode_connection_close_frame True"
  "decode_body 0x1e = gret Handshake_done_frame"
  "decode_body 0x30 = gbind read_rest (\<lambda>d. gret (Datagram_frame d False))"
  "decode_body 0x31 = gbind read_varint (\<lambda>len. gbind (read_span (unat len)) (\<lambda>d. gret (Datagram_frame d True)))"
  by (simp_all add: decode_body_defs ft_defs)

lemma decode_body_multipath:
  "decode_body ft_path_ack = gbind read_path_id (\<lambda>pid. gbind (decode_ack_frame False) (\<lambda>f.
     gret (Path_ack_frame pid f)))"
  "decode_body ft_path_ack_ecn = gbind read_path_id (\<lambda>pid. gbind (decode_ack_frame True) (\<lambda>f.
     gret (Path_ack_frame pid f)))"
  "decode_body ft_path_abandon = gbind read_path_id (\<lambda>pid. gbind (or_bad_message read_varint) (\<lambda>err.
     gret (Path_abandon_frame pid err)))"
  "decode_body ft_path_backup = gbind read_path_id (\<lambda>pid. gbind (or_bad_message read_varint) (\<lambda>seq.
     gret (Path_status_frame pid seq True)))"
  "decode_body ft_path_available = gbind read_path_id (\<lambda>pid. gbind (or_bad_message read_varint) (\<lambda>seq.
     gret (Path_status_frame pid seq False)))"
  "decode_body ft_path_new_connection_id = gbind read_path_id (\<lambda>pid. gbind (or_bad_message read_varint) (\<lambda>seq.
     gbind (or_bad_message read_varint) (\<lambda>retire. gbind (read_cid False seq retire) (\<lambda>f.
     gret (Path_new_connection_id_frame pid f)))))"
  "decode_body ft_path_retire_connection_id = gbind read_path_id (\<lambda>pid. gbind (or_bad_message read_varint) (\<lambda>seq.
     gret (Path_retire_connection_id_frame pid seq)))"
  "decode_body ft_max_path_id = gbind read_path_id (\<lambda>pid. gret (Max_path_id_frame pid))"
  "decode_body ft_paths_blocked = gbind read_path_id (\<lambda>pid. gret (Paths_blocked_frame pid))"
  "decode_body ft_path_cids_blocked = gbind read_path_id (\<lambda>pid. gret (Path_cids_blocked_frame pid))"
  by (simp_all add: decode_body_defs ft_defs)

lemma decode_body_stream: "decode_body (stream_type_byte off fin) = decode_stream_frame (stream_type_byte off fin)"
  using stream_type_byte_in [of off fin]
  by (elim insertE emptyE) (simp_all only:, simp_all add: decode_body_defs)

lemma reads_close_body:
  assumes "varint_ok err" "varint_ok ft" "app \<longrightarrow> ft = 0" "size_ok reason"
  shows "reads_on P (decode_connection_close_frame app)
    (append_varint err @ (if \<not> app then append_varint ft else []) @ append_sized (bytes_of_string reason))
    (Connection_close_frame err ft reason app)"
proof -
  have ft: "reads_on P (if \<not> app then read_varint else gret 0) (if \<not> app then append_varint ft else []) ft"
    using assms(2,3) by (cases app) (auto intro: reads_varint reads_ret)
  have s: "size_ok (bytes_of_string reason)" using assms(4) by (simp add: size_ok_def)
  have "reads_on P (gbind read_varint (\<lambda>reason_len. gbind (read_span (unat reason_len)) (\<lambda>reason.
      gret (Connection_close_frame err ft (string_of_bytes reason) app))))
      (append_sized (bytes_of_string reason)) (Connection_close_frame err ft reason app)"
    by (rule reads_sized_last [OF s]) (simp add: reads_ret)
  then show ?thesis
    unfolding decode_connection_close_frame_def
    by (intro reads_bind [OF reads_varint [OF assms(1)]] reads_bind [OF ft])
qed

text \<open>A frame whose encoding is its type and a body that the decoder of that type reads back.\<close>

definition typed :: "quic_frame_variant \<Rightarrow> bool" where
  "typed f \<longleftrightarrow> (\<exists>t b. encode_frame f = append_varint t @ b \<and> varint_ok t \<and> reads (decode_body t) b f)"

lemma typedI:
  "encode_frame f = append_varint t @ b \<Longrightarrow> varint_ok t \<Longrightarrow> reads (decode_body t) b f \<Longrightarrow> typed f"
  by (auto simp: typed_def)

lemma decode_frame_typed_frame:
  "typed f \<Longrightarrow> decode_frame (encode_frame f @ rest) = Inr (f, length (encode_frame f))"
  by (auto simp: typed_def decode_frame_typed [simplified])

lemmas fields = reads_bind [OF reads_varint] reads_map [OF reads_varint]
lemmas path_fields = reads_bind [OF reads_path_id] reads_map [OF reads_path_id]
  reads_bind [OF reads_or_bad_varint] reads_map [OF reads_or_bad_varint]

lemma typed_bytes:
  "typed Padding_frame" "typed Ping_frame" "typed Handshake_done_frame"
  "length d = 8 \<Longrightarrow> typed (Path_challenge_frame d)" "length d = 8 \<Longrightarrow> typed (Path_response_frame d)"
proof -
  show "typed Padding_frame"
    by (rule typedI [where t = "0x00" and b = "[]"])
      (simp_all add: append_varint_byte decode_body_core small_type_ok reads_ret)
  show "typed Ping_frame"
    by (rule typedI [where t = "0x01" and b = "[]"])
      (simp_all add: append_varint_byte decode_body_core small_type_ok reads_ret)
  show "typed Handshake_done_frame"
    by (rule typedI [where t = "0x1e" and b = "[]"])
      (simp_all add: append_varint_byte decode_body_core small_type_ok reads_ret)
  show "length d = 8 \<Longrightarrow> typed (Path_challenge_frame d)"
    by (rule typedI [where t = "0x1a" and b = d])
      (simp_all add: append_varint_byte decode_body_core small_type_ok reads_map [OF reads_span])
  show "length d = 8 \<Longrightarrow> typed (Path_response_frame d)"
    by (rule typedI [where t = "0x1b" and b = d])
      (simp_all add: append_varint_byte decode_body_core small_type_ok reads_map [OF reads_span])
qed

lemma typed_values:
  "frame_ok (Reset_stream_frame x y z) \<Longrightarrow> typed (Reset_stream_frame x y z)"
  "frame_ok (Stop_sending_frame x y) \<Longrightarrow> typed (Stop_sending_frame x y)"
  "frame_ok (Max_data_frame x) \<Longrightarrow> typed (Max_data_frame x)"
  "frame_ok (Max_stream_data_frame x y) \<Longrightarrow> typed (Max_stream_data_frame x y)"
  "frame_ok (Data_blocked_frame x) \<Longrightarrow> typed (Data_blocked_frame x)"
  "frame_ok (Stream_data_blocked_frame x y) \<Longrightarrow> typed (Stream_data_blocked_frame x y)"
  "frame_ok (Retire_connection_id_frame x) \<Longrightarrow> typed (Retire_connection_id_frame x)"
  by (rule typedI [where t = "0x04"] typedI [where t = "0x05"] typedI [where t = "0x10"]
      typedI [where t = "0x11"] typedI [where t = "0x14"] typedI [where t = "0x15"] typedI [where t = "0x19"],
      simp, simp add: small_type_ok, simp only: decode_body_core, intro fields; simp)+

lemma typed_directions:
  "frame_ok (Max_streams_frame x bidi) \<Longrightarrow> typed (Max_streams_frame x bidi)"
  "frame_ok (Streams_blocked_frame x bidi) \<Longrightarrow> typed (Streams_blocked_frame x bidi)"
proof -
  show "frame_ok (Max_streams_frame x bidi) \<Longrightarrow> typed (Max_streams_frame x bidi)"
    by (cases bidi; rule typedI [where t = "if bidi then 0x12 else 0x13" and b = "append_varint x"])
      (auto simp: small_type_ok decode_body_core intro!: fields)
  show "frame_ok (Streams_blocked_frame x bidi) \<Longrightarrow> typed (Streams_blocked_frame x bidi)"
    by (cases bidi; rule typedI [where t = "if bidi then 0x16 else 0x17" and b = "append_varint x"])
      (auto simp: small_type_ok decode_body_core intro!: fields)
qed

lemma typed_payloads:
  "frame_ok (Crypto_frame x d) \<Longrightarrow> typed (Crypto_frame x d)"
  "frame_ok (New_token_frame d) \<Longrightarrow> typed (New_token_frame d)"
  "frame_ok (Datagram_frame d True) \<Longrightarrow> typed (Datagram_frame d True)"
  "frame_ok (New_connection_id_frame c) \<Longrightarrow> typed (New_connection_id_frame c)"
proof -
  note sized = reads_sized_last [OF _ reads_ret]
  show "frame_ok (Crypto_frame x d) \<Longrightarrow> typed (Crypto_frame x d)"
    by (rule typedI [where t = "0x06" and b = "append_varint x @ append_sized d"])
      (simp_all add: small_type_ok decode_body_core fields sized)
  show "frame_ok (New_token_frame d) \<Longrightarrow> typed (New_token_frame d)"
    by (rule typedI [where t = "0x07" and b = "append_sized d"])
      (simp_all add: small_type_ok decode_body_core sized)
  show "frame_ok (Datagram_frame d True) \<Longrightarrow> typed (Datagram_frame d True)"
    by (intro typedI [where t = "0x31" and b = "append_sized d"])
      (simp_all add: small_type_ok decode_body_core reads_sized_last reads_ret)
  show "frame_ok (New_connection_id_frame c) \<Longrightarrow> typed (New_connection_id_frame c)"
    by (rule typedI [where t = "0x18" and b = "append_cid c"])
      (simp_all add: small_type_ok decode_body_core reads_append_cid)
qed

lemma typed_stream: "frame_ok (Stream_frame x y d fin) \<Longrightarrow> typed (Stream_frame x y d fin)"
  using stream_type_byte_in [of y fin]
  by (intro typedI [where t = "stream_type_byte y fin" and b = "append_varint x @
      (if y > 0 then append_varint y else []) @ append_sized d"])
    (auto simp only: encode_frame.simps decode_body_stream frame_ok.simps intro!: reads_stream_body small_type_ok, auto)

lemma typed_close:
  "frame_ok (Connection_close_frame x y r app) \<Longrightarrow> typed (Connection_close_frame x y r app)"
  by (rule typedI [where t = "if app then 0x1d else 0x1c" and b = "append_varint x @
      (if \<not> app then append_varint y else []) @ append_sized (bytes_of_string r)"])
    (use reads_close_body [of x y app r] in \<open>auto simp: small_type_ok decode_body_core split: if_splits\<close>)

lemma typed_acks:
  "frame_ok (Ack_frame a) \<Longrightarrow> typed (Ack_frame a)"
  "frame_ok (Path_ack_frame p a) \<Longrightarrow> typed (Path_ack_frame p a)"
proof -
  show "frame_ok (Ack_frame a) \<Longrightarrow> typed (Ack_frame a)"
    using reads_ack_fields [of a]
    by (intro typedI [where t = "if has_ecn a then 0x03 else 0x02" and b = "append_ack_fields a"])
      (auto simp: append_ack_frame_def small_type_ok decode_body_core intro!: reads_map)
  show "frame_ok (Path_ack_frame p a) \<Longrightarrow> typed (Path_ack_frame p a)"
    using reads_ack_fields [of a]
    by (intro typedI [where t = "if has_ecn a then ft_path_ack_ecn else ft_path_ack"
          and b = "append_varint (ucast p) @ append_ack_fields a"])
      (auto simp: append_path_ack_frame_def multipath_types_ok decode_body_multipath
        intro!: reads_bind [OF reads_path_id] reads_map)
qed

lemma typed_paths:
  "frame_ok (Path_abandon_frame p x) \<Longrightarrow> typed (Path_abandon_frame p x)"
  "frame_ok (Path_status_frame p x backup) \<Longrightarrow> typed (Path_status_frame p x backup)"
  "frame_ok (Path_retire_connection_id_frame p x) \<Longrightarrow> typed (Path_retire_connection_id_frame p x)"
  "typed (Max_path_id_frame p)" "typed (Paths_blocked_frame p)" "typed (Path_cids_blocked_frame p)"
proof -
  show "frame_ok (Path_abandon_frame p x) \<Longrightarrow> typed (Path_abandon_frame p x)"
    by (rule typedI [where t = ft_path_abandon and b = "append_varint (ucast p) @ append_varint x"])
      (simp_all add: multipath_types_ok decode_body_multipath path_fields)
  show "frame_ok (Path_status_frame p x backup) \<Longrightarrow> typed (Path_status_frame p x backup)"
    by (rule typedI [where t = "if backup then ft_path_backup else ft_path_available"
          and b = "append_varint (ucast p) @ append_varint x"])
      (auto simp: multipath_types_ok decode_body_multipath intro!: path_fields)
  show "frame_ok (Path_retire_connection_id_frame p x) \<Longrightarrow> typed (Path_retire_connection_id_frame p x)"
    by (rule typedI [where t = ft_path_retire_connection_id
          and b = "append_varint (ucast p) @ append_varint x"])
      (simp_all add: multipath_types_ok decode_body_multipath path_fields)
  show "typed (Max_path_id_frame p)" "typed (Paths_blocked_frame p)" "typed (Path_cids_blocked_frame p)"
    by (rule typedI [where t = ft_max_path_id] typedI [where t = ft_paths_blocked]
        typedI [where t = ft_path_cids_blocked],
        simp, simp add: multipath_types_ok, simp only: decode_body_multipath, intro path_fields, simp)+
qed

lemma typed_path_cid:
  assumes "frame_ok (Path_new_connection_id_frame p c)"
  shows "typed (Path_new_connection_id_frame p c)"
proof (rule typedI [where t = ft_path_new_connection_id and b = "append_varint (ucast p) @ append_cid c"])
  have "reads (gbind (or_bad_message read_varint) (\<lambda>seq. gbind (or_bad_message read_varint) (\<lambda>retire.
      gbind (read_cid False seq retire) (\<lambda>f. gret (Path_new_connection_id_frame p f)))))
      (append_cid c) (Path_new_connection_id_frame p c)"
    using assms reads_cid [of c False "\<lambda>_. True"] unfolding append_cid_def
    by (intro reads_bind [OF reads_or_bad_varint] reads_map) (auto simp: cid_ok_def)
  then show "reads (decode_body ft_path_new_connection_id) (append_varint (ucast p) @ append_cid c)
      (Path_new_connection_id_frame p c)"
    unfolding decode_body_multipath by (rule reads_bind [OF reads_path_id])
qed (simp_all add: multipath_types_ok)

lemma frame_typed: "frame_ok f \<Longrightarrow> \<not> to_end_of_packet f \<Longrightarrow> typed f"
  by (cases f)
    (simp_all add: typed_bytes typed_values [simplified] typed_directions [simplified]
      typed_payloads [simplified] typed_stream [simplified] typed_close [simplified]
      typed_acks [simplified] typed_paths [simplified] typed_path_cid [simplified])


subsection \<open>What a decoder returns\<close>

text \<open>\<open>gives g P\<close>: on a packet of less than \<open>2 ^ 62\<close> bytes, what \<open>g\<close> returns satisfies \<open>P\<close>, and \<open>g\<close> neither
  moves back nor leaves the packet.\<close>

definition gives :: "(quic_error, 'a) egetter \<Rightarrow> ('a \<Rightarrow> bool) \<Rightarrow> bool" where
  "gives g P \<longleftrightarrow> (\<forall>i p x q. size_ok i \<longrightarrow> p \<le> length i \<longrightarrow> g i p = Inr (x, q) \<longrightarrow>
     P x \<and> p \<le> q \<and> q \<le> length i)"

lemma givesD: "gives g P \<Longrightarrow> size_ok i \<Longrightarrow> p \<le> length i \<Longrightarrow> g i p = Inr (x, q) \<Longrightarrow>
    P x \<and> p \<le> q \<and> q \<le> length i"
  unfolding gives_def by blast

lemma gives_ret: "P x \<Longrightarrow> gives (gret x) P"
  by (simp add: gives_def gret_def)

lemma gives_bind:
  assumes "gives g P" and "\<And>x. P x \<Longrightarrow> gives (f x) Q"
  shows "gives (gbind g f) Q"
  unfolding gives_def
proof (intro allI impI)
  fix i p y r
  assume i: "size_ok i" "p \<le> length i" and "gbind g f i p = Inr (y, r)"
  then obtain x q where g: "g i p = Inr (x, q)" and f: "f x i q = Inr (y, r)"
    by (cases "g i p") (auto simp: gbind_def)
  from givesD [OF assms(1) i g] have x: "P x" and q: "p \<le> q" "q \<le> length i" by simp_all
  from givesD [OF assms(2) [OF x] i(1) q(2) f] q(1) show "Q y \<and> p \<le> r \<and> r \<le> length i" by simp
qed

lemma gives_if: "(c \<Longrightarrow> gives a P) \<Longrightarrow> (\<not> c \<Longrightarrow> gives b P) \<Longrightarrow> gives (if c then a else b) P"
  by simp

lemma gives_fail: "gives (\<lambda>_ _. Inl e) P"
  by (simp add: gives_def)

lemma gives_varint: "gives read_varint varint_ok"
proof -
  have "varint_ok v \<and> p \<le> p + n \<and> p + n \<le> length i"
    if "p \<le> length i" "decode_varint (drop p i) = Inr (v, n)" for i p v n
    using decode_varint_bounds [OF that(2)] that(1) by (auto simp: varint_ok_def)
  then show ?thesis
    by (auto simp: gives_def read_varint_def split: sum.splits)
qed

lemma gives_span: "gives (read_span n) (\<lambda>d. length d = n \<and> size_ok d)"
  by (auto simp: gives_def read_span_def size_ok_def split: if_splits)

lemma gives_rest: "gives read_rest size_ok"
  by (auto simp: gives_def read_rest_def size_ok_def)

lemma gives_or_bad:
  assumes "gives g P"
  shows "gives (or_bad_message g) P"
  unfolding gives_def
proof (intro allI impI)
  fix i p x q
  assume i: "size_ok i" "p \<le> length i" and "or_bad_message g i p = Inr (x, q)"
  then have "g i p = Inr (x, q)" by (cases "g i p") (simp_all add: or_bad_message_def)
  from givesD [OF assms i this] show "P x \<and> p \<le> q \<and> q \<le> length i" .
qed

lemma gives_times:
  assumes "gives g P"
  shows "gives (get_times n g) (\<lambda>xs. length xs = n \<and> list_all P xs)"
proof (induction n)
  case (Suc n)
  show ?case by (auto intro!: gives_bind [OF assms] gives_bind [OF Suc] gives_ret)
qed (simp add: gives_ret)

lemma gives_ack: "gives (decode_ack_frame ecn) ack_ok"
proof -
  have reserve: "gives (reserve_ranges c) (\<lambda>_. c \<le> ack_range_max)" for c
    by (auto simp: gives_def reserve_ranges_def split: if_splits)
  have range: "gives read_ack_range (\<lambda>r. varint_ok (ack_gap r) \<and> varint_ok (ack_range_length r))"
    unfolding read_ack_range_def by (auto intro!: gives_bind [OF gives_varint] gives_ret)
  have zero: "varint_ok 0" by (simp add: varint_ok_def)
  show ?thesis
    unfolding decode_ack_frame_def
    by (intro gives_bind [OF gives_varint] gives_bind [OF reserve] gives_bind [OF gives_times [OF range]]
        gives_if gives_ret) (auto simp: ack_ok_def zero)
qed

lemma gives_path_id: "gives read_path_id (\<lambda>_. True)"
  unfolding read_path_id_def
  by (rule gives_bind [OF gives_or_bad [OF gives_varint]]) (auto simp: gives_def split: if_splits)

lemma gives_cid:
  assumes "varint_ok seq" "varint_ok retire"
  shows "gives (read_cid allow seq retire) (\<lambda>f. cid_ok f \<and> (allow \<or> nc_cid f \<noteq> []))"
proof -
  have "gives read_byte (\<lambda>_. True)"
    by (auto simp: gives_def read_byte_def split: if_splits)
  then show ?thesis
    unfolding read_cid_def
    by (rule gives_bind)
      (auto simp: gives_def cid_ok_def assms mk_connection_id_def max_cid_length_def split: if_splits
        simp flip: unat_eq_zero)
qed

lemma zero_ok [simp]: "varint_ok 0"
  by (simp add: varint_ok_def)

lemma gives_weaken: "gives g P \<Longrightarrow> (\<And>x. P x \<Longrightarrow> Q x) \<Longrightarrow> gives g Q"
  unfolding gives_def by blast

lemma gives_optional: "gives (if c then read_varint else gret 0) (\<lambda>v. varint_ok v \<and> (c \<or> v = 0))"
  by (intro gives_if gives_weaken [OF gives_varint] gives_ret) auto

lemma gives_sized: "gives (gbind read_varint (\<lambda>len. read_span (unat len))) size_ok"
  by (rule gives_bind [OF gives_varint], rule gives_weaken [OF gives_span]) simp

lemma gives_stream: "gives (decode_stream_frame t) frame_ok"
  unfolding decode_stream_frame_def Let_def
  by (intro gives_bind [OF gives_varint] gives_bind [OF gives_optional]
      gives_bind [OF gives_if [OF gives_sized gives_rest]] gives_ret) auto

lemma gives_close: "gives (decode_connection_close_frame app) frame_ok"
  unfolding decode_connection_close_frame_def
  by (intro gives_bind [OF gives_varint] gives_bind [OF gives_optional] gives_bind [OF gives_span] gives_ret)
    (auto simp: size_ok_def)

lemmas gives_fields = gives_bind [OF gives_varint] gives_bind [OF gives_ack] gives_bind [OF gives_span]
  gives_bind [OF gives_path_id] gives_bind [OF gives_or_bad [OF gives_varint]] gives_bind [OF gives_rest]
  gives_bind [OF gives_cid] gives_ret gives_stream gives_close gives_fail

lemma gives_body: "gives (decode_body t) frame_ok"
  unfolding decode_body_defs
  by (intro gives_if; intro gives_fields; simp)


subsection \<open>Properties\<close>

text \<open>C27: Every well-formed frame, of every kind, is read back from its encoding: the decoder returns the
  frame and the number of bytes of the encoding, whatever follows it. A DATAGRAM without a length field, which
  extends to the end of the packet, is read back when nothing follows it.\<close>

theorem quic_frame_round_trip:
  assumes "frame_ok f" and "to_end_of_packet f \<longrightarrow> rest = []"
  shows "decode_frame (encode_frame f @ rest) = Inr (f, length (encode_frame f))"
proof (cases "to_end_of_packet f")
  case False
  with assms(1) show ?thesis by (intro decode_frame_typed_frame frame_typed)
next
  case True
  then obtain d where f: "f = Datagram_frame d False" by (cases f) auto
  have "decode_varint (0x30 # d) = Inr (0x30, 1)"
    using decode_append_varint [of "0x30" d]
    by (simp add: append_varint_byte small_type_ok varint_size_def)
  then show ?thesis
    using assms(2) f
    by (simp add: append_varint_byte decode_frame_def decode_body_core gbind_def read_rest_def gret_def)
qed

theorem quic_frame_round_trip_witness:
  "decode_frame (encode_frame (Stream_frame 4 10 [1, 2, 3] True) @ [7]) =
     Inr (Stream_frame 4 10 [1, 2, 3] True, length (encode_frame (Stream_frame 4 10 [1, 2, 3] True)))"
  by (rule quic_frame_round_trip)
    (simp_all add: varint_ok_def max_varint_value_def size_ok_def)

text \<open>C28: What the decoder of frames returns for a packet of less than \<open>2 ^ 62\<close> bytes is a well-formed frame
  and a positive number of bytes that does not exceed the packet: a receiver that decodes frame after frame
  always advances and never reads past the packet.\<close>

theorem decode_frame_sound:
  assumes "size_ok data" and "decode_frame data = Inr (f, n)"
  shows "frame_ok f \<and> 0 < n \<and> n \<le> length data"
proof -
  obtain t k off where t: "decode_varint data = Inr (t, k)"
    and b: "decode_body t (drop k data) 0 = Inr (f, off)" and n: "n = k + off"
    using assms(2) by (auto simp: decode_frame_def split: if_splits sum.splits prod.splits)
  have "size_ok (drop k data)" using assms(1) by (simp add: size_ok_def)
  from givesD [OF gives_body this _ b] decode_varint_bounds [OF t] n show ?thesis by auto
qed

theorem decode_frame_sound_witness: "frame_ok (Max_data_frame 5) \<and> 0 < (2 :: nat) \<and> 2 \<le> length [0x10, 5 :: byte]"
proof (rule decode_frame_sound)
  show "size_ok [0x10, 5 :: byte]" by (simp add: size_ok_def)
  have "decode_varint [0x10, 5] = Inr (0x10, 1)" "decode_varint [5] = Inr (5, 1)" by code_simp+
  then show "decode_frame [0x10, 5] = Inr (Max_data_frame 5, 2)"
    by (simp add: decode_frame_def decode_body_core gbind_def read_varint_def gret_def)
qed

text \<open>C40: The number of ranges announced by an ACK frame is used for a reservation before any range is read:
  a packet of twelve bytes that announces \<open>2 ^ 62 - 1\<close> ranges makes the decoder, which reports its errors as
  values, end with an exception.\<close>

theorem ack_range_count_throws:
  "decode_frame [0x02, 0, 0, 0xff, 0xff, 0xff, 0xff, 0xff, 0xff, 0xff, 0xff, 0] =
     Inl (Thrown (Std_exception ''vector::reserve''))"
proof -
  let ?p = "[0, 0, 0xff, 0xff, 0xff, 0xff, 0xff, 0xff, 0xff, 0xff, 0] :: bytes"
  have v: "decode_varint (0x02 # ?p) = Inr (2, 1)" "decode_varint ?p = Inr (0, 1)"
    "decode_varint (drop 1 ?p) = Inr (0, 1)" "decode_varint (drop 2 ?p) = Inr (0x3fffffffffffffff, 8)"
    "decode_varint (drop 10 ?p) = Inr (0, 1)"
    by code_simp+
  have r: "read_varint ?p 0 = Inr (0, 1)" "read_varint ?p 1 = Inr (0, 2)"
    "read_varint ?p 2 = Inr (0x3fffffffffffffff, 10)" "read_varint ?p 10 = Inr (0, 11)"
    using v by (simp_all add: read_varint_def)
  have "reserve_ranges 0x3fffffffffffffff ?p 11 = Inl (Thrown (Std_exception ''vector::reserve''))"
    by (simp add: reserve_ranges_def ack_range_max_def)
  with r have "decode_ack_frame False ?p 0 = Inl (Thrown (Std_exception ''vector::reserve''))"
    by (simp only: decode_ack_frame_def gbind_def sum.case prod.case)
  then have "decode_body 2 ?p 0 = Inl (Thrown (Std_exception ''vector::reserve''))"
    by (simp only: decode_body_core gbind_def sum.case)
  with v(1) show ?thesis
    by (simp add: decode_frame_def)
qed

end
