(* ===== verification/Quic_Stream.thy ===== *)
theory Quic_Stream
  imports Quic_Types Core_Buffer
begin

text \<open>
  One QUIC stream, from \<open>src/src/protocol/quic/quic_stream.cpp\<close> and \<open>quic_stream.cppm\<close>: its state machine, its
  flow control, and the reassembly of the received byte ranges into one byte sequence. The fields of
  \<open>quic_stream::impl\<close> that hold 64-bit offsets are natural numbers below \<open>2 ^ 64\<close>; the arguments that come
  from frames are 64-bit words, and a difference of two fields that the source does not guard wraps
  (\<open>u64_sub\<close>). The lazy tasks (\<open>send\<close>, \<open>receive\<close>, \<open>close_local\<close>, \<open>close_both\<close>) do all their work in the function
  they call; the functions are what is modelled. \<open>send_queue_\<close> is never used by the class.
\<close>

definition u64_max :: nat where
  "u64_max = 2 ^ 64 - 1"

definition u64_sub :: "nat \<Rightarrow> nat \<Rightarrow> nat" where
  "u64_sub a b = (if b \<le> a then a - b else 2 ^ 64 + a - b)"


subsection \<open>Bytes received in order\<close>

text \<open>
  A buffer with a read and a write position, in inline storage of 192 bytes until it outgrows it and
  then on the heap.
\<close>

definition inline_capacity :: nat where
  "inline_capacity = 192"

record in_order_bytes =
  inline_storage :: bytes
  ib_heap :: bytes
  ib_begin :: nat
  ib_end :: nat

definition empty_in_order :: in_order_bytes where
  "empty_in_order = \<lparr>inline_storage = replicate inline_capacity 0, ib_heap = [], ib_begin = 0, ib_end = 0\<rparr>"

definition ib_empty :: "in_order_bytes \<Rightarrow> bool" where
  "ib_empty b = (ib_begin b = ib_end b)"

definition ib_size :: "in_order_bytes \<Rightarrow> nat" where
  "ib_size b = ib_end b - ib_begin b"

definition ib_data :: "in_order_bytes \<Rightarrow> bytes" where
  "ib_data b = (if ib_heap b = [] then inline_storage b else ib_heap b)"

definition ib_capacity :: "in_order_bytes \<Rightarrow> nat" where
  "ib_capacity b = (if ib_heap b = [] then inline_capacity else length (ib_heap b))"

definition ib_store :: "nat \<Rightarrow> bytes \<Rightarrow> in_order_bytes \<Rightarrow> in_order_bytes" where
  "ib_store pos src b =
     (if ib_heap b = [] then b\<lparr>inline_storage := mem_write pos src (inline_storage b)\<rparr>
      else b\<lparr>ib_heap := mem_write pos src (ib_heap b)\<rparr>)"

definition ib_append :: "bytes \<Rightarrow> in_order_bytes \<Rightarrow> in_order_bytes" where
  "ib_append bs b =
     (if bs = [] then b
      else
        let b1 =
              (if ib_end b + length bs > ib_capacity b then
                 let live = ib_size b;
                     unread = take live (drop (ib_begin b) (ib_data b));
                     b0 = (if live + length bs \<le> ib_capacity b \<and> ib_begin b \<ge> live
                           then ib_store 0 unread b
                           else b\<lparr>ib_heap := mem_write 0 unread
                                   (replicate (max (ib_capacity b * 2) (live + length bs)) 0)\<rparr>)
                 in b0\<lparr>ib_begin := 0, ib_end := live\<rparr>
               else b);
            b2 = ib_store (ib_end b1) bs b1
        in b2\<lparr>ib_end := ib_end b2 + length bs\<rparr>)"

definition ib_consume :: "nat \<Rightarrow> in_order_bytes \<Rightarrow> in_order_bytes" where
  "ib_consume count b =
     (let b1 = b\<lparr>ib_begin := ib_begin b + count\<rparr>
      in if ib_begin b1 = ib_end b1 then b1\<lparr>ib_begin := 0, ib_end := 0\<rparr> else b1)"

definition ib_clear :: "in_order_bytes \<Rightarrow> in_order_bytes" where
  "ib_clear b = b\<lparr>ib_begin := 0, ib_end := 0, ib_heap := []\<rparr>"

text \<open>The bytes between the positions: what a reader of the buffer sees.\<close>

definition ib_live :: "in_order_bytes \<Rightarrow> bytes" where
  "ib_live b = take (ib_size b) (drop (ib_begin b) (ib_data b))"


subsection \<open>The state of a stream\<close>

datatype stream_state = stream_idle | stream_open | half_closed_local | half_closed_remote | stream_closed

record quic_stream =
  qs_id :: stream_id
  qs_owner :: quic_role
  qs_bidirectional :: bool
  qs_state :: stream_state
  qs_in_order :: in_order_bytes
  qs_receive_buffer :: "(nat, bytes) smap"
  qs_next_expected_offset :: nat
  qs_highest_received_offset :: nat
  qs_final_size :: "nat option"
  qs_receive_abandoned :: bool
  qs_total_sent :: nat
  qs_max_data :: nat
  qs_max_send_data :: nat

definition mk_quic_stream :: "stream_id \<Rightarrow> quic_role \<Rightarrow> bool \<Rightarrow> quic_stream" where
  "mk_quic_stream sid owner bidirectional =
     \<lparr>qs_id = sid, qs_owner = owner, qs_bidirectional = bidirectional, qs_state = stream_idle,
      qs_in_order = empty_in_order, qs_receive_buffer = [], qs_next_expected_offset = 0,
      qs_highest_received_offset = 0, qs_final_size = None, qs_receive_abandoned = False,
      qs_total_sent = 0, qs_max_data = 65536, qs_max_send_data = 262144\<rparr>"

definition has_buffered_data :: "quic_stream \<Rightarrow> bool" where
  "has_buffered_data s = (\<not> ib_empty (qs_in_order s) \<or> qs_receive_buffer s \<noteq> [])"

definition qs_reset :: "stream_id \<Rightarrow> quic_role \<Rightarrow> bool \<Rightarrow> quic_stream \<Rightarrow> quic_stream" where
  "qs_reset sid owner bidirectional s = mk_quic_stream sid owner bidirectional"

definition qs_init :: "quic_stream \<Rightarrow> quic_stream" where
  "qs_init s =
     (if qs_state s \<noteq> stream_idle then s
      else if \<not> qs_bidirectional s then
        let local_stream = (is_client_initiated (qs_id s) = (qs_owner s = client))
        in s\<lparr>qs_state := (if local_stream then half_closed_remote else half_closed_local)\<rparr>
      else if (qs_owner s = client \<and> is_client_initiated (qs_id s)) \<or>
              (qs_owner s = server \<and> is_server_initiated (qs_id s))
      then s\<lparr>qs_state := stream_open\<rparr>
      else s)"


subsection \<open>The sending side\<close>

definition apply_send_state :: "bytes \<Rightarrow> quic_stream \<Rightarrow> (quic_error + unit) \<times> quic_stream" where
  "apply_send_state data s =
     (if qs_state s = stream_closed \<or> qs_state s = half_closed_local then
        (Inl (Std_errc operation_not_permitted), s)
      else if length data > u64_sub (qs_max_send_data s) (qs_total_sent s) then
        (Inl (Quic_errc flow_control_error), s)
      else
        let s1 = s\<lparr>qs_total_sent := (qs_total_sent s + length data) mod 2 ^ 64\<rparr>
        in (Inr (),
            if data = [] then
              s1\<lparr>qs_state := (if qs_state s1 = half_closed_remote then stream_closed else half_closed_local)\<rparr>
            else s1))"

definition apply_close_local_state :: "quic_stream \<Rightarrow> quic_stream" where
  "apply_close_local_state s =
     (if qs_state s = stream_closed then s
      else s\<lparr>qs_state := (if qs_state s = half_closed_remote then stream_closed else half_closed_local)\<rparr>)"

definition close_remote :: "quic_stream \<Rightarrow> quic_stream" where
  "close_remote s =
     (if qs_state s = stream_closed then s
      else s\<lparr>qs_state := (if qs_state s = half_closed_local then stream_closed else half_closed_remote)\<rparr>)"

definition close_both :: "quic_stream \<Rightarrow> quic_stream" where
  "close_both s = s\<lparr>qs_state := stream_closed\<rparr>"

definition stop_local :: "quic_stream \<Rightarrow> quic_stream" where
  "stop_local s =
     (if qs_state s = half_closed_remote then s\<lparr>qs_state := stream_closed\<rparr>
      else if qs_state s \<noteq> stream_closed then s\<lparr>qs_state := half_closed_local\<rparr>
      else s)"

definition update_send_limit :: "u64 \<Rightarrow> quic_stream \<Rightarrow> quic_stream" where
  "update_send_limit maximum s = s\<lparr>qs_max_send_data := max (qs_max_send_data s) (unat maximum)\<rparr>"

definition set_initial_send_limit :: "u64 \<Rightarrow> quic_stream \<Rightarrow> quic_stream" where
  "set_initial_send_limit maximum s = s\<lparr>qs_max_send_data := unat maximum\<rparr>"

definition set_initial_receive_limit :: "u64 \<Rightarrow> quic_stream \<Rightarrow> quic_stream" where
  "set_initial_receive_limit maximum s = s\<lparr>qs_max_data := unat maximum\<rparr>"

definition extend_receive_limit :: "u64 \<Rightarrow> quic_stream \<Rightarrow> quic_stream" where
  "extend_receive_limit maximum s = s\<lparr>qs_max_data := max (qs_max_data s) (unat maximum)\<rparr>"


subsection \<open>The receiving side\<close>

text \<open>\<open>try_emplace\<close> keeps an item that is already there.\<close>

definition try_emplace :: "nat \<Rightarrow> bytes \<Rightarrow> (nat, bytes) smap \<Rightarrow> (nat, bytes) smap" where
  "try_emplace k v m = (if map_of m k = None then smap_insert k v m else m)"

text \<open>
  The loop over the stored ranges that a new range meets. It compares the bytes in the overlap and stores
  the holes before each range. The iterator only moves to larger keys and a hole is inserted before it, so the
  loop visits the ranges that were stored when it began. The result says whether the loop went through; the
  holes inserted before a mismatch stay in the map.
\<close>

definition overlap_step :: "nat \<Rightarrow> nat \<Rightarrow> bytes \<Rightarrow> nat \<times> bytes \<Rightarrow> nat \<Rightarrow> (nat, bytes) smap \<Rightarrow>
    (nat \<times> (nat, bytes) smap) option" where
  "overlap_step offset until data item cursor m =
     (let existing_begin = fst item;
          v = snd item;
          existing_end = existing_begin + length v;
          overlap_begin = max offset existing_begin;
          overlap_end = min until existing_end;
          size = overlap_end - overlap_begin
      in if overlap_begin < overlap_end \<and>
            take size (drop (overlap_begin - offset) data) \<noteq> take size (drop (overlap_begin - existing_begin) v)
         then None
         else
           Some (max cursor existing_end,
                 if cursor < existing_begin
                 then try_emplace cursor
                        (take (min until existing_begin - cursor) (drop (cursor - offset) data)) m
                 else m))"

primrec overlap_loop :: "nat \<Rightarrow> nat \<Rightarrow> bytes \<Rightarrow> (nat \<times> bytes) list \<Rightarrow> nat \<Rightarrow> (nat, bytes) smap \<Rightarrow>
    bool \<times> nat \<times> (nat, bytes) smap" where
  "overlap_loop offset until data [] cursor m = (True, cursor, m)"
| "overlap_loop offset until data (item # items) cursor m =
     (if \<not> fst item < until then (True, cursor, m)
      else
        case overlap_step offset until data item cursor m of
          None \<Rightarrow> (False, cursor, m)
        | Some (cursor1, m1) \<Rightarrow> overlap_loop offset until data items cursor1 m1)"

text \<open>The first range to visit: the one before \<open>lower_bound(offset)\<close> if it reaches past the offset.\<close>

definition overlap_start :: "nat \<Rightarrow> (nat, bytes) smap \<Rightarrow> (nat \<times> bytes) list" where
  "overlap_start offset m =
     (let before = takeWhile (\<lambda>item. fst item < offset) m;
          from_here = dropWhile (\<lambda>item. fst item < offset) m
      in if before \<noteq> [] \<and> fst (last before) + length (snd (last before)) > offset
         then last before # from_here
         else from_here)"

definition close_if_complete :: "quic_stream \<Rightarrow> quic_stream" where
  "close_if_complete s =
     (if qs_final_size s = Some (qs_next_expected_offset s) \<and> \<not> has_buffered_data s
      then s\<lparr>qs_state := (if qs_state s = half_closed_local then stream_closed else half_closed_remote)\<rparr>
      else s)"

definition mark_open :: "quic_stream \<Rightarrow> quic_stream" where
  "mark_open s = (if qs_state s \<noteq> half_closed_local then s\<lparr>qs_state := stream_open\<rparr> else s)"

definition push_in_order :: "bytes \<Rightarrow> nat \<Rightarrow> quic_stream \<Rightarrow> quic_stream" where
  "push_in_order data until s =
     mark_open (s\<lparr>qs_in_order := ib_append data (qs_in_order s),
                 qs_highest_received_offset := max (qs_highest_received_offset s) until\<rparr>)"

definition reassemble :: "nat \<Rightarrow> bytes \<Rightarrow> nat \<Rightarrow> quic_stream \<Rightarrow> (quic_error + unit) \<times> quic_stream" where
  "reassemble offset0 data0 until s =
     (let s1 = (if \<not> ib_empty (qs_in_order s)
                then s\<lparr>qs_receive_buffer :=
                         try_emplace (qs_next_expected_offset s) (ib_live (qs_in_order s)) (qs_receive_buffer s),
                       qs_in_order := ib_clear (qs_in_order s)\<rparr>
                else s);
          next_offset = qs_next_expected_offset s1;
          data = (if offset0 < next_offset then drop (next_offset - offset0) data0 else data0);
          offset = (if offset0 < next_offset then next_offset else offset0)
      in case overlap_loop offset until data (overlap_start offset (qs_receive_buffer s1)) offset
                (qs_receive_buffer s1) of
           (False, _, m) \<Rightarrow> (Inl (Quic_errc protocol_violation), s1\<lparr>qs_receive_buffer := m\<rparr>)
         | (True, cursor, m) \<Rightarrow>
             let m1 = (if cursor < until then try_emplace cursor (drop (cursor - offset) data) m else m);
                 s2 = s1\<lparr>qs_receive_buffer := m1,
                         qs_highest_received_offset := max (qs_highest_received_offset s1) until\<rparr>
             in (Inr (), close_if_complete (mark_open s2)))"

definition accept_received :: "nat \<Rightarrow> bytes \<Rightarrow> nat \<Rightarrow> bool \<Rightarrow> quic_stream \<Rightarrow> (quic_error + unit) \<times> quic_stream" where
  "accept_received offset data until fin s =
     (let s1 = (if fin then s\<lparr>qs_final_size := Some until\<rparr> else s) in
      if qs_receive_abandoned s1 then
        let s2 = s1\<lparr>qs_highest_received_offset := max (qs_highest_received_offset s1) until\<rparr>
        in (Inr (), if fin then close_remote s2 else s2)
      else if until \<le> qs_next_expected_offset s1 then (Inr (), close_if_complete s1)
      else if qs_receive_buffer s1 = [] \<and> offset = qs_next_expected_offset s1 + ib_size (qs_in_order s1) then
        (Inr (), push_in_order data until s1)
      else reassemble offset data until s1)"

definition push_received :: "u64 \<Rightarrow> bytes \<Rightarrow> bool \<Rightarrow> quic_stream \<Rightarrow> (quic_error + unit) \<times> quic_stream" where
  "push_received off data fin s =
     (let offset = unat off in
      if offset > u64_max - length data then (Inl (Quic_errc final_size_error), s)
      else
        let until = offset + length data in
        if fin \<and> until < qs_highest_received_offset s then (Inl (Quic_errc final_size_error), s)
        else if (case qs_final_size s of None \<Rightarrow> False | Some fs \<Rightarrow> until > fs \<or> (fin \<and> until \<noteq> fs)) then
          (Inl (Quic_errc final_size_error), s)
        else if qs_state s = stream_closed \<or> qs_state s = half_closed_remote then
          (if until \<le> qs_next_expected_offset s then (Inr (), s) else (Inl (Quic_errc final_size_error), s))
        else if offset > qs_max_data s \<or> length data > qs_max_data s - offset then
          (Inl (Quic_errc flow_control_error), s)
        else if fin \<and> (case qs_final_size s of None \<Rightarrow> False | Some fs \<Rightarrow> fs \<noteq> until) then
          (Inl (Quic_errc final_size_error), s)
        else accept_received offset data until fin s)"

text \<open>
  Delivery. The loop takes ranges from the map while they continue the stream; a range that does not fit into
  the buffer is shortened and stored again under its new offset, which must not be taken.
\<close>

function deliver_loop :: "nat \<Rightarrow> nat \<Rightarrow> (nat, bytes) smap \<Rightarrow> bytes \<Rightarrow>
    (bytes \<times> nat \<times> (nat, bytes) smap) option" where
  "deliver_loop room next_offset m out =
     (if room = 0 then Some (out, next_offset, m)
      else
        case map_of m next_offset of
          None \<Rightarrow> Some (out, next_offset, m)
        | Some v \<Rightarrow>
            let count = min room (length v) in
            if count = length v
            then deliver_loop (room - count) (next_offset + count) (smap_erase next_offset m) (out @ v)
            else
              let m1 = smap_erase next_offset m in
              if map_of m1 (next_offset + count) \<noteq> None then None
              else deliver_loop (room - count) (next_offset + count)
                     (smap_insert (next_offset + count) (drop count v) m1) (out @ take count v))"
  by pat_completeness auto

lemma length_smap_erase_less: "map_of m k = Some v \<Longrightarrow> length (smap_erase k m) < length m"
  unfolding smap_erase_def using map_of_SomeD [of m k v] by (intro length_filter_less) auto

termination deliver_loop
proof (relation "measure (\<lambda>(room, _, m, _). if room = 0 then 0 else length m + 1)", goal_cases)
  case (2 room next_offset m out v count)
  then show ?case using length_smap_erase_less [of m next_offset v] by simp
next
  case (3 room next_offset m out v count m1)
  then have "room - count = 0" by (simp add: min_def split: if_splits)
  with 3 show ?case by simp
qed simp

declare deliver_loop.simps [simp del]

definition deliver_contiguous_data :: "nat \<Rightarrow> quic_stream \<Rightarrow> (bytes \<times> quic_stream) option" where
  "deliver_contiguous_data buf_size s =
     (if \<not> ib_empty (qs_in_order s) then
        let count = min buf_size (ib_size (qs_in_order s))
        in Some (take count (ib_live (qs_in_order s)),
                 s\<lparr>qs_in_order := ib_consume count (qs_in_order s),
                   qs_next_expected_offset := qs_next_expected_offset s + count\<rparr>)
      else
        case deliver_loop buf_size (qs_next_expected_offset s) (qs_receive_buffer s) [] of
          None \<Rightarrow> None
        | Some (out, next_offset, m) \<Rightarrow>
            Some (out, s\<lparr>qs_next_expected_offset := next_offset, qs_receive_buffer := m\<rparr>))"

definition apply_receive_state :: "nat \<Rightarrow> quic_stream \<Rightarrow> (quic_error + bytes) \<times> quic_stream" where
  "apply_receive_state buf_size s =
     (if qs_receive_abandoned s then (Inl (Std_errc operation_canceled), s)
      else if qs_state s = stream_closed then (Inr [], s)
      else if \<not> has_buffered_data s then
        (if qs_state s = half_closed_remote then (Inr [], s)
         else (Inl (Std_errc operation_would_block), s))
      else
        case deliver_contiguous_data buf_size s of
          None \<Rightarrow> (Inl Terminates, s)
        | Some (copied, s1) \<Rightarrow>
            let s2 = close_if_complete s1
            in if copied = [] \<and> qs_state s2 \<noteq> stream_closed \<and> qs_state s2 \<noteq> half_closed_remote
               then (Inl (Std_errc operation_would_block), s2)
               else (Inr copied, s2))"

definition reset_remote :: "u64 \<Rightarrow> quic_stream \<Rightarrow> (quic_error + unit) \<times> quic_stream" where
  "reset_remote final_size s =
     (let fs = unat final_size in
      if (case qs_final_size s of None \<Rightarrow> False | Some f \<Rightarrow> f \<noteq> fs) then
        (Inl (Quic_errc final_size_error), s)
      else if qs_highest_received_offset s > fs then (Inl (Quic_errc final_size_error), s)
      else if fs > qs_max_data s then (Inl (Quic_errc flow_control_error), s)
      else
        (Inr (),
         s\<lparr>qs_final_size := Some fs, qs_highest_received_offset := fs, qs_next_expected_offset := fs,
           qs_in_order := ib_clear (qs_in_order s), qs_receive_buffer := [],
           qs_state := (if qs_state s = stream_closed \<or> qs_state s = half_closed_local
                        then stream_closed else half_closed_remote)\<rparr>))"

definition abandon_receive :: "quic_stream \<Rightarrow> quic_stream" where
  "abandon_receive s =
     (let s1 = s\<lparr>qs_receive_abandoned := True, qs_in_order := ib_clear (qs_in_order s),
                 qs_receive_buffer := []\<rparr>
      in if qs_final_size s1 \<noteq> None then close_remote s1 else s1)"


subsection \<open>Queries\<close>

definition is_readable :: "quic_stream \<Rightarrow> bool" where
  "is_readable s =
     (if qs_receive_abandoned s then True
      else if qs_state s = stream_closed \<or> qs_state s = half_closed_remote then True
      else \<not> ib_empty (qs_in_order s) \<or> map_of (qs_receive_buffer s) (qs_next_expected_offset s) \<noteq> None)"

definition is_writable :: "quic_stream \<Rightarrow> bool" where
  "is_writable s = (qs_state s \<noteq> half_closed_local \<and> qs_state s \<noteq> stream_closed)"

definition remaining_send_window :: "quic_stream \<Rightarrow> nat" where
  "remaining_send_window s =
     (if qs_max_send_data s > qs_total_sent s then qs_max_send_data s - qs_total_sent s else 0)"

definition remaining_receive_window :: "quic_stream \<Rightarrow> nat" where
  "remaining_receive_window s = u64_sub (qs_max_data s) (qs_highest_received_offset s)"


subsection \<open>The in-order buffer is a queue of bytes\<close>

definition ib_ok :: "in_order_bytes \<Rightarrow> bool" where
  "ib_ok b \<longleftrightarrow> length (inline_storage b) = inline_capacity \<and> ib_begin b \<le> ib_end b \<and> ib_end b \<le> ib_capacity b"

lemma ib_data_length: "ib_ok b \<Longrightarrow> length (ib_data b) = ib_capacity b"
  by (simp add: ib_ok_def ib_data_def ib_capacity_def)

lemma ib_store_simps [simp]:
  "ib_begin (ib_store p bs b) = ib_begin b" "ib_end (ib_store p bs b) = ib_end b"
  by (simp_all add: ib_store_def)

lemma ib_frame [simp]:
  "ib_data (b\<lparr>ib_begin := x\<rparr>) = ib_data b" "ib_data (b\<lparr>ib_end := y\<rparr>) = ib_data b"
  "ib_capacity (b\<lparr>ib_begin := x\<rparr>) = ib_capacity b" "ib_capacity (b\<lparr>ib_end := y\<rparr>) = ib_capacity b"
  by (simp_all add: ib_data_def ib_capacity_def)

lemma length_ib_live: "ib_ok b \<Longrightarrow> length (ib_live b) = ib_size b"
  using ib_data_length [of b] by (auto simp: ib_live_def ib_size_def ib_ok_def min_def)

lemma ib_empty_live: "ib_ok b \<Longrightarrow> ib_empty b \<longleftrightarrow> ib_live b = []"
  using length_ib_live [of b] by (auto simp: ib_empty_def ib_size_def ib_ok_def)

lemma ib_store_data:
  assumes "ib_ok b" and "p + length bs \<le> ib_capacity b"
  shows "ib_data (ib_store p bs b) = mem_write p bs (ib_data b)"
    and "ib_capacity (ib_store p bs b) = ib_capacity b"
    and "length (inline_storage (ib_store p bs b)) = inline_capacity"
proof -
  have l: "length (mem_write p bs (ib_data b)) = ib_capacity b"
    using assms ib_data_length [OF assms(1)] by simp
  have "ib_heap b \<noteq> [] \<Longrightarrow> mem_write p bs (ib_heap b) \<noteq> []"
    using l by (metis ib_capacity_def ib_data_def length_0_conv)
  then show "ib_data (ib_store p bs b) = mem_write p bs (ib_data b)"
    "ib_capacity (ib_store p bs b) = ib_capacity b"
    using l by (auto simp: ib_store_def ib_data_def ib_capacity_def)
  show "length (inline_storage (ib_store p bs b)) = inline_capacity"
    using assms l by (auto simp: ib_store_def ib_data_def ib_capacity_def ib_ok_def)
qed

text \<open>Appending where there is room, and making room.\<close>

lemma ib_append_room:
  assumes "ib_ok b" and "ib_end b + length bs \<le> ib_capacity b"
  defines "b' \<equiv> (ib_store (ib_end b) bs b)\<lparr>ib_end := ib_end b + length bs\<rparr>"
  shows "ib_ok b'" and "ib_live b' = ib_live b @ bs"
proof -
  note st = ib_store_data [OF assms(1,2)]
  have d: "ib_data b' = mem_write (ib_end b) bs (ib_data b)" "ib_capacity b' = ib_capacity b"
    using st by (simp_all add: b'_def)
  show "ib_ok b'"
    using assms(1,2) st(3) d(2) by (simp add: ib_ok_def b'_def)
  have "take (ib_end b + length bs - ib_begin b) (drop (ib_begin b) (mem_write (ib_end b) bs (ib_data b))) =
      take (ib_end b - ib_begin b) (drop (ib_begin b) (ib_data b)) @ bs"
    using assms(1,2) ib_data_length [OF assms(1)] by (intro mem_write_segment) (simp_all add: ib_ok_def)
  then show "ib_live b' = ib_live b @ bs"
    unfolding ib_live_def ib_size_def d(1) by (simp add: b'_def)
qed

lemma ib_compact:
  assumes "ib_ok b"
  defines "b' \<equiv> (ib_store 0 (ib_live b) b)\<lparr>ib_begin := 0, ib_end := ib_size b\<rparr>"
  shows "ib_ok b'" and "ib_live b' = ib_live b" and "ib_capacity b' = ib_capacity b"
proof -
  have l: "0 + length (ib_live b) \<le> ib_capacity b" "length (ib_live b) = ib_size b"
    using assms(1) length_ib_live [OF assms(1)] by (auto simp: ib_size_def ib_ok_def)
  note st = ib_store_data [OF assms(1) l(1)]
  show c: "ib_capacity b' = ib_capacity b" using st(2) by (simp add: b'_def)
  then show "ib_ok b'" using st(3) l by (simp add: ib_ok_def b'_def)
  have "ib_data b' = mem_write 0 (ib_live b) (ib_data b)"
    using st(1) by (simp add: b'_def)
  moreover have "ib_begin b' = 0" "ib_size b' = ib_size b" by (simp_all add: b'_def ib_size_def)
  ultimately show "ib_live b' = ib_live b"
    using take_mem_write_front [of "ib_live b" "ib_data b"] l ib_data_length [OF assms(1)]
    by (simp add: ib_live_def [of b'])
qed

lemma ib_grow:
  assumes "ib_ok b" and "n \<ge> ib_size b" and "n > 0"
  defines "b' \<equiv> b\<lparr>ib_heap := mem_write 0 (ib_live b) (replicate n 0), ib_begin := 0, ib_end := ib_size b\<rparr>"
  shows "ib_ok b'" and "ib_live b' = ib_live b" and "ib_capacity b' = n"
proof -
  have l: "length (ib_live b) = ib_size b" by (rule length_ib_live [OF assms(1)])
  have h: "length (mem_write 0 (ib_live b) (replicate n 0)) = n"
    using assms(2) l by simp
  then have ne: "mem_write 0 (ib_live b) (replicate n 0) \<noteq> []" using assms(3) by auto
  then show c: "ib_capacity b' = n" using h by (simp add: b'_def ib_capacity_def)
  then show "ib_ok b'" using assms(1,2) by (simp add: ib_ok_def b'_def)
  have "ib_data b' = mem_write 0 (ib_live b) (replicate n 0)" using ne by (simp add: ib_data_def b'_def)
  moreover have "ib_begin b' = 0" "ib_size b' = ib_size b" by (simp_all add: b'_def ib_size_def)
  ultimately show "ib_live b' = ib_live b"
    using take_mem_write_front [of "ib_live b" "replicate n 0"] l assms(2)
    by (simp add: ib_live_def [of b'])
qed

lemma ib_append_queue:
  assumes ok: "ib_ok b"
  shows "ib_ok (ib_append bs b) \<and> ib_live (ib_append bs b) = ib_live b @ bs"
proof (cases "bs = [] \<or> ib_end b + length bs \<le> ib_capacity b")
  case True
  then show ?thesis
    using ib_append_room [OF ok, of bs] ok by (auto simp: ib_append_def Let_def)
next
  case False
  let ?fits = "ib_size b + length bs \<le> ib_capacity b \<and> ib_begin b \<ge> ib_size b"
  let ?n = "max (ib_capacity b * 2) (ib_size b + length bs)"
  define b1 where "b1 = (if ?fits then (ib_store 0 (ib_live b) b)\<lparr>ib_begin := 0, ib_end := ib_size b\<rparr>
    else b\<lparr>ib_heap := mem_write 0 (ib_live b) (replicate ?n 0), ib_begin := 0, ib_end := ib_size b\<rparr>)"
  have n: "?n \<ge> ib_size b" "?n > 0" using False by (auto simp: less_max_iff_disj)
  have b1: "ib_ok b1" "ib_live b1 = ib_live b" "ib_end b1 + length bs \<le> ib_capacity b1"
    using ib_compact [OF ok] ib_grow [OF ok n] by (auto simp: b1_def)
  have "ib_append bs b = (ib_store (ib_end b1) bs b1)\<lparr>ib_end := ib_end b1 + length bs\<rparr>"
    using False by (auto simp: ib_append_def Let_def b1_def ib_live_def)
  then show ?thesis using ib_append_room [OF b1(1,3)] b1(2) by simp
qed

lemma ib_consume_queue:
  assumes "ib_ok b" and "n \<le> ib_size b"
  shows "ib_ok (ib_consume n b) \<and> ib_live (ib_consume n b) = drop n (ib_live b)"
proof (cases "ib_begin b + n = ib_end b")
  case True
  then have n: "n = ib_size b" by (simp add: ib_size_def)
  have c: "ib_consume n b = b\<lparr>ib_begin := 0, ib_end := 0\<rparr>"
    using True by (simp add: ib_consume_def Let_def)
  have "ib_ok (ib_consume n b)" "ib_live (ib_consume n b) = []"
    using assms(1) unfolding c by (simp_all add: ib_ok_def ib_live_def ib_size_def)
  then show ?thesis using n length_ib_live [OF assms(1)] by simp
next
  case False
  then have c: "ib_consume n b = b\<lparr>ib_begin := ib_begin b + n\<rparr>"
    by (simp add: ib_consume_def Let_def)
  have "ib_ok (ib_consume n b)"
    using assms unfolding c by (auto simp: ib_ok_def ib_size_def)
  moreover have "ib_live (ib_consume n b) = drop n (ib_live b)"
    unfolding c by (simp add: ib_live_def ib_size_def drop_take add.commute diff_diff_left)
  ultimately show ?thesis ..
qed

interpretation in_order: byte_queue ib_ok ib_live "\<lambda>_ _. True" ib_append ib_consume ib_clear
proof
  fix b n bs assume ok: "ib_ok b"
  show "ib_ok (ib_append bs b)" "ib_live (ib_append bs b) = ib_live b @ bs"
    using ib_append_queue [OF ok] by simp_all
  show "ib_ok (ib_consume n b)" "ib_live (ib_consume n b) = drop n (ib_live b)"
    if "n \<le> length (ib_live b)"
    using ib_consume_queue [OF ok, of n] that length_ib_live [OF ok] by simp_all
  show "ib_ok (ib_clear b)" "ib_live (ib_clear b) = []"
    using ok by (simp_all add: ib_clear_def ib_ok_def ib_live_def ib_size_def ib_capacity_def)
qed simp_all


subsection \<open>Ranges of one byte sequence\<close>

text \<open>
  The peer sends one byte sequence \<open>src\<close>: the byte at offset \<open>o\<close> is \<open>src o\<close>. \<open>slice src i j\<close> is the part from
  \<open>i\<close> up to \<open>j\<close>. The stored ranges of a stream are slices of it, disjoint and in order.
\<close>

definition slice :: "(nat \<Rightarrow> byte) \<Rightarrow> nat \<Rightarrow> nat \<Rightarrow> bytes" where
  "slice src i j = map src [i..<j]"

lemma length_slice [simp]: "length (slice src i j) = j - i"
  by (simp add: slice_def)

lemma slice_Nil_iff [simp]: "slice src i j = [] \<longleftrightarrow> j \<le> i"
  by (auto simp: slice_def)

lemma slice_self [simp]: "slice src i i = []"
  by simp

lemma take_slice [simp]: "take n (slice src i j) = slice src i (min (i + n) j)"
  by (simp add: slice_def take_map min_def)

lemma drop_slice [simp]: "drop n (slice src i j) = slice src (i + n) j"
  by (simp add: slice_def drop_map)

lemma slice_append: "i \<le> j \<Longrightarrow> j \<le> k \<Longrightarrow> slice src i j @ slice src j k = slice src i k"
  by (metis le_Suc_ex map_append slice_def upt_add_eq_append)

fun segs_ok :: "(nat \<Rightarrow> byte) \<Rightarrow> nat \<Rightarrow> (nat, bytes) smap \<Rightarrow> bool" where
  "segs_ok src lo [] \<longleftrightarrow> True"
| "segs_ok src lo ((k, v) # m) \<longleftrightarrow>
     lo \<le> k \<and> v \<noteq> [] \<and> v = slice src k (k + length v) \<and> segs_ok src (k + length v) m"

fun seg_end :: "nat \<Rightarrow> (nat, bytes) smap \<Rightarrow> nat" where
  "seg_end lo [] = lo"
| "seg_end lo ((k, v) # m) = seg_end (k + length v) m"

definition covered :: "(nat, bytes) smap \<Rightarrow> nat set" where
  "covered m = (\<Union>(k, v) \<in> set m. {k..<k + length v})"

lemma covered_simps [simp]:
  "covered [] = {}" "covered ((k, v) # m) = {k..<k + length v} \<union> covered m"
  "covered (xs @ ys) = covered xs \<union> covered ys"
  by (auto simp: covered_def)

lemma segs_ok_append [simp]:
  "segs_ok src lo (xs @ ys) \<longleftrightarrow> segs_ok src lo xs \<and> segs_ok src (seg_end lo xs) ys"
  by (induction src lo xs rule: segs_ok.induct) auto

lemma seg_end_append [simp]: "seg_end lo (xs @ ys) = seg_end (seg_end lo xs) ys"
  by (induction lo xs rule: seg_end.induct) auto

lemma segs_ok_mono: "segs_ok src lo m \<Longrightarrow> lo' \<le> lo \<Longrightarrow> segs_ok src lo' m"
  by (cases m) auto

lemma seg_end_ge: "segs_ok src lo m \<Longrightarrow> lo \<le> seg_end lo m"
  by (induction src lo m rule: segs_ok.induct) auto

lemma segs_ok_bounds:
  "segs_ok src lo m \<Longrightarrow> (k, v) \<in> set m \<Longrightarrow> lo \<le> k \<and> v \<noteq> [] \<and> k + length v \<le> seg_end lo m"
proof (induction src lo m rule: segs_ok.induct)
  case (2 src lo k' v' m)
  then show ?case using seg_end_ge [of src "k' + length v'" m] by fastforce
qed simp

lemma covered_bounds:
  assumes "segs_ok src lo m" and "x \<in> covered m"
  shows "lo \<le> x \<and> x < seg_end lo m"
proof -
  obtain k v where "(k, v) \<in> set m" "k \<le> x" "x < k + length v" using assms(2) by (auto simp: covered_def)
  with segs_ok_bounds [OF assms(1)] show ?thesis by fastforce
qed

lemma smap_insert_middle:
  assumes "items = [] \<or> c < fst (hd items)"
  shows "\<forall>kv \<in> set acc. fst kv < c \<Longrightarrow> smap_insert c h (acc @ items) = acc @ (c, h) # items"
proof (induction acc)
  case Nil
  show ?case using assms by (cases items) auto
next
  case (Cons a acc)
  then show ?case by (cases a) auto
qed

lemma segs_insert:
  assumes "segs_ok src lo (acc @ items)" and "seg_end lo acc \<le> c"
    and "items = [] \<or> c < fst (hd items)"
  shows "try_emplace c h (acc @ items) = acc @ (c, h) # items"
proof -
  have acc: "fst kv < c" if "kv \<in> set acc" for kv
  proof -
    have "fst kv + length (snd kv) \<le> seg_end lo acc" "snd kv \<noteq> []"
      using segs_ok_bounds [of src lo acc "fst kv" "snd kv"] that assms(1) by simp_all
    then show ?thesis using assms(2) by (cases "snd kv") simp_all
  qed
  have items: "c < fst kv" if m: "kv \<in> set items" for kv
  proof -
    obtain k0 v0 rest where i: "items = (k0, v0) # rest" using m by (cases items) auto
    have "segs_ok src k0 items" using assms(1) i by simp
    from segs_ok_bounds [OF this, of "fst kv" "snd kv"] i m assms(3) show ?thesis by simp
  qed
  have "c \<notin> fst ` set (acc @ items)"
  proof
    assume "c \<in> fst ` set (acc @ items)"
    then obtain kv where "kv \<in> set acc \<or> kv \<in> set items" and "fst kv = c" by auto
    then show False using acc items by blast
  qed
  then have "map_of (acc @ items) c = None" by (simp only: map_of_eq_None_iff simp_thms)
  moreover have "smap_insert c h (acc @ items) = acc @ (c, h) # items"
    using smap_insert_middle [OF assms(3)] acc by blast
  ultimately show ?thesis by (simp only: try_emplace_def simp_thms if_True)
qed

lemma overlap_step_slices:
  assumes ok: "segs_ok src lo (acc @ (b, v) # items)" and acc: "seg_end lo acc \<le> cursor"
    and c: "offset \<le> cursor" and b: "b < until"
  shows "overlap_step offset until (slice src offset until) (b, v) cursor (acc @ (b, v) # items) =
    Some (max cursor (b + length v),
      (acc @ (if cursor < b then [(cursor, slice src cursor b)] else []) @ [(b, v)]) @ items)"
proof -
  let ?ob = "max offset b" and ?oe = "min until (b + length v)" and ?d = "slice src offset until"
  have v: "v = slice src b (b + length v)" using ok by simp
  have "take (?oe - ?ob) (drop (?ob - offset) ?d) = take (?oe - ?ob) (drop (?ob - b) v)" if "?ob < ?oe"
    using that by (subst (2) v) (simp add: min_def max_def)
  then have same: "(?ob < ?oe \<and> take (?oe - ?ob) (drop (?ob - offset) ?d) \<noteq>
      take (?oe - ?ob) (drop (?ob - b) v)) = False"
    by blast
  have "take (min until b - cursor) (drop (cursor - offset) ?d) = slice src cursor b" if "cursor < b"
    using that b c by (simp add: min_def)
  then have "try_emplace cursor (take (min until b - cursor) (drop (cursor - offset) ?d))
      (acc @ (b, v) # items) = acc @ (cursor, slice src cursor b) # (b, v) # items" if "cursor < b"
    using segs_insert [OF ok acc] that by simp
  then show ?thesis
    unfolding overlap_step_def Let_def fst_conv snd_conv same if_False by auto
qed

lemma overlap_loop_slices:
  assumes "segs_ok src lo (acc @ items)" and "seg_end lo acc \<le> cursor" and "offset \<le> cursor"
    and "{offset..<min cursor until} \<subseteq> covered acc"
  obtains cursor' acc' items' where
    "overlap_loop offset until (slice src offset until) items cursor (acc @ items) = (True, cursor', acc' @ items')"
    "segs_ok src lo (acc' @ items')" "seg_end lo acc' \<le> cursor'" "offset \<le> cursor'"
    "items' = [] \<or> until \<le> fst (hd items')"
    "{offset..<min cursor' until} \<subseteq> covered acc'"
    "covered (acc @ items) \<subseteq> covered (acc' @ items')"
    "covered (acc' @ items') \<subseteq> covered (acc @ items) \<union> {offset..<until}"
  using assms
proof (induction items arbitrary: acc cursor thesis)
  case Nil
  show ?case by (rule Nil(1) [of cursor acc "[]"]) (use Nil in auto)
next
  case (Cons item items)
  obtain b v where item: "item = (b, v)" by (cases item)
  show ?case
  proof (cases "b < until")
    case False
    show ?thesis by (rule Cons(2) [of cursor acc "(b, v) # items"]) (use Cons.prems False item in auto)
  next
    case True
    let ?hole = "if cursor < b then [(cursor, slice src cursor b)] else []"
    let ?acc = "acc @ ?hole @ [(b, v)]" and ?cursor = "max cursor (b + length v)"
    have ok: "segs_ok src lo (acc @ (b, v) # items)" using Cons.prems(2) item by simp
    have step: "overlap_loop offset until (slice src offset until) (item # items) cursor (acc @ item # items) =
        overlap_loop offset until (slice src offset until) items ?cursor (?acc @ items)"
      using overlap_step_slices [OF ok Cons.prems(3,4) True] True item by simp
    have 1: "segs_ok src lo (?acc @ items)" using ok Cons.prems(3) by auto
    have 2: "seg_end lo ?acc \<le> ?cursor" "offset \<le> ?cursor" using Cons.prems(4) by auto
    have 3: "{offset..<min ?cursor until} \<subseteq> covered ?acc"
    proof
      fix x assume "x \<in> {offset..<min ?cursor until}"
      then show "x \<in> covered ?acc" using Cons.prems(5) by (cases "x < cursor") auto
    qed
    have 4: "covered (acc @ item # items) \<subseteq> covered (?acc @ items)"
      "covered (?acc @ items) \<subseteq> covered (acc @ item # items) \<union> {offset..<until}"
      using item True Cons.prems(4) by auto
    show ?thesis
    proof (rule Cons.IH [OF _ 1 2 3])
      fix cursor' acc' items'
      assume h: "overlap_loop offset until (slice src offset until) items ?cursor (?acc @ items) =
          (True, cursor', acc' @ items')"
        "segs_ok src lo (acc' @ items')" "seg_end lo acc' \<le> cursor'" "offset \<le> cursor'"
        "items' = [] \<or> until \<le> fst (hd items')" "{offset..<min cursor' until} \<subseteq> covered acc'"
        "covered (?acc @ items) \<subseteq> covered (acc' @ items')"
        "covered (acc' @ items') \<subseteq> covered (?acc @ items) \<union> {offset..<until}"
      show thesis
        by (rule Cons.prems(1) [of cursor' acc' items'])
          (use h step 4 in \<open>simp_all only:\<close>, use 4 h in blast)
    qed
  qed
qed

lemma overlap_start_split:
  assumes "segs_ok src lo m" and "lo \<le> offset"
  obtains acc where "m = acc @ overlap_start offset m" and "seg_end lo acc \<le> offset"
proof -
  let ?before = "takeWhile (\<lambda>item. fst item < offset) m"
  let ?from = "dropWhile (\<lambda>item. fst item < offset) m"
  have m: "m = ?before @ ?from" by simp
  show ?thesis
  proof (cases "?before = []")
    case True
    then show ?thesis using that [of "[]"] assms(2) m by (simp add: overlap_start_def)
  next
    case False
    then obtain acc k v where b: "?before = acc @ [(k, v)]" by (metis rev_exhaust surj_pair)
    then have "segs_ok src lo (acc @ [(k, v)] @ ?from)" using assms(1) m by simp
    then have "seg_end lo acc \<le> k" by simp
    moreover have "(k, v) \<in> set ?before" using b by simp
    then have "k < offset" by (auto dest: set_takeWhileD)
    moreover have "m = acc @ (k, v) # ?from" using m b by simp
    ultimately show ?thesis
      using that [of acc] that [of "acc @ [(k, v)]"] b
      by (cases "k + length v > offset") (simp_all add: overlap_start_def Let_def)
  qed
qed

text \<open>The end of the bytes that continue the stream at an offset.\<close>

fun run_end :: "nat \<Rightarrow> (nat, bytes) smap \<Rightarrow> nat" where
  "run_end n [] = n"
| "run_end n ((k, v) # m) = (if k = n then run_end (n + length v) m else n)"

lemma run_end_ge: "n \<le> run_end n m"
  by (induction n m rule: run_end.induct) (auto intro: order_trans)

lemma segs_lookup_None: "segs_ok src lo m \<Longrightarrow> n < lo \<Longrightarrow> map_of m n = None"
  using segs_ok_bounds [of src lo m] by (fastforce simp: map_of_eq_None_iff)

lemma segs_erase_None: "segs_ok src lo m \<Longrightarrow> n < lo \<Longrightarrow> smap_erase n m = m"
  using segs_ok_bounds [of src lo m] by (fastforce simp: smap_erase_def intro!: filter_True)

lemma deliver_loop_stop:
  "deliver_loop 0 n m out = Some (out, n, m)"
  "map_of m n = None \<Longrightarrow> deliver_loop room n m out = Some (out, n, m)"
  by (subst deliver_loop.simps; simp)+

lemma deliver_loop_slices:
  assumes "segs_ok src n m"
  shows "\<exists>m'. deliver_loop room n m out =
      Some (out @ slice src n (min (n + room) (run_end n m)), min (n + room) (run_end n m), m') \<and>
    segs_ok src (min (n + room) (run_end n m)) m' \<and>
    covered m' = covered m - {..<min (n + room) (run_end n m)}"
  using assms
proof (induction m arbitrary: room n out)
  case Nil
  then show ?case by (simp add: deliver_loop_stop)
next
  case (Cons kv m)
  obtain k v where kv: "kv = (k, v)" by (cases kv)
  show ?case
  proof (cases "k = n \<and> room \<noteq> 0")
    case False
    have nc: "covered (kv # m) - {..<n} = covered (kv # m)"
      using covered_bounds [OF Cons.prems] by fastforce
    have "deliver_loop room n (kv # m) out = Some (out, n, kv # m)"
    proof (cases "room = 0")
      case False
      with \<open>\<not> (k = n \<and> room \<noteq> 0)\<close> have "segs_ok src (Suc n) (kv # m)" using Cons.prems kv by auto
      from segs_lookup_None [OF this, of n] show ?thesis by (simp only: deliver_loop_stop lessI)
    qed (simp add: deliver_loop_stop)
    moreover have "min (n + room) (run_end n (kv # m)) = n"
      using False kv run_end_ge [of n "kv # m"] by (auto simp: min_def)
    ultimately show ?thesis using Cons.prems nc by simp
  next
    case True
    then have ok: "v \<noteq> []" "v = slice src n (n + length v)" "segs_ok src (n + length v) m"
      using Cons.prems kv by auto
    have e: "smap_erase n (kv # m) = m"
      using segs_erase_None [OF ok(3), of n] ok(1) kv True by (simp add: smap_erase_def)
    have nm: "covered m \<inter> {..<n + length v} = {}" using covered_bounds [OF ok(3)] by fastforce
    show ?thesis
    proof (cases "length v \<le> room")
      case le: True
      have "deliver_loop room n (kv # m) out = deliver_loop (room - length v) (n + length v) m (out @ v)"
        using True kv le e by (subst deliver_loop.simps) (simp add: Let_def min_def)
      moreover have "out @ v @ slice src (n + length v) q = out @ slice src n q"
        if "n + length v \<le> q" for q
        using slice_append [of n "n + length v" q src] that ok(2) by simp
      ultimately show ?thesis
        using Cons.IH [OF ok(3), of "room - length v" "out @ v"] True kv le nm
          run_end_ge [of "n + length v" m] by (fastforce simp: min_def)
    next
      case gt: False
      have t: "take room v = slice src n (n + room)" "drop room v = slice src (n + room) (n + length v)"
        using gt ok(2) by (metis drop_slice less_imp_le_nat min.absorb1 nat_add_left_cancel_le not_le take_slice)+
      have "map_of m (n + room) = None" using segs_lookup_None [OF ok(3)] gt by simp
      moreover have "smap_insert (n + room) (drop room v) m = (n + room, drop room v) # m"
        using ok(3) gt by (cases m) auto
      ultimately have "deliver_loop room n (kv # m) out =
          Some (out @ take room v, n + room, (n + room, drop room v) # m)"
        using True kv gt e by (subst deliver_loop.simps) (simp add: Let_def min_def deliver_loop_stop)
      moreover have "min (n + room) (run_end n (kv # m)) = n + room"
        using True kv gt run_end_ge [of "n + length v" m] by (auto simp: min_def)
      ultimately show ?thesis using gt ok nm kv True t by auto
    qed
  qed
qed

lemma segs_ok_from: "segs_ok src lo m \<Longrightarrow> m = [] \<or> j \<le> fst (hd m) \<Longrightarrow> segs_ok src j m"
  by (cases m) auto

text \<open>Storing a range adds exactly the bytes of the range.\<close>

lemma store_range_slices:
  assumes "segs_ok src lo m" and "lo \<le> offset"
  obtains cursor m' where
    "overlap_loop offset until (slice src offset until) (overlap_start offset m) offset m = (True, cursor, m')"
    "segs_ok src lo (if cursor < until then try_emplace cursor (drop (cursor - offset) (slice src offset until)) m' else m')"
    "covered (if cursor < until then try_emplace cursor (drop (cursor - offset) (slice src offset until)) m' else m') =
      covered m \<union> {offset..<until}"
proof -
  obtain acc where m: "m = acc @ overlap_start offset m" and e: "seg_end lo acc \<le> offset"
    using overlap_start_split [OF assms] .
  have ok: "segs_ok src lo (acc @ overlap_start offset m)" using assms(1) m by simp
  obtain cursor acc' items' where
    l: "overlap_loop offset until (slice src offset until) (overlap_start offset m) offset
          (acc @ overlap_start offset m) = (True, cursor, acc' @ items')"
    and ok': "segs_ok src lo (acc' @ items')" "seg_end lo acc' \<le> cursor" "offset \<le> cursor"
    and i: "items' = [] \<or> until \<le> fst (hd items')"
    and c: "{offset..<min cursor until} \<subseteq> covered acc'" "covered (acc @ overlap_start offset m) \<subseteq> covered (acc' @ items')"
      "covered (acc' @ items') \<subseteq> covered (acc @ overlap_start offset m) \<union> {offset..<until}"
    using overlap_loop_slices [OF ok e order_refl, of until] by auto
  have c': "covered m \<subseteq> covered (acc' @ items')" "covered (acc' @ items') \<subseteq> covered m \<union> {offset..<until}"
    using c(2,3) m by simp_all
  have l': "overlap_loop offset until (slice src offset until) (overlap_start offset m) offset m =
      (True, cursor, acc' @ items')" using l m by simp
  show ?thesis
  proof (cases "cursor < until")
    case False
    then have "{offset..<until} \<subseteq> covered acc'" using c(1) by (simp add: min_def split: if_splits)
    then have "covered (acc' @ items') = covered m \<union> {offset..<until}" using c' by auto
    then show ?thesis using that [OF l'] False ok'(1) by simp
  next
    case True
    then have t: "try_emplace cursor (drop (cursor - offset) (slice src offset until)) (acc' @ items') =
        acc' @ (cursor, slice src cursor until) # items'"
      using segs_insert [OF ok'(1,2)] i ok'(3) by auto
    have "segs_ok src until items'" using segs_ok_from [OF _ i] ok'(1) by auto
    then have "segs_ok src lo (acc' @ (cursor, slice src cursor until) # items')"
      using ok'(1,2) True by simp
    moreover have "{offset..<until} = {offset..<min cursor until} \<union> {cursor..<until}"
      using True ok'(3) by auto
    then have "covered (acc' @ (cursor, slice src cursor until) # items') = covered m \<union> {offset..<until}"
      using c(1) c' True by auto
    ultimately show ?thesis using that [OF l'] True t by simp
  qed
qed

lemma run_end_covered:
  assumes "segs_ok src n m"
  shows "{n..<run_end n m} \<subseteq> covered m \<and> run_end n m \<notin> covered m"
  using assms
proof (induction n m rule: run_end.induct)
  case (2 n k v m)
  show ?case
  proof (cases "k = n")
    case True
    then have ih: "{n + length v..<run_end (n + length v) m} \<subseteq> covered m"
      "run_end (n + length v) m \<notin> covered m" using 2 by auto
    have "{n..<run_end (n + length v) m} = {n..<n + length v} \<union> {n + length v..<run_end (n + length v) m}"
      using run_end_ge [of "n + length v" m] by (simp add: ivl_disj_un_two(3))
    then show ?thesis using ih True run_end_ge [of "n + length v" m] by auto
  next
    case False
    have "segs_ok src (Suc n) ((k, v) # m)" using 2(2) False by simp
    then have "n \<notin> covered ((k, v) # m)" using covered_bounds by fastforce
    then show ?thesis using False by simp
  qed
qed simp


subsection \<open>The invariant of a stream\<close>

definition buffered :: "quic_stream \<Rightarrow> nat set" where
  "buffered s = {qs_next_expected_offset s..<qs_next_expected_offset s + ib_size (qs_in_order s)} \<union>
     covered (qs_receive_buffer s)"

text \<open>
  What is buffered are bytes of the peer's sequence at or after the next offset, in one of the two places; no
  byte lies past the highest offset, which no final size contradicts.
\<close>

definition rx_ok :: "(nat \<Rightarrow> byte) \<Rightarrow> nat \<Rightarrow> in_order_bytes \<Rightarrow> (nat, bytes) smap \<Rightarrow> bool" where
  "rx_ok src n b m \<longleftrightarrow> ib_ok b \<and> ib_live b = slice src n (n + ib_size b) \<and> segs_ok src n m \<and>
     (ib_size b = 0 \<or> m = [])"

definition stream_inv :: "(nat \<Rightarrow> byte) \<Rightarrow> quic_stream \<Rightarrow> bool" where
  "stream_inv src s \<longleftrightarrow>
     rx_ok src (qs_next_expected_offset s) (qs_in_order s) (qs_receive_buffer s) \<and>
     buffered s \<subseteq> {..<qs_highest_received_offset s} \<and>
     qs_next_expected_offset s \<le> qs_highest_received_offset s \<and>
     (\<forall>fs. qs_final_size s = Some fs \<longrightarrow> qs_highest_received_offset s \<le> fs) \<and>
     (qs_receive_abandoned s \<longrightarrow> buffered s = {})"

lemmas stream_start = mk_quic_stream_def empty_in_order_def ib_size_def ib_empty_def

lemma stream_frame [simp]:
  "buffered (s\<lparr>qs_state := st\<rparr>) = buffered s" "stream_inv src (s\<lparr>qs_state := st\<rparr>) = stream_inv src s"
  "stream_inv src (s\<lparr>qs_total_sent := t\<rparr>) = stream_inv src s"
  "stream_inv src (s\<lparr>qs_max_data := t\<rparr>) = stream_inv src s"
  "stream_inv src (s\<lparr>qs_max_send_data := t\<rparr>) = stream_inv src s"
  "buffered (s\<lparr>qs_total_sent := t\<rparr>) = buffered s" "buffered (s\<lparr>qs_max_data := t\<rparr>) = buffered s"
  "buffered (s\<lparr>qs_max_send_data := t\<rparr>) = buffered s" "buffered (s\<lparr>qs_final_size := f\<rparr>) = buffered s"
  "buffered (s\<lparr>qs_highest_received_offset := h\<rparr>) = buffered s"
  by (simp_all add: buffered_def stream_inv_def)

lemma state_only:
  "mark_open s = s\<lparr>qs_state := qs_state (mark_open s)\<rparr>"
  "close_if_complete s = s\<lparr>qs_state := qs_state (close_if_complete s)\<rparr>"
  "close_remote s = s\<lparr>qs_state := qs_state (close_remote s)\<rparr>"
  by (simp_all add: mark_open_def close_if_complete_def close_remote_def)

lemma state_only_frame [simp]:
  "stream_inv src (mark_open s) = stream_inv src s" "buffered (mark_open s) = buffered s"
  "qs_next_expected_offset (mark_open s) = qs_next_expected_offset s"
  "stream_inv src (close_if_complete s) = stream_inv src s" "buffered (close_if_complete s) = buffered s"
  "qs_next_expected_offset (close_if_complete s) = qs_next_expected_offset s"
  "stream_inv src (close_remote s) = stream_inv src s" "buffered (close_remote s) = buffered s"
  "qs_next_expected_offset (close_remote s) = qs_next_expected_offset s"
  by (simp_all add: mark_open_def close_if_complete_def close_remote_def)

lemma rx_ok_range:
  assumes "rx_ok src n b m"
  shows "segs_ok src n (if ib_empty b then m else try_emplace n (ib_live b) m)"
    and "covered (if ib_empty b then m else try_emplace n (ib_live b) m) = {n..<n + ib_size b} \<union> covered m"
proof -
  have e: "ib_empty b \<longleftrightarrow> ib_size b = 0"
    using assms by (auto simp: rx_ok_def ib_empty_def ib_size_def ib_ok_def)
  have "try_emplace n (ib_live b) m = [(n, ib_live b)]" if "\<not> ib_empty b"
    using that assms e by (simp add: rx_ok_def try_emplace_def)
  then show "segs_ok src n (if ib_empty b then m else try_emplace n (ib_live b) m)"
    "covered (if ib_empty b then m else try_emplace n (ib_live b) m) = {n..<n + ib_size b} \<union> covered m"
    using assms e by (auto simp: rx_ok_def)
qed

lemma ib_clear_size [simp]: "ib_size (ib_clear b) = 0"
  by (simp add: ib_clear_def ib_size_def)

lemma ib_empty_size: "ib_empty b \<Longrightarrow> ib_size b = 0"
  by (simp add: ib_empty_def ib_size_def)

lemma rx_ok_no_in_order: "ib_ok b \<Longrightarrow> ib_size b = 0 \<Longrightarrow> rx_ok src n b m \<longleftrightarrow> segs_ok src n m"
  using length_ib_live [of b] by (auto simp: rx_ok_def slice_def)

lemma reassemble_slices:
  assumes inv: "stream_inv src s" and d: "data = slice src offset until"
    and ok: "qs_next_expected_offset s < until" "\<not> qs_receive_abandoned s" "\<forall>fs. qs_final_size s = Some fs \<longrightarrow> until \<le> fs"
  shows "fst (reassemble offset data until s) = Inr () \<and> stream_inv src (snd (reassemble offset data until s)) \<and>
    qs_next_expected_offset (snd (reassemble offset data until s)) = qs_next_expected_offset s \<and>
    buffered (snd (reassemble offset data until s)) =
      buffered s \<union> {max (qs_next_expected_offset s) offset..<until}"
proof -
  let ?n = "qs_next_expected_offset s" and ?b = "qs_in_order s" and ?m = "qs_receive_buffer s"
  define s1 where "s1 = (if \<not> ib_empty ?b then s\<lparr>qs_receive_buffer := try_emplace ?n (ib_live ?b) ?m,
      qs_in_order := ib_clear ?b\<rparr> else s)"
  have rx: "rx_ok src ?n ?b ?m" using inv by (simp add: stream_inv_def)
  have s1: "qs_next_expected_offset s1 = ?n" "qs_highest_received_offset s1 = qs_highest_received_offset s"
    "qs_receive_buffer s1 = (if ib_empty ?b then ?m else try_emplace ?n (ib_live ?b) ?m)"
    "ib_ok (qs_in_order s1)" "ib_size (qs_in_order s1) = 0" "qs_final_size s1 = qs_final_size s"
    "\<not> qs_receive_abandoned s1"
    using rx ok(2) in_order.clear_invar [of ?b]
    by (auto simp: s1_def rx_ok_def ib_empty_size)
  have m: "segs_ok src ?n (qs_receive_buffer s1)" "covered (qs_receive_buffer s1) = buffered s"
    using rx_ok_range [OF rx] s1(3) by (simp_all add: buffered_def)
  let ?o = "max ?n offset"
  have o: "(if offset < ?n then ?n else offset) = ?o"
    "(if offset < ?n then drop (?n - offset) data else data) = slice src ?o until"
    using d by (simp_all add: max_def)
  obtain cursor m' where
    l: "overlap_loop ?o until (slice src ?o until) (overlap_start ?o (qs_receive_buffer s1)) ?o (qs_receive_buffer s1) =
      (True, cursor, m')"
    and m1: "segs_ok src ?n (if cursor < until then try_emplace cursor (drop (cursor - ?o) (slice src ?o until)) m' else m')"
      "covered (if cursor < until then try_emplace cursor (drop (cursor - ?o) (slice src ?o until)) m' else m') =
        buffered s \<union> {?o..<until}"
    using store_range_slices [OF m(1) max.cobounded1, where until = until] m(2) by metis
  define m2 where "m2 = (if cursor < until then try_emplace cursor (drop (cursor - ?o) (slice src ?o until)) m' else m')"
  define s2 where "s2 = s1\<lparr>qs_receive_buffer := m2,
      qs_highest_received_offset := max (qs_highest_received_offset s) until\<rparr>"
  have r: "reassemble offset data until s = (Inr (), close_if_complete (mark_open s2))"
    unfolding reassemble_def s1_def [symmetric] s1(1,2) Let_def o l s2_def m2_def by simp
  have "buffered s2 = covered m2" using s1(5) by (simp add: buffered_def s2_def)
  then have b2: "buffered s2 = buffered s \<union> {?o..<until}" using m1(2) [folded m2_def] by simp
  have "rx_ok src ?n (qs_in_order s2) (qs_receive_buffer s2)"
    using m1(1) [folded m2_def] s1(4,5) rx_ok_no_in_order by (simp add: s2_def)
  moreover have "buffered s2 \<subseteq> {..<qs_highest_received_offset s2}"
    using inv unfolding b2 by (auto simp: s2_def stream_inv_def)
  ultimately have "stream_inv src s2"
    using inv ok s1(1,6,7) by (auto simp: stream_inv_def s2_def)
  then show ?thesis using r b2 s1(1) by (simp add: s2_def)
qed

lemma push_in_order_slices:
  assumes inv: "stream_inv src s" and d: "data = slice src offset until" "offset \<le> until"
    and o: "qs_receive_buffer s = []" "offset = qs_next_expected_offset s + ib_size (qs_in_order s)"
    and ok: "\<not> qs_receive_abandoned s" "\<forall>fs. qs_final_size s = Some fs \<longrightarrow> until \<le> fs"
  shows "stream_inv src (push_in_order data until s) \<and>
    qs_next_expected_offset (push_in_order data until s) = qs_next_expected_offset s \<and>
    buffered (push_in_order data until s) = buffered s \<union> {max (qs_next_expected_offset s) offset..<until}"
proof -
  let ?n = "qs_next_expected_offset s" and ?b = "qs_in_order s"
  define s1 where "s1 = s\<lparr>qs_in_order := ib_append data ?b,
      qs_highest_received_offset := max (qs_highest_received_offset s) until\<rparr>"
  have b: "ib_ok ?b" "ib_live ?b = slice src ?n offset" using inv o by (simp_all add: stream_inv_def rx_ok_def)
  have a: "ib_ok (ib_append data ?b)" "ib_live (ib_append data ?b) = slice src ?n until"
    using in_order.append_invar [OF b(1)] in_order.append_live [OF b(1) TrueI, of data] b(2) d o(2)
      slice_append [of ?n offset until src] by simp_all
  have z: "?n + ib_size (ib_append data ?b) = until"
    using length_ib_live [OF a(1)] a(2) d o(2) by simp
  have b1: "buffered s1 = buffered s \<union> {offset..<until}"
    using z o d by (auto simp: buffered_def s1_def)
  have "rx_ok src ?n (qs_in_order s1) (qs_receive_buffer s1)"
    using a z o by (simp add: rx_ok_def s1_def)
  moreover have "buffered s1 \<subseteq> {..<qs_highest_received_offset s1}"
    using inv unfolding b1 by (auto simp: s1_def stream_inv_def)
  ultimately have "stream_inv src s1" using inv ok by (auto simp: stream_inv_def s1_def)
  then show ?thesis using b1 o(2) by (simp add: push_in_order_def s1_def)
qed

lemma stream_inv_fin:
  "stream_inv src s \<Longrightarrow> qs_highest_received_offset s \<le> fs \<Longrightarrow> stream_inv src (s\<lparr>qs_final_size := Some fs\<rparr>)"
  by (simp add: stream_inv_def)

lemma stream_inv_highest:
  "stream_inv src s \<Longrightarrow> \<forall>fs. qs_final_size s = Some fs \<longrightarrow> h \<le> fs \<Longrightarrow>
    stream_inv src (s\<lparr>qs_highest_received_offset := max (qs_highest_received_offset s) h\<rparr>)"
  by (force simp: stream_inv_def)

text \<open>The guards of \<open>push_received\<close>, and what runs behind them.\<close>

definition push_guarded :: "nat \<Rightarrow> nat \<Rightarrow> bool \<Rightarrow> quic_stream \<Rightarrow> bool" where
  "push_guarded offset len fin s \<longleftrightarrow>
     offset > u64_max - len \<or> (fin \<and> offset + len < qs_highest_received_offset s) \<or>
     (\<exists>fs. qs_final_size s = Some fs \<and> (offset + len > fs \<or> (fin \<and> offset + len \<noteq> fs))) \<or>
     qs_state s = stream_closed \<or> qs_state s = half_closed_remote \<or>
     offset > qs_max_data s \<or> len > qs_max_data s - offset"

lemma push_received_guarded:
  assumes "push_guarded (unat off) (length data) fin s"
  shows "snd (push_received off data fin s) = s"
    and "fst (push_received off data fin s) \<in> {Inl (Quic_errc final_size_error), Inl (Quic_errc flow_control_error)} \<union>
      (if unat off + length data \<le> qs_next_expected_offset s then {Inr ()} else {})"
  using assms unfolding push_received_def push_guarded_def Let_def
  by (cases "qs_final_size s"; auto)+

lemma push_received_body:
  "\<not> push_guarded (unat off) (length data) fin s \<Longrightarrow>
    push_received off data fin s = accept_received (unat off) data (unat off + length data) fin s"
  unfolding push_received_def push_guarded_def Let_def
  by (cases "qs_final_size s") auto

lemma push_received_slices:
  assumes inv: "stream_inv src s" and d: "data = slice src (unat off) (unat off + length data)"
  shows "case push_received off data fin s of (r, s') \<Rightarrow>
    stream_inv src s' \<and> qs_next_expected_offset s' = qs_next_expected_offset s \<and>
    (case r of
       Inl e \<Rightarrow> s' = s \<and> e \<in> {Quic_errc final_size_error, Quic_errc flow_control_error}
     | Inr _ \<Rightarrow> buffered s' = (if qs_receive_abandoned s then {} else
         buffered s \<union> {max (qs_next_expected_offset s) (unat off)..<unat off + length data}))"
proof (cases "push_guarded (unat off) (length data) fin s")
  case True
  have "buffered s = {}" if "qs_receive_abandoned s" using that inv by (simp add: stream_inv_def)
  then show ?thesis using push_received_guarded [OF True] inv
    by (cases "push_received off data fin s") (auto split: if_splits)
next
  case False
  let ?until = "unat off + length data"
  define s1 where "s1 = (if fin then s\<lparr>qs_final_size := Some ?until\<rparr> else s)"
  note p = push_received_body [OF False, unfolded accept_received_def, folded s1_def, unfolded Let_def]
  have f: "\<forall>fs. qs_final_size s1 = Some fs \<longrightarrow> ?until \<le> fs" and h: "fin \<Longrightarrow> qs_highest_received_offset s \<le> ?until"
    using False by (auto simp: s1_def push_guarded_def)
  have inv1: "stream_inv src s1" using stream_inv_fin [OF inv h] inv by (auto simp: s1_def)
  have f1: "qs_next_expected_offset s1 = qs_next_expected_offset s" "buffered s1 = buffered s"
    "qs_receive_abandoned s1 = qs_receive_abandoned s" by (simp_all add: s1_def)
  consider (gone) "qs_receive_abandoned s"
    | (old) "\<not> qs_receive_abandoned s" "?until \<le> qs_next_expected_offset s"
    | (next_one) "\<not> qs_receive_abandoned s" "\<not> ?until \<le> qs_next_expected_offset s"
        "qs_receive_buffer s1 = []" "unat off = qs_next_expected_offset s1 + ib_size (qs_in_order s1)"
    | (other) "\<not> qs_receive_abandoned s" "\<not> ?until \<le> qs_next_expected_offset s"
        "\<not> (qs_receive_buffer s1 = [] \<and> unat off = qs_next_expected_offset s1 + ib_size (qs_in_order s1))"
    by blast
  then show ?thesis
  proof cases
    case gone
    then have "buffered s = {}" using inv by (simp add: stream_inv_def)
    then show ?thesis using stream_inv_highest [OF inv1 f] gone f1 unfolding p
      by (simp add: Let_def)
  next
    case old
    then show ?thesis using inv1 f1 unfolding p by simp
  next
    case next_one
    then have "push_received off data fin s = (Inr (), push_in_order data ?until s1)"
      unfolding p f1 by (simp only: if_False simp_thms if_True)
    then show ?thesis using push_in_order_slices [OF inv1 d _ next_one(3,4) _ f] next_one(1) f1 by simp
  next
    case other
    then have r: "push_received off data fin s = reassemble (unat off) data ?until s1"
      unfolding p f1 by (simp only: if_False simp_thms)
    have "qs_next_expected_offset s1 < ?until" "\<not> qs_receive_abandoned s1" using other f1 by simp_all
    from reassemble_slices [OF inv1 d this f] show ?thesis
      unfolding r f1 using other(1) by (simp add: case_prod_beta)
  qed
qed

text \<open>
  C22: A STREAM frame that carries bytes of the peer's sequence is never a protocol violation. A rejected
  frame leaves the stream as it was, and the error is one of the final size or of flow control. An accepted
  one adds exactly its bytes from the next offset on to what is buffered, however it overlaps the ranges
  received before; on a stream whose reader has gone it adds none.
\<close>

theorem push_received_reassembles:
  assumes inv: "stream_inv src s" and d: "data = slice src (unat off) (unat off + length data)"
  shows "case push_received off data fin s of (r, s') \<Rightarrow>
    stream_inv src s' \<and> qs_next_expected_offset s' = qs_next_expected_offset s \<and>
    (case r of
       Inl e \<Rightarrow> s' = s \<and> e \<in> {Quic_errc final_size_error, Quic_errc flow_control_error}
     | Inr _ \<Rightarrow> buffered s' = (if qs_receive_abandoned s then {} else
         buffered s \<union> {max (qs_next_expected_offset s) (unat off)..<unat off + length data}))"
  by (rule push_received_slices [OF inv d])

theorem push_received_reassembles_witness:
  "let s = (mk_quic_stream 0 client True)\<lparr>qs_receive_buffer := [(4, [4, 5])], qs_highest_received_offset := 6\<rparr>
   in case push_received 2 [2, 3, 4] False s of (r, s') \<Rightarrow>
        stream_inv of_nat s' \<and> qs_next_expected_offset s' = 0 \<and> r = Inr () \<and> buffered s' = {2..<6}"
proof -
  let ?s = "(mk_quic_stream 0 client True)\<lparr>qs_receive_buffer := [(4, [4, 5])], qs_highest_received_offset := 6\<rparr>"
  have inv: "stream_inv of_nat ?s"
    by (auto simp: stream_start stream_inv_def buffered_def rx_ok_def slice_def ib_ok_def ib_capacity_def ib_live_def)
  have r: "fst (push_received 2 [2, 3, 4] False ?s) = Inr ()"
    by (simp add: stream_start push_received_def accept_received_def reassemble_def overlap_start_def overlap_step_def
        u64_max_def Let_def)
  have "[2, 3, 4] = slice of_nat (unat (2 :: u64)) (unat (2 :: u64) + length [2, 3, 4 :: byte])"
    by (simp add: slice_def)
  note pushed = push_received_reassembles [OF inv this, of False]
  have b: "buffered ?s = {4..<6}" "qs_next_expected_offset ?s = 0" "\<not> qs_receive_abandoned ?s"
    by (simp_all add: buffered_def stream_start)
  have "{4..<6} \<union> {max 0 2..<2 + 3} = {2..<6 :: nat}" by auto
  then show ?thesis using pushed r b by (cases "push_received 2 [2, 3, 4] False ?s") simp
qed


subsection \<open>Delivery\<close>

lemma covered_empty_iff: "segs_ok src lo m \<Longrightarrow> covered m = {} \<longleftrightarrow> m = []"
  by (cases m) auto

lemma has_buffered_iff: "stream_inv src s \<Longrightarrow> has_buffered_data s \<longleftrightarrow> buffered s \<noteq> {}"
proof -
  assume "stream_inv src s"
  then have "ib_empty (qs_in_order s) \<longleftrightarrow> ib_size (qs_in_order s) = 0"
    "qs_receive_buffer s = [] \<longleftrightarrow> covered (qs_receive_buffer s) = {}"
    using covered_empty_iff [of src "qs_next_expected_offset s" "qs_receive_buffer s"]
    by (auto simp: stream_inv_def rx_ok_def ib_empty_def ib_size_def ib_ok_def)
  then show ?thesis by (auto simp: has_buffered_data_def buffered_def)
qed

text \<open>What a delivery hands out starts at the next offset and ends where the reader's room or the bytes at hand end.\<close>

lemma deliver_slices:
  assumes inv: "stream_inv src s" and h: "has_buffered_data s"
  obtains j s' where "deliver_contiguous_data room s = Some (slice src (qs_next_expected_offset s) j, s')"
    "qs_next_expected_offset s \<le> j" "j \<le> qs_next_expected_offset s + room"
    "j = qs_next_expected_offset s + room \<or> j \<notin> buffered s"
    "s' = s\<lparr>qs_next_expected_offset := j, qs_in_order := qs_in_order s', qs_receive_buffer := qs_receive_buffer s'\<rparr>"
    "rx_ok src j (qs_in_order s') (qs_receive_buffer s')" "buffered s' = buffered s - {..<j}"
    "{qs_next_expected_offset s..<j} \<subseteq> buffered s" "j = qs_next_expected_offset s \<longrightarrow> s' = s"
proof -
  let ?n = "qs_next_expected_offset s" and ?b = "qs_in_order s" and ?m = "qs_receive_buffer s"
  have rx: "rx_ok src ?n ?b ?m" using inv by (simp add: stream_inv_def)
  show ?thesis
  proof (cases "ib_empty ?b")
    case True
    let ?j = "min (?n + room) (run_end ?n ?m)"
    have ok: "segs_ok src ?n ?m" and z: "ib_size ?b = 0" and b: "ib_ok ?b"
      using rx ib_empty_size [OF True] by (simp_all add: rx_ok_def)
    obtain m' where d: "deliver_loop room ?n ?m [] = Some ([] @ slice src ?n ?j, ?j, m')"
      "segs_ok src ?j m'" "covered m' = covered ?m - {..<?j}"
      using deliver_loop_slices [OF ok, of room "[]"] by blast
    let ?s = "s\<lparr>qs_next_expected_offset := ?j, qs_receive_buffer := m'\<rparr>"
    have "m' = ?m" if "?j = ?n"
    proof -
      have "room = 0 \<or> map_of ?m ?n = None"
      proof (rule ccontr)
        assume "\<not> (room = 0 \<or> map_of ?m ?n = None)"
        then obtain v where "room > 0" "(?n, v) \<in> set ?m" using map_of_SomeD by fastforce
        moreover from this have "?n \<in> covered ?m" using segs_ok_bounds [OF ok] by (fastforce simp: covered_def)
        ultimately show False using run_end_covered [OF ok] run_end_ge [of ?n ?m] that
          by (metis add_cancel_right_right min_def nat_less_le)
      qed
      then show ?thesis using d(1) deliver_loop_stop by fastforce
    qed
    moreover have "{?n..<?j} \<subseteq> covered ?m" using run_end_covered [OF ok] by fastforce
    ultimately show ?thesis
      using that [of ?j ?s] d True z b run_end_covered [OF ok] run_end_ge [of ?n ?m] rx_ok_no_in_order [OF b z]
      by (auto simp: deliver_contiguous_data_def buffered_def min_def split: if_splits)
  next
    case False
    then have m: "?m = []" and b: "ib_ok ?b" and l: "ib_live ?b = slice src ?n (?n + ib_size ?b)"
      using rx by (auto simp: rx_ok_def ib_empty_def ib_size_def ib_ok_def)
    let ?c = "min room (ib_size ?b)"
    have c: "ib_ok (ib_consume ?c ?b)" "ib_live (ib_consume ?c ?b) = slice src (?n + ?c) (?n + ib_size ?b)"
      using ib_consume_queue [OF b, of ?c] l by simp_all
    have z: "ib_size (ib_consume ?c ?b) = ib_size ?b - ?c" using length_ib_live [OF c(1)] c(2) by simp
    let ?s = "s\<lparr>qs_in_order := ib_consume ?c ?b, qs_next_expected_offset := ?n + ?c\<rparr>"
    have "take ?c (ib_live ?b) = slice src ?n (?n + ?c)" unfolding l by simp
    moreover have "ib_consume 0 ?b = ?b" using False by (simp add: ib_consume_def ib_empty_def)
    moreover have "{?n + ?c..<?n + ib_size ?b} = {?n..<?n + ib_size ?b} - {..<?n + ?c}" by auto
    ultimately show ?thesis
      by (intro that [of "?n + ?c" ?s])
        (use False m c z in \<open>auto simp: deliver_contiguous_data_def Let_def buffered_def rx_ok_def\<close>)
  qed
qed

lemma deliver_inv:
  assumes inv: "stream_inv src s" and h: "has_buffered_data s"
  obtains j s' where "deliver_contiguous_data room s = Some (slice src (qs_next_expected_offset s) j, s')"
    "qs_next_expected_offset s \<le> j" "j \<le> qs_next_expected_offset s + room"
    "j = qs_next_expected_offset s + room \<or> j \<notin> buffered s" "stream_inv src s'" "qs_next_expected_offset s' = j"
    "buffered s' = buffered s - {..<j}" "qs_state s' = qs_state s" "qs_final_size s' = qs_final_size s"
    "qs_receive_abandoned s' = qs_receive_abandoned s" "j = qs_next_expected_offset s \<longrightarrow> s' = s"
proof -
  let ?n = "qs_next_expected_offset s"
  obtain j s' where d: "deliver_contiguous_data room s = Some (slice src ?n j, s')"
    and j: "?n \<le> j" "j \<le> ?n + room" "j = ?n + room \<or> j \<notin> buffered s"
    and s': "s' = s\<lparr>qs_next_expected_offset := j, qs_in_order := qs_in_order s', qs_receive_buffer := qs_receive_buffer s'\<rparr>"
      "rx_ok src j (qs_in_order s') (qs_receive_buffer s')" "buffered s' = buffered s - {..<j}"
    and c: "{?n..<j} \<subseteq> buffered s" "j = ?n \<longrightarrow> s' = s"
    using deliver_slices [OF inv h] by blast
  have f: "qs_next_expected_offset s' = j" "qs_highest_received_offset s' = qs_highest_received_offset s"
    "qs_final_size s' = qs_final_size s" "qs_receive_abandoned s' = qs_receive_abandoned s" "qs_state s' = qs_state s"
    by (subst s'(1), simp)+
  have "j \<le> qs_highest_received_offset s"
  proof (cases "j = ?n")
    case False
    then have "j - 1 \<in> buffered s" using j(1) c(1) by auto
    then show ?thesis using inv by (auto simp: stream_inv_def)
  qed (use inv in \<open>simp add: stream_inv_def\<close>)
  then have "stream_inv src s'"
    using inv s'(2,3) f by (auto simp: stream_inv_def)
  from that [OF d j this f(1) s'(3) f(5,3,4) c(2)] show ?thesis .
qed

lemma buffered_from: "stream_inv src s \<Longrightarrow> buffered s - {..<qs_next_expected_offset s} = buffered s"
  using covered_bounds by (fastforce simp: stream_inv_def rx_ok_def buffered_def)

text \<open>
  C23: A read hands out the bytes of the peer's sequence from the next offset on, as many as the reader has room
  for or as are there without a gap; what it hands out is no longer buffered. It blocks only where the next byte is
  missing or the reader has no room, and then changes nothing. The check that a shortened range finds its new
  offset free never fails.
\<close>

theorem apply_receive_state_in_order:
  assumes inv: "stream_inv src s"
  shows "case apply_receive_state room s of (r, s') \<Rightarrow> stream_inv src s' \<and>
    (case r of
       Inr out \<Rightarrow>
         let n = qs_next_expected_offset s; j = n + length out in
         out = slice src n j \<and> length out \<le> room \<and>
         (length out = room \<or> j \<notin> buffered s \<or> qs_state s = stream_closed) \<and>
         qs_next_expected_offset s' = j \<and> buffered s' = buffered s - {..<j}
     | Inl e \<Rightarrow> s' = s \<and>
         (e = Std_errc operation_canceled \<and> qs_receive_abandoned s \<or>
          e = Std_errc operation_would_block \<and> \<not> qs_receive_abandoned s \<and>
            (room = 0 \<or> qs_next_expected_offset s \<notin> buffered s)))"
proof (cases "qs_receive_abandoned s \<or> qs_state s = stream_closed \<or> \<not> has_buffered_data s")
  case True
  have "\<not> has_buffered_data s \<Longrightarrow> buffered s = {}" using has_buffered_iff [OF inv] by simp
  then show ?thesis using True inv buffered_from [OF inv]
    by (cases "qs_receive_abandoned s"; cases "qs_state s = stream_closed"; cases "qs_state s = half_closed_remote")
      (simp_all add: apply_receive_state_def)
next
  case False
  let ?n = "qs_next_expected_offset s"
  obtain j s' where d: "deliver_contiguous_data room s = Some (slice src ?n j, s')"
    and j: "?n \<le> j" "j \<le> ?n + room" "j = ?n + room \<or> j \<notin> buffered s"
    and s': "stream_inv src s'" "qs_next_expected_offset s' = j" "buffered s' = buffered s - {..<j}" "j = ?n \<longrightarrow> s' = s"
    using deliver_inv [OF inv] False by blast
  have cc: "close_if_complete s = s" using False by (simp add: close_if_complete_def)
  show ?thesis
  proof (cases "j = ?n")
    case True
    then have "apply_receive_state room s =
        (if qs_state s = half_closed_remote then (Inr [], s) else (Inl (Std_errc operation_would_block), s))"
      using False d s'(4) cc by (simp add: apply_receive_state_def Let_def)
    then show ?thesis using True False j s' inv by (simp add: Let_def)
  next
    case ne: False
    then have "apply_receive_state room s = (Inr (slice src ?n j), close_if_complete s')"
      using False d j by (simp add: apply_receive_state_def Let_def)
    moreover have "?n + (j - ?n) = j" "j - ?n \<le> room" "j \<in> buffered s \<longrightarrow> j - ?n = room" using j by auto
    ultimately show ?thesis using s'(1-3) by (simp add: Let_def)
  qed
qed

theorem apply_receive_state_in_order_witness:
  "let s = (mk_quic_stream 0 client True)\<lparr>qs_receive_buffer := [(0, [0, 1, 2]), (3, [3, 4]), (6, [6])],
          qs_highest_received_offset := 7\<rparr>
   in case apply_receive_state 10 s of (r, s') \<Rightarrow>
        stream_inv of_nat s' \<and> r = Inr [0, 1, 2, 3, 4] \<and> qs_next_expected_offset s' = 5 \<and> buffered s' = {6}"
proof -
  let ?s = "(mk_quic_stream 0 client True)\<lparr>qs_receive_buffer := [(0, [0, 1, 2]), (3, [3, 4]), (6, [6])],
          qs_highest_received_offset := 7\<rparr>"
  have inv: "stream_inv of_nat ?s"
    by (auto simp: stream_start stream_inv_def buffered_def rx_ok_def slice_def ib_ok_def ib_capacity_def ib_live_def)
  have r: "fst (apply_receive_state 10 ?s) = Inr [0, 1, 2, 3, 4]"
    by (simp add: stream_start apply_receive_state_def deliver_contiguous_data_def has_buffered_data_def
        deliver_loop.simps smap_erase_def Let_def)
  have b: "buffered ?s - {..<Suc (Suc (Suc (Suc (Suc 0))))} = {6}" "qs_next_expected_offset ?s = 0"
    by (auto simp: buffered_def stream_start)
  from apply_receive_state_in_order [OF inv, of 10] r b show ?thesis
    by (cases "apply_receive_state 10 ?s") (simp add: Let_def)
qed


subsection \<open>Runs of a stream\<close>

text \<open>The calls a connection and a reader make on a stream after its creation, and the bytes the reader gets.\<close>

datatype stream_event =
  Push u64 bytes bool | Receive nat | Reset_remote u64 | Abandon_receive | Init | Send bytes | Close_local |
  Close_remote | Close_both | Stop_local | Update_send_limit u64 | Initial_send_limit u64 |
  Initial_receive_limit u64 | Extend_receive_limit u64

fun stream_step :: "stream_event \<Rightarrow> quic_stream \<Rightarrow> bytes \<times> quic_stream" where
  "stream_step (Push off data fin) s = ([], snd (push_received off data fin s))"
| "stream_step (Receive room) s =
     (case apply_receive_state room s of (Inl _, s1) \<Rightarrow> ([], s1) | (Inr out, s1) \<Rightarrow> (out, s1))"
| "stream_step (Reset_remote fs) s = ([], snd (reset_remote fs s))"
| "stream_step Abandon_receive s = ([], abandon_receive s)"
| "stream_step Init s = ([], qs_init s)"
| "stream_step (Send data) s = ([], snd (apply_send_state data s))"
| "stream_step Close_local s = ([], apply_close_local_state s)"
| "stream_step Close_remote s = ([], close_remote s)"
| "stream_step Close_both s = ([], close_both s)"
| "stream_step Stop_local s = ([], stop_local s)"
| "stream_step (Update_send_limit l) s = ([], update_send_limit l s)"
| "stream_step (Initial_send_limit l) s = ([], set_initial_send_limit l s)"
| "stream_step (Initial_receive_limit l) s = ([], set_initial_receive_limit l s)"
| "stream_step (Extend_receive_limit l) s = ([], extend_receive_limit l s)"

fun stream_run :: "stream_event list \<Rightarrow> quic_stream \<Rightarrow> bytes \<times> quic_stream" where
  "stream_run [] s = ([], s)"
| "stream_run (ev # evs) s =
     (let (out, s1) = stream_step ev s; (out', s2) = stream_run evs s1 in (out @ out', s2))"

text \<open>A frame of the peer carries bytes of its sequence.\<close>

fun from_peer :: "(nat \<Rightarrow> byte) \<Rightarrow> stream_event \<Rightarrow> bool" where
  "from_peer src (Push off data fin) \<longleftrightarrow> data = slice src (unat off) (unat off + length data)"
| "from_peer src _ \<longleftrightarrow> True"

abbreviation remote_done :: "quic_stream \<Rightarrow> bool" where
  "remote_done s \<equiv> qs_state s = stream_closed \<or> qs_state s = half_closed_remote"

text \<open>The reader has all \<open>k\<close> bytes below the next offset, unless the peer cut the stream short.\<close>

definition run_inv :: "(nat \<Rightarrow> byte) \<Rightarrow> nat \<Rightarrow> quic_stream \<Rightarrow> bool" where
  "run_inv src k s \<longleftrightarrow> stream_inv src s \<and>
     (k = qs_next_expected_offset s \<or> k \<le> qs_next_expected_offset s \<and> remote_done s \<and> buffered s = {})"

lemma push_received_done: "remote_done s \<Longrightarrow> snd (push_received off data fin s) = s"
  by (rule push_received_guarded) (auto simp: push_guarded_def)

lemma push_run_inv:
  assumes inv: "run_inv src k s" and d: "data = slice src (unat off) (unat off + length data)"
  shows "run_inv src k (snd (push_received off data fin s))"
proof (cases "remote_done s")
  case True
  then show ?thesis using inv push_received_done by simp
next
  case False
  have "stream_inv src s" using inv by (simp add: run_inv_def)
  from push_received_slices [OF this d, of fin] show ?thesis
    using inv False by (cases "push_received off data fin s") (simp add: run_inv_def)
qed

lemma receive_run_inv:
  assumes k: "run_inv src k s" and st: "stream_step (Receive room) s = (out, s')"
  shows "\<exists>j. out = slice src k j \<and> k \<le> j \<and> run_inv src j s'"
proof (cases "qs_receive_abandoned s \<or> qs_state s = stream_closed \<or> \<not> has_buffered_data s")
  case True
  then have "s' = s" "out = []" using st by (auto simp: apply_receive_state_def split: if_splits)
  then show ?thesis using k by (intro exI [of _ k]) simp
next
  case False
  have inv: "stream_inv src s" using k by (simp add: run_inv_def)
  have n: "k = qs_next_expected_offset s" using k False has_buffered_iff [OF inv] by (auto simp: run_inv_def)
  obtain j s1 where d: "deliver_contiguous_data room s = Some (slice src k j, s1)" "k \<le> j"
    and s1: "stream_inv src s1" "qs_next_expected_offset s1 = j"
    using deliver_inv [OF inv] False n by blast
  have "out = slice src k j \<and> s' = close_if_complete s1"
    using st False d by (auto simp: apply_receive_state_def Let_def split: if_splits)
  then show ?thesis using s1 d(2) by (intro exI [of _ j]) (simp add: run_inv_def)
qed

lemma reset_run_inv:
  assumes "run_inv src k s"
  shows "run_inv src k (snd (reset_remote fs s))"
proof -
  have le: "k \<le> qs_highest_received_offset s" and ok: "ib_ok (qs_in_order s)"
    using assms by (auto simp: run_inv_def stream_inv_def rx_ok_def)
  have b: "ib_ok (ib_clear (qs_in_order s))" "ib_live (ib_clear (qs_in_order s)) = []"
    using in_order.clear_invar [OF ok] in_order.clear_live [OF ok] by simp_all
  show ?thesis
    using assms le b
    by (auto simp: reset_remote_def Let_def run_inv_def stream_inv_def rx_ok_def buffered_def)
qed

lemma abandon_run_inv:
  assumes "run_inv src k s"
  shows "run_inv src k (abandon_receive s)"
proof -
  define s1 where "s1 = s\<lparr>qs_receive_abandoned := True, qs_in_order := ib_clear (qs_in_order s), qs_receive_buffer := []\<rparr>"
  have ok: "ib_ok (qs_in_order s)" using assms by (simp add: run_inv_def stream_inv_def rx_ok_def)
  have "run_inv src k s1"
    using assms in_order.clear_invar [OF ok] in_order.clear_live [OF ok]
    by (auto simp: s1_def run_inv_def stream_inv_def rx_ok_def buffered_def)
  then have "run_inv src k (close_remote s1)" "run_inv src k s1"
    by (auto simp: run_inv_def close_remote_def)
  then show ?thesis by (simp add: abandon_receive_def s1_def [symmetric])
qed

text \<open>The other calls change only the state, which keeps the peer's end closed, and the limits.\<close>

lemma local_run_inv:
  assumes "run_inv src k s"
  shows "run_inv src k (qs_init s)" "run_inv src k (snd (apply_send_state data s))"
    "run_inv src k (apply_close_local_state s)" "run_inv src k (close_remote s)" "run_inv src k (close_both s)"
    "run_inv src k (stop_local s)" "run_inv src k (update_send_limit l s)" "run_inv src k (set_initial_send_limit l s)"
    "run_inv src k (set_initial_receive_limit l s)" "run_inv src k (extend_receive_limit l s)"
  using assms
  by (auto simp: run_inv_def qs_init_def Let_def apply_send_state_def apply_close_local_state_def close_remote_def
      close_both_def stop_local_def update_send_limit_def set_initial_send_limit_def
      set_initial_receive_limit_def extend_receive_limit_def)

lemma stream_step_run_inv:
  assumes inv: "run_inv src k s" and peer: "from_peer src ev" and st: "stream_step ev s = (out, s')"
  shows "\<exists>j. out = slice src k j \<and> k \<le> j \<and> run_inv src j s'"
proof (cases "\<exists>room. ev = Receive room")
  case True
  then show ?thesis using receive_run_inv [OF inv] st by blast
next
  case False
  then have "out = [] \<and> run_inv src k s'"
    using st peer push_run_inv [OF inv] reset_run_inv [OF inv] abandon_run_inv [OF inv] local_run_inv [OF inv]
    by (cases ev) auto
  then show ?thesis by (intro exI [of _ k]) simp
qed

lemma stream_run_inv:
  "run_inv src k s \<Longrightarrow> list_all (from_peer src) evs \<Longrightarrow> stream_run evs s = (out, s') \<Longrightarrow>
    \<exists>j. out = slice src k j \<and> k \<le> j \<and> run_inv src j s'"
proof (induction evs arbitrary: k s out)
  case Nil
  then show ?case by (intro exI [of _ k]) simp
next
  case (Cons ev evs)
  obtain o1 s1 where 1: "stream_step ev s = (o1, s1)" by fastforce
  obtain o2 where 2: "stream_run evs s1 = (o2, s')" "out = o1 @ o2"
    using Cons.prems(3) 1 by (auto split: prod.splits)
  obtain i where i: "o1 = slice src k i" "k \<le> i" "run_inv src i s1"
    using stream_step_run_inv [OF Cons.prems(1) _ 1] Cons.prems(2) by auto
  obtain j where "o2 = slice src i j" "i \<le> j" "run_inv src j s'"
    using Cons.IH [OF i(3) _ 2(1)] Cons.prems(2) by auto
  then show ?case using i 2(2) slice_append [of k i j src] by auto
qed

lemma run_inv_start: "run_inv src 0 (mk_quic_stream sid owner bidirectional)"
  by (simp add: run_inv_def stream_inv_def mk_quic_stream_def empty_in_order_def rx_ok_def buffered_def
      ib_ok_def ib_size_def ib_live_def)

text \<open>
  C20: Whatever the frames of the peer do to a new stream (arrive out of order, twice, overlapping or cut at
  other places) and whatever else is called in between, the bytes the reader gets are an initial part of the
  peer's byte sequence, none left out and none twice, and never longer than the final size.
\<close>

theorem stream_delivers_in_order:
  assumes peer: "list_all (from_peer src) evs"
    and run: "stream_run evs (mk_quic_stream sid owner bidirectional) = (out, s')"
  shows "out = slice src 0 (length out) \<and> (\<forall>fs. qs_final_size s' = Some fs \<longrightarrow> length out \<le> fs)"
proof -
  obtain j where j: "out = slice src 0 j" "run_inv src j s'"
    using stream_run_inv [OF run_inv_start peer run] by blast
  then have "\<forall>fs. qs_final_size s' = Some fs \<longrightarrow> length out \<le> fs"
    by (force simp: run_inv_def stream_inv_def)
  then show ?thesis using j(1) by simp
qed

theorem stream_delivers_in_order_witness:
  "\<exists>s'. stream_run [Push 2 [2, 3] True, Push 0 [0, 1, 2] False, Receive 10] (mk_quic_stream 0 server True) =
      ([0, 1, 2, 3], s') \<and> [0, 1, 2, 3] = slice of_nat 0 (length [0, 1, 2, 3 :: byte]) \<and>
    (\<forall>fs. qs_final_size s' = Some fs \<longrightarrow> length [0, 1, 2, 3 :: byte] \<le> fs)"
proof -
  let ?evs = "[Push 2 [2, 3] True, Push 0 [0, 1, 2] False, Receive 10]"
  have peer: "list_all (from_peer of_nat) ?evs" by (simp add: slice_def)
  have "fst (stream_run ?evs (mk_quic_stream 0 server True)) = [0, 1, 2, 3]"
    by (simp add: stream_start push_received_def accept_received_def reassemble_def overlap_start_def overlap_step_def
        try_emplace_def u64_max_def Let_def mark_open_def close_if_complete_def has_buffered_data_def
        apply_receive_state_def deliver_contiguous_data_def deliver_loop.simps smap_erase_def)
  then obtain s' where "stream_run ?evs (mk_quic_stream 0 server True) = ([0, 1, 2, 3], s')"
    by (metis prod.collapse)
  with stream_delivers_in_order [OF peer this] show ?thesis by blast
qed

lemma receive_at_end:
  "remote_done s \<Longrightarrow> \<not> qs_receive_abandoned s \<Longrightarrow> \<not> has_buffered_data s \<Longrightarrow> apply_receive_state room s = (Inr [], s)"
  by (auto simp: apply_receive_state_def)

lemma run_at_end:
  "remote_done s \<Longrightarrow> \<not> qs_receive_abandoned s \<Longrightarrow> \<not> has_buffered_data s \<Longrightarrow>
    stream_run (replicate k (Receive room)) s = ([], s)"
  by (induction k) (simp_all add: receive_at_end)

text \<open>A stream whose missing bytes have all arrived.\<close>

definition complete_to :: "(nat \<Rightarrow> byte) \<Rightarrow> nat \<Rightarrow> quic_stream \<Rightarrow> bool" where
  "complete_to src fs s \<longleftrightarrow> stream_inv src s \<and> \<not> qs_receive_abandoned s \<and> qs_state s \<noteq> stream_closed \<and>
     qs_final_size s = Some fs \<and> qs_next_expected_offset s < fs \<and> {qs_next_expected_offset s..<fs} \<subseteq> buffered s"

lemma receive_complete:
  assumes "complete_to src fs s" and room: "0 < room"
  obtains s' where "stream_step (Receive room) s =
      (slice src (qs_next_expected_offset s) (min (qs_next_expected_offset s + room) fs), s')"
    "\<not> qs_receive_abandoned s'" "qs_next_expected_offset s' = min (qs_next_expected_offset s + room) fs"
    "if qs_next_expected_offset s' < fs then complete_to src fs s' else remote_done s' \<and> \<not> has_buffered_data s'"
proof -
  let ?n = "qs_next_expected_offset s"
  have s: "stream_inv src s" "\<not> qs_receive_abandoned s" "qs_state s \<noteq> stream_closed" "qs_final_size s = Some fs"
    "?n < fs" "{?n..<fs} \<subseteq> buffered s" using assms(1) by (simp_all add: complete_to_def)
  then have h: "has_buffered_data s" using has_buffered_iff by force
  have below: "buffered s \<subseteq> {..<fs}" using s(1,4) by (fastforce simp: stream_inv_def)
  obtain j s' where d: "deliver_contiguous_data room s = Some (slice src ?n j, s')"
    and j: "?n \<le> j" "j \<le> ?n + room" "j = ?n + room \<or> j \<notin> buffered s"
    and s': "stream_inv src s'" "qs_next_expected_offset s' = j" "buffered s' = buffered s - {..<j}"
      "qs_state s' = qs_state s" "qs_final_size s' = qs_final_size s" "\<not> qs_receive_abandoned s'"
    using deliver_inv [OF s(1) h] s(2) by metis
  have "j \<le> fs" using s'(1,2,5) s(4) by (auto simp: stream_inv_def)
  moreover have "j \<notin> buffered s \<Longrightarrow> fs \<le> j" using s(6) j(1) by (meson atLeastLessThan_iff linorder_not_less subsetD)
  ultimately have jm: "j = min (?n + room) fs" using j by (auto simp: min_def)
  then have "?n < j" using s(5) room by simp
  then have st: "stream_step (Receive room) s = (slice src ?n j, close_if_complete s')"
    using s(2,3) h d by (simp add: apply_receive_state_def Let_def)
  have "close_if_complete s' = s'" if "j < fs"
    using that s' s(4) by (simp add: close_if_complete_def)
  moreover have "remote_done (close_if_complete s') \<and> \<not> has_buffered_data (close_if_complete s')" if "\<not> j < fs"
  proof -
    have "buffered s' = {}" "j = fs" using that \<open>j \<le> fs\<close> below s'(3) by auto
    then show ?thesis using has_buffered_iff [OF s'(1)] s'(2,5) s(4)
      by (simp add: close_if_complete_def has_buffered_data_def)
  qed
  moreover have "complete_to src fs s'" if "j < fs"
    using that s' s j(1) by (auto simp: complete_to_def)
  ultimately show ?thesis using that [OF st [unfolded jm]] s' jm by (auto simp: close_if_complete_def)
qed

text \<open>
  C21: Once the end of the stream is known and no byte before it is missing, reading brings the stream to its end:
  with enough reads of any size the reader gets all bytes up to the final size, and the next read reports
  the end.
\<close>

theorem complete_stream_is_read:
  assumes "complete_to src fs s" and "0 < room" and "fs - qs_next_expected_offset s \<le> k * room"
  shows "fst (stream_run (replicate k (Receive room)) s) = slice src (qs_next_expected_offset s) fs \<and>
    apply_receive_state room (snd (stream_run (replicate k (Receive room)) s)) =
      (Inr [], snd (stream_run (replicate k (Receive room)) s))"
  using assms(1,3)
proof (induction k arbitrary: s)
  case 0
  then show ?case by (simp add: complete_to_def)
next
  case (Suc k)
  let ?n = "qs_next_expected_offset s"
  obtain s' where st: "stream_step (Receive room) s = (slice src ?n (min (?n + room) fs), s')"
    "\<not> qs_receive_abandoned s'" "qs_next_expected_offset s' = min (?n + room) fs"
    and c: "if qs_next_expected_offset s' < fs then complete_to src fs s' else remote_done s' \<and> \<not> has_buffered_data s'"
    using receive_complete [OF Suc.prems(1) assms(2)] .
  show ?case
  proof (cases "?n + room < fs")
    case True
    then have c': "complete_to src fs s'" using c st(3) by simp
    moreover have "fs - qs_next_expected_offset s' \<le> k * room" using Suc.prems(2) st(3) True by simp
    ultimately show ?thesis
      using Suc.IH [of s'] st True slice_append [of ?n "?n + room" fs src]
      by (auto simp: case_prod_beta)
  next
    case False
    then have "remote_done s' \<and> \<not> has_buffered_data s'" using c st(3) by simp
    then show ?thesis using st False run_at_end [of s'] receive_at_end [of s'] by (simp add: min_def)
  qed
qed

theorem complete_stream_is_read_witness:
  "let s = (mk_quic_stream 0 client True)\<lparr>qs_receive_buffer := [(0, [0, 1]), (2, [2])], qs_highest_received_offset := 3,
          qs_final_size := Some 3\<rparr>;
       (out, s') = stream_run [Receive 2, Receive 2] s
   in out = [0, 1, 2] \<and> apply_receive_state 2 s' = (Inr [], s')"
proof -
  let ?s = "(mk_quic_stream 0 client True)\<lparr>qs_receive_buffer := [(0, [0, 1]), (2, [2])], qs_highest_received_offset := 3,
      qs_final_size := Some 3\<rparr>"
  have "complete_to of_nat 3 ?s"
    by (auto simp: stream_start complete_to_def stream_inv_def buffered_def rx_ok_def slice_def ib_ok_def
        ib_capacity_def ib_live_def)
  from complete_stream_is_read [OF this, of 2 2] show ?thesis
    by (simp add: numeral_2_eq_2 slice_def upt_rec case_prod_beta Let_def mk_quic_stream_def del: stream_run.simps)
qed

end
