(* ===== verification/Quic_Stream_Line.thy ===== *)
theory Quic_Stream_Line
  imports Quic_Stream
begin

text \<open>
  Reading a QUIC stream up to a delimiter, \<open>quic_stream::receive_until_delimiter\<close> of
  \<open>src/src/protocol/quic/quic_stream.cpp\<close>: a loop over \<open>receive\<close> that collects the bytes of the stream in the
  caller's \<open>dynamic_buffer\<close>. Nothing in its text bounds the loop; that it returns is proved from the invariant
  of the stream.
\<close>

fun find_delimiter :: "byte \<Rightarrow> bytes \<Rightarrow> nat option" where
  "find_delimiter delim [] = None"
| "find_delimiter delim (b # bs) = (if b = delim then Some 0 else map_option Suc (find_delimiter delim bs))"

partial_function (option) receive_until_delimiter ::
    "byte \<Rightarrow> dynamic_buffer \<Rightarrow> quic_stream \<Rightarrow> ((quic_error + nat) \<times> dynamic_buffer \<times> quic_stream) option" where
  "receive_until_delimiter delim out s =
     (let out1 = db_prepare 1024 out in
      case apply_receive_state 1024 s of
        (Inl e, s1) \<Rightarrow> Some (Inl e, out1, s1)
      | (Inr received, s1) \<Rightarrow>
          (let out2 = db_commit (length received) (db_fill received out1);
               readable = db_readable out2
           in case find_delimiter delim readable of
                Some i \<Rightarrow> Some (Inr (i + 1), out2, s1)
              | None \<Rightarrow>
                  if received = [] then Some (Inr (length readable), out2, s1)
                  else receive_until_delimiter delim out2 s1))"

lemma find_delimiter_None: "find_delimiter delim bs = None \<longleftrightarrow> delim \<notin> set bs"
  by (induction bs) auto

lemma find_delimiter_Some:
  "find_delimiter delim bs = Some i \<Longrightarrow> i < length bs \<and> bs ! i = delim \<and> delim \<notin> set (take i bs)"
  by (induction bs arbitrary: i) (auto split: if_splits)

lemma receive_slices:
  assumes inv: "stream_inv src s" and r: "apply_receive_state room s = (r, s')"
  shows "stream_inv src s' \<and> qs_highest_received_offset s' = qs_highest_received_offset s \<and>
    (case r of
       Inr received \<Rightarrow> received = slice src (qs_next_expected_offset s) (qs_next_expected_offset s') \<and>
         qs_next_expected_offset s \<le> qs_next_expected_offset s' \<and> length received \<le> room \<and>
         (received = [] \<longrightarrow> remote_done s')
     | Inl e \<Rightarrow> e \<in> {Std_errc operation_canceled, Std_errc operation_would_block} \<and>
         qs_next_expected_offset s' = qs_next_expected_offset s)"
proof (cases "qs_receive_abandoned s \<or> qs_state s = stream_closed \<or> \<not> has_buffered_data s")
  case True
  then show ?thesis using inv r by (auto simp: apply_receive_state_def split: if_splits)
next
  case False
  then have h: "has_buffered_data s" by simp
  let ?n = "qs_next_expected_offset s"
  obtain j s1 where d: "deliver_contiguous_data room s = Some (slice src ?n j, s1)"
    and j: "?n \<le> j" "j \<le> ?n + room" and s1: "stream_inv src s1" "qs_next_expected_offset s1 = j"
    by (rule deliver_inv [OF inv h, of room]) blast
  obtain s2 i where "deliver_contiguous_data room s = Some (slice src ?n i, s2)"
    and s2: "s2 = s\<lparr>qs_next_expected_offset := i, qs_in_order := qs_in_order s2, qs_receive_buffer := qs_receive_buffer s2\<rparr>"
    by (rule deliver_slices [OF inv h, of room]) blast
  then have "s2 = s1" using d by simp
  moreover have "qs_highest_received_offset s2 = qs_highest_received_offset s" by (subst s2) simp
  ultimately have hi: "qs_highest_received_offset s1 = qs_highest_received_offset s" by simp
  have c: "stream_inv src (close_if_complete s1)" "qs_next_expected_offset (close_if_complete s1) = j"
    "qs_highest_received_offset (close_if_complete s1) = qs_highest_received_offset s"
    using s1 hi by (simp_all add: close_if_complete_def)
  show ?thesis
  proof (cases "j = ?n \<and> qs_state (close_if_complete s1) \<noteq> stream_closed \<and>
      qs_state (close_if_complete s1) \<noteq> half_closed_remote")
    case True
    then have "r = Inl (Std_errc operation_would_block)" "s' = close_if_complete s1"
      using False r d by (auto simp: apply_receive_state_def Let_def)
    then show ?thesis using c True by simp
  next
    case ne: False
    then have "r = Inr (slice src ?n j)" "s' = close_if_complete s1"
      using False r d j by (auto simp: apply_receive_state_def Let_def)
    moreover have "slice src ?n j = [] \<Longrightarrow> remote_done (close_if_complete s1)"
      using ne j(1) by auto
    ultimately show ?thesis using c j by simp
  qed
qed


text \<open>
  What a call that starts with \<open>out\<close> and \<open>s\<close> is to give: a result at all; in the buffer what it held and the bytes
  taken from the stream, in order; as the result the length of the readable bytes up to and including the first
  delimiter or, when there is none, of all of them, which happens only when the last read reported the end of
  the stream, whose remote side is then done; and an error only when nothing was read or there is no delimiter at hand.
\<close>

definition line_length :: "byte \<Rightarrow> bytes \<Rightarrow> nat \<Rightarrow> bool" where
  "line_length delim bs k \<longleftrightarrow>
     (if delim \<in> set bs then 0 < k \<and> k \<le> length bs \<and> bs ! (k - 1) = delim \<and> delim \<notin> set (take (k - 1) bs)
      else k = length bs)"

definition read_ended :: "quic_stream \<Rightarrow> bool" where
  "read_ended s' \<longleftrightarrow> remote_done s' \<and> (\<exists>s. apply_receive_state 1024 s = (Inr [], s'))"

definition line_read ::
    "(nat \<Rightarrow> byte) \<Rightarrow> byte \<Rightarrow> dynamic_buffer \<Rightarrow> quic_stream \<Rightarrow>
      ((quic_error + nat) \<times> dynamic_buffer \<times> quic_stream) option \<Rightarrow> bool" where
  "line_read src delim out s res =
     (case res of
        None \<Rightarrow> False
      | Some (r, out', s') \<Rightarrow>
          stream_inv src s' \<and> db_ok out' \<and> qs_next_expected_offset s \<le> qs_next_expected_offset s' \<and>
          db_readable out' = db_readable out @ slice src (qs_next_expected_offset s) (qs_next_expected_offset s') \<and>
          (case r of
             Inr k \<Rightarrow> line_length delim (db_readable out') k \<and>
               (delim \<in> set (db_readable out') \<or> read_ended s')
           | Inl e \<Rightarrow> e \<in> {Std_errc operation_canceled, Std_errc operation_would_block} \<and>
               (qs_next_expected_offset s' = qs_next_expected_offset s \<or> delim \<notin> set (db_readable out'))))"

lemma line_length_found: "find_delimiter delim bs = Some i \<Longrightarrow> line_length delim bs (Suc i)"
  using find_delimiter_Some [of delim bs i] by (auto simp: line_length_def dest: nth_mem)

text \<open>A read that goes on where one without a delimiter stopped is one read.\<close>

lemma line_read_more:
  assumes "line_read src delim out2 s1 res" and "delim \<notin> set (db_readable out2)"
    and "qs_next_expected_offset s \<le> qs_next_expected_offset s1"
    and "db_readable out2 = db_readable out @ slice src (qs_next_expected_offset s) (qs_next_expected_offset s1)"
  shows "line_read src delim out s res"
proof (cases res)
  case None
  then show ?thesis using assms(1) by (simp add: line_read_def)
next
  case (Some a)
  obtain r out' s' where res: "res = Some (r, out', s')" using Some by (cases a) auto
  let ?i = "qs_next_expected_offset s" and ?j = "qs_next_expected_offset s1" and ?k = "qs_next_expected_offset s'"
  have l: "stream_inv src s'" "db_ok out'" "?j \<le> ?k" "db_readable out' = db_readable out2 @ slice src ?j ?k"
    and c: "case r of
        Inr k \<Rightarrow> line_length delim (db_readable out') k \<and>
          (delim \<in> set (db_readable out') \<or> read_ended s')
      | Inl e \<Rightarrow> e \<in> {Std_errc operation_canceled, Std_errc operation_would_block} \<and>
          (?k = ?j \<or> delim \<notin> set (db_readable out'))"
    using assms(1) unfolding res line_read_def by simp_all
  have "db_readable out' = db_readable out @ slice src ?i ?k"
    using l(3,4) assms(3,4) slice_append [of ?i ?j ?k src] by simp
  moreover have "?k = ?j \<Longrightarrow> delim \<notin> set (db_readable out')" using l(4) assms(2) by simp
  ultimately show ?thesis
    unfolding res line_read_def using l(1-3) c assms(3) by (cases r) auto
qed


text \<open>
  C24: On every stream and every well-formed buffer \<open>receive_until_delimiter\<close> returns, and what it returns is
  right: the buffer holds what it held and the bytes taken from the stream, in order, also when the stream
  reports an error; the result is the length of the readable bytes up to and including the first
  delimiter, or of all of them when there is none, and without a delimiter it gives a length only if the stream
  has ended: its remote side is done, and the last read found nothing more to deliver.
\<close>

theorem receive_until_delimiter_returns:
  assumes "stream_inv src s" and "db_ok out"
    and "db_write_pos out + (qs_highest_received_offset s - qs_next_expected_offset s) + 1024 < 2 ^ 64"
  shows "line_read src delim out s (receive_until_delimiter delim out s)"
  using assms
proof (induction "qs_highest_received_offset s - qs_next_expected_offset s" arbitrary: s out rule: less_induct)
  case less
  let ?n = "qs_next_expected_offset s"
  define out1 where "out1 = db_prepare 1024 out"
  have fits: "db_fits 1024 out" using less.prems(3) by (simp add: db_fits_def)
  note p = db_prepare_room [OF less.prems(2) fits, folded out1_def]
  obtain r s1 where r: "apply_receive_state 1024 s = (r, s1)" by fastforce
  note rs = receive_slices [OF less.prems(1) r]
  show ?case
  proof (cases r)
    case (Inl e)
    then have "receive_until_delimiter delim out s = Some (Inl e, out1, s1)"
      using r by (subst receive_until_delimiter.simps) (simp add: out1_def)
    then show ?thesis using rs Inl p(1,2) by (simp add: line_read_def)
  next
    case (Inr received)
    define out2 where "out2 = db_commit (length received) (db_fill received out1)"
    have s1: "stream_inv src s1" "received = slice src ?n (qs_next_expected_offset s1)"
      "?n \<le> qs_next_expected_offset s1" "length received \<le> 1024" "received = [] \<longrightarrow> remote_done s1"
      "qs_highest_received_offset s1 = qs_highest_received_offset s"
      using rs [unfolded Inr sum.case] by blast+
    have "db_fits (length received) out1" using fits p(4) s1(4) by (simp add: db_fits_def)
    from db_fill_commit [OF p(1) _ this] have o: "db_ok out2" "db_readable out2 = db_readable out @ received"
      "db_write_pos out2 = db_write_pos out1 + length received"
      using p(2,3) s1(4) unfolding out2_def by simp_all
    have rec: "receive_until_delimiter delim out s = (case find_delimiter delim (db_readable out2) of
          Some i \<Rightarrow> Some (Inr (i + 1), out2, s1)
        | None \<Rightarrow> if received = [] then Some (Inr (length (db_readable out2)), out2, s1)
                  else receive_until_delimiter delim out2 s1)"
      using r Inr by (subst receive_until_delimiter.simps) (simp only: out1_def out2_def Let_def prod.case sum.case)
    have stop: "line_read src delim out s (Some (Inr k, out2, s1))"
      if "line_length delim (db_readable out2) k" "delim \<in> set (db_readable out2) \<or> read_ended s1" for k
      using that o(1,2) s1(1-3) by (simp add: line_read_def)
    show ?thesis
    proof (cases "find_delimiter delim (db_readable out2)")
      case (Some i)
      moreover from this have "delim \<in> set (db_readable out2)" using find_delimiter_None [of delim "db_readable out2"] by simp
      ultimately show ?thesis using rec stop line_length_found by simp
    next
      case None
      note no = None [unfolded find_delimiter_None]
      show ?thesis
      proof (cases "received = []")
        case True
        then have "read_ended s1" using r Inr s1(5) by (auto simp: read_ended_def)
        then show ?thesis using rec None no stop True by (simp add: line_length_def)
      next
        case False
        then have lt: "?n < qs_next_expected_offset s1" using s1(2,3) by (cases "?n = qs_next_expected_offset s1") auto
        have le: "qs_next_expected_offset s1 \<le> qs_highest_received_offset s1"
          using s1(1) by (simp add: stream_inv_def)
        have len: "length received = qs_next_expected_offset s1 - ?n" using s1(2) by simp
        have "db_write_pos out2 + (qs_highest_received_offset s1 - qs_next_expected_offset s1) + 1024 < 2 ^ 64"
          using less.prems(3) o(3) p(4) s1(6) lt le len by linarith
        moreover have "qs_highest_received_offset s1 - qs_next_expected_offset s1 <
            qs_highest_received_offset s - ?n" using lt le s1(6) by linarith
        ultimately have "line_read src delim out2 s1 (receive_until_delimiter delim out2 s1)"
          using less.hyps [OF _ s1(1) o(1)] by blast
        from line_read_more [OF this no s1(3)] show ?thesis using o(2) s1(2) rec None False by simp
      qed
    qed
  qed
qed

theorem receive_until_delimiter_returns_witness:
  "let s = (mk_quic_stream 0 client True)\<lparr>qs_receive_buffer := [(0, [0, 1, 2])], qs_highest_received_offset := 3\<rparr>;
       out = mk_dynamic_buffer 0
   in line_read of_nat 1 out s (receive_until_delimiter 1 out s) \<and>
      map_option fst (receive_until_delimiter 1 out s) = Some (Inr 2)"
proof -
  let ?s = "(mk_quic_stream 0 client True)\<lparr>qs_receive_buffer := [(0, [0, 1, 2])], qs_highest_received_offset := 3\<rparr>"
  let ?out = "mk_dynamic_buffer 0"
  have inv: "stream_inv of_nat ?s"
    by (auto simp: stream_start stream_inv_def buffered_def rx_ok_def slice_def ib_ok_def ib_capacity_def ib_live_def)
  have "line_read of_nat 1 ?out ?s (receive_until_delimiter 1 ?out ?s)"
    by (rule receive_until_delimiter_returns [OF inv]) (simp_all add: mk_dynamic_buffer_def db_ok_def mk_quic_stream_def)
  moreover have "map_option fst (receive_until_delimiter 1 ?out ?s) = Some (Inr 2)"
    by (subst receive_until_delimiter.simps)
      (simp add: stream_start apply_receive_state_def deliver_contiguous_data_def has_buffered_data_def
        deliver_loop.simps smap_erase_def Let_def mk_dynamic_buffer_def db_prepare_def db_commit_def db_fill_def
        size_add_def vec_resize_def db_readable_def mem_write_def close_if_complete_def)
  ultimately show ?thesis by (simp add: Let_def)
qed

end
