(* ===== verification/Mqtt_Topic.thy ===== *)
theory Mqtt_Topic
  imports Prelude "HOL-Library.Multiset"
begin

text \<open>
  Topic names and topic filters of MQTT, from \<open>src/src/protocol/mqtt/common/topic_filter.cppm\<close>: their validation,
  the splitting at \<open>/\<close>, and the matching of a name by a filter with the wildcards \<open>+\<close> and \<open>#\<close>. The
  subscription map and the store of retained messages split in the same way.
\<close>

subsection \<open>Validation\<close>

definition filter_char_ok :: "string \<Rightarrow> nat \<Rightarrow> bool" where
  "filter_char_ok f i =
     (let ch = f ! i in
      if ch = CHR 0x00 then False
      else if ch = CHR ''+'' \<and> i > 0 \<and> f ! (i - 1) \<noteq> CHR ''/'' then False
      else if ch = CHR ''+'' \<and> i + 1 < length f \<and> f ! (i + 1) \<noteq> CHR ''/'' then False
      else if ch = CHR ''#'' \<and> i \<noteq> length f - 1 then False
      else if ch = CHR ''#'' \<and> i > 0 \<and> f ! (i - 1) \<noteq> CHR ''/'' then False
      else True)"

definition validate_topic_filter :: "string \<Rightarrow> bool" where
  "validate_topic_filter f =
     (if f = [] \<or> length f > 65535 then False else list_all (filter_char_ok f) [0..<length f])"

definition validate_topic_name :: "string \<Rightarrow> bool" where
  "validate_topic_name name =
     (if name = [] \<or> length name > 65535 then False
      else list_all (\<lambda>ch. \<not> (ch = CHR 0x00 \<or> ch = CHR ''+'' \<or> ch = CHR ''#'')) name)"

definition has_wildcards :: "string \<Rightarrow> bool" where
  "has_wildcards f = list_ex (\<lambda>ch. ch = CHR ''+'' \<or> ch = CHR ''#'') f"


subsection \<open>Splitting\<close>

text \<open>\<open>std::string_view::find\<close> of a character from a position on.\<close>

definition find_from :: "char \<Rightarrow> string \<Rightarrow> nat \<Rightarrow> nat option" where
  "find_from c s pos =
     (let n = length (takeWhile (\<lambda>x. x \<noteq> c) (drop pos s)) in if pos + n < length s then Some (pos + n) else None)"

lemma find_from_bounds: "find_from c s pos = Some i \<Longrightarrow> pos \<le> i \<and> i < length s"
  by (auto simp: find_from_def Let_def split: if_splits)

function split_loop :: "string \<Rightarrow> nat \<Rightarrow> string list" where
  "split_loop topic start =
     (if start \<le> length topic then
        case find_from (CHR ''/'') topic start of
          None \<Rightarrow> [drop start topic]
        | Some separator \<Rightarrow>
            take (separator - start) (drop start topic) #
              (if separator + 1 = length topic then [[]] else []) @ split_loop topic (separator + 1)
      else [])"
  by pat_completeness auto
termination by (relation "measure (\<lambda>(topic, start). Suc (length topic) - start)") (auto dest: find_from_bounds)

declare split_loop.simps [simp del]

definition split_topic :: "string \<Rightarrow> string list" where
  "split_topic topic = split_loop topic 0"


subsection \<open>Matching\<close>

fun match_segs :: "string list \<Rightarrow> string list \<Rightarrow> bool" where
  "match_segs [] name_segs = (name_segs = [])"
| "match_segs (fs # filter_segs) name_segs =
     (if fs = ''#'' then True
      else case name_segs of
          [] \<Rightarrow> False
        | ns # name_segs' \<Rightarrow>
            if fs = ''+'' then match_segs filter_segs name_segs'
            else if fs \<noteq> ns then False
            else match_segs filter_segs name_segs')"

definition topic_matches :: "string \<Rightarrow> string \<Rightarrow> bool" where
  "topic_matches f name =
     (if name \<noteq> [] \<and> name ! 0 = CHR ''$'' \<and> f \<noteq> [] \<and> (f ! 0 = CHR ''#'' \<or> f ! 0 = CHR ''+'') then False
      else match_segs (split_topic f) (split_topic name))"


subsection \<open>The levels of a topic\<close>

text \<open>
  What splitting at \<open>/\<close> is meant to give. The code adds one more empty level to a topic that ends in \<open>/\<close>.
\<close>

fun levels :: "string \<Rightarrow> string list" where
  "levels [] = [[]]"
| "levels (c # s) = (if c = CHR ''/'' then [] # levels s else (c # hd (levels s)) # tl (levels s))"

definition ends_with_slash :: "string \<Rightarrow> bool" where
  "ends_with_slash s \<longleftrightarrow> s \<noteq> [] \<and> last s = CHR ''/''"

lemma levels_ne [simp]: "levels s \<noteq> []"
  by (cases s) auto

lemma levels_no_slash: "CHR ''/'' \<notin> set s \<Longrightarrow> levels s = [s]"
  by (induction s) auto

lemma levels_append: "CHR ''/'' \<notin> set s \<Longrightarrow> levels (s @ CHR ''/'' # t) = s # levels t"
  by (induction s) auto

lemma takeWhile_short: "length (takeWhile (\<lambda>x. x \<noteq> c) s) < length s \<longleftrightarrow> c \<in> set s"
  by (induction s) auto

lemma find_from_None: "pos \<le> length s \<Longrightarrow> find_from c s pos = None \<longleftrightarrow> c \<notin> set (drop pos s)"
  using takeWhile_short [of c "drop pos s"] by (auto simp: find_from_def Let_def)

lemma find_from_Some:
  assumes "find_from c s pos = Some i"
  shows "drop pos s = take (i - pos) (drop pos s) @ c # drop (Suc i) s \<and> c \<notin> set (take (i - pos) (drop pos s))"
proof -
  let ?d = "drop pos s" and ?t = "takeWhile (\<lambda>x. x \<noteq> c) (drop pos s)"
  have i: "i = pos + length ?t" "i < length s"
    using assms by (auto simp: find_from_def Let_def split: if_splits)
  have t: "take (i - pos) ?d = ?t" using i(1) by (simp add: takeWhile_eq_take [symmetric])
  have "dropWhile (\<lambda>x. x \<noteq> c) ?d = drop (i - pos) ?d" using i(1) by (simp add: dropWhile_eq_drop)
  also have "\<dots> = s ! i # drop (Suc i) s" using i by (simp add: Cons_nth_drop_Suc add.commute)
  finally have d: "dropWhile (\<lambda>x. x \<noteq> c) ?d = s ! i # drop (Suc i) s" .
  then have "s ! i = c" by (metis (mono_tags, lifting) dropWhile_eq_Cons_conv)
  moreover have "c \<notin> set ?t" by (auto dest: set_takeWhileD)
  moreover have "?d = ?t @ dropWhile (\<lambda>x. x \<noteq> c) ?d" by simp
  ultimately show ?thesis using t d by simp
qed

lemma split_loop_levels:
  "start \<le> length t \<Longrightarrow> start = 0 \<or> start < length t \<Longrightarrow>
     split_loop t start = levels (drop start t) @ (if ends_with_slash (drop start t) then [[]] else [])"
proof (induction t start rule: split_loop.induct)
  case (1 t start)
  show ?case
  proof (cases "find_from (CHR ''/'') t start")
    case None
    then have n: "CHR ''/'' \<notin> set (drop start t)" using 1(2) find_from_None by blast
    then have "\<not> ends_with_slash (drop start t)" using last_in_set unfolding ends_with_slash_def by metis
    then show ?thesis using None 1(2) levels_no_slash [OF n] by (simp add: split_loop.simps [of t start])
  next
    case (Some i)
    note f = find_from_Some [OF Some] and b = find_from_bounds [OF Some]
    let ?seg = "take (i - start) (drop start t)"
    have l: "levels (drop start t) = ?seg # levels (drop (i + 1) t)"
      using f levels_append [of ?seg "drop (Suc i) t"] by simp
    have e: "ends_with_slash (drop start t) \<longleftrightarrow> i + 1 = length t \<or> ends_with_slash (drop (i + 1) t)"
    proof (cases "i + 1 = length t")
      case True
      then have "drop start t = ?seg @ [CHR ''/'']" using f by simp
      then have "ends_with_slash (drop start t)" unfolding ends_with_slash_def
        by (metis append_is_Nil_conv last_snoc not_Cons_self2)
      then show ?thesis using True by simp
    next
      case False
      then have "i + 1 < length t" using b by simp
      then show ?thesis using b by (simp add: ends_with_slash_def last_drop)
    qed
    have s: "split_loop t start = ?seg # (if i + 1 = length t then [[]] else []) @ split_loop t (i + 1)"
      using Some 1(2) by (simp add: split_loop.simps [of t start])
    show ?thesis
    proof (cases "i + 1 = length t")
      case True
      have "split_loop t (length t) = [[]]"
        using find_from_None [of "length t" t "CHR ''/''"] by (simp add: split_loop.simps [of t "length t"])
      then show ?thesis using s l e True by simp
    next
      case False
      then have "i + 1 < length t" using b by simp
      then have "split_loop t (i + 1) = levels (drop (i + 1) t) @ (if ends_with_slash (drop (i + 1) t) then [[]] else [])"
        using 1(1) [OF 1(2) Some] by simp
      then show ?thesis using s l e False by simp
    qed
  qed
qed

lemma split_topic_levels: "split_topic t = levels t @ (if ends_with_slash t then [[]] else [])"
  using split_loop_levels [of 0 t] by (simp add: split_topic_def)

text \<open>A topic is its levels joined, so that different topics have different levels.\<close>

fun join :: "string list \<Rightarrow> string" where
  "join [] = []"
| "join [s] = s"
| "join (s # ss) = s @ CHR ''/'' # join ss"

lemma join_Cons: "ss \<noteq> [] \<Longrightarrow> join (s # ss) = s @ CHR ''/'' # join ss"
  by (cases ss) auto

lemma join_levels [simp]: "join (levels t) = t"
proof (induction t)
  case (Cons c t)
  obtain s ss where l: "levels t = s # ss" by (cases "levels t") auto
  have "join ((c # s) # ss) = c # join (s # ss)" by (cases ss) auto
  then show ?case using Cons l by (auto simp: join_Cons)
qed simp

lemma levels_inject: "levels t = levels u \<Longrightarrow> t = u"
  by (metis join_levels)

lemma levels_empty: "levels t = [[]] \<longleftrightarrow> t = []"
  using levels_inject [of t "[]"] by auto

lemma last_levels: "last (levels t) = [] \<longleftrightarrow> t = [] \<or> ends_with_slash t"
proof (induction t)
  case (Cons c t)
  obtain s ss where l: "levels t = s # ss" by (cases "levels t") auto
  then show ?case using Cons levels_empty [of t] by (cases ss) (auto simp: ends_with_slash_def)
qed simp

lemma split_topic_inject: "split_topic t = split_topic u \<Longrightarrow> t = u"
proof -
  have ne: "levels u \<noteq> levels t @ [[]]" if "ends_with_slash t" "\<not> ends_with_slash u" for t u
  proof
    assume a: "levels u = levels t @ [[]]"
    then have "u = []" using that(2) last_levels [of u] by simp
    then show False using a by simp
  qed
  assume "split_topic t = split_topic u"
  then show ?thesis using ne [of t u] ne [of u t]
    by (auto simp: split_topic_levels split: if_splits intro: levels_inject)
qed

lemma split_topic_ne [simp]: "split_topic t \<noteq> []"
  by (simp add: split_topic_levels)

lemma set_levels: "seg \<in> set (levels t) \<Longrightarrow> set seg \<subseteq> set t"
proof (induction t arbitrary: seg)
  case (Cons c t)
  obtain s ss where "levels t = s # ss" by (cases "levels t") auto
  then show ?case using Cons.prems Cons.IH [of s] Cons.IH [of seg] by (auto split: if_splits)
qed simp

lemma set_split_topic: "seg \<in> set (split_topic t) \<Longrightarrow> set seg \<subseteq> set t"
  using set_levels by (fastforce simp: split_topic_levels split: if_splits)

lemma set_butlast_levels: "seg \<in> set (butlast (levels t)) \<Longrightarrow> set seg \<subseteq> set (butlast t)"
proof (induction t arbitrary: seg)
  case (Cons c t)
  obtain s ss where l: "levels t = s # ss" by (cases "levels t") auto
  show ?case
  proof (cases "t = []")
    case True
    then show ?thesis using Cons.prems by (auto split: if_splits)
  next
    case False
    then show ?thesis using Cons.prems Cons.IH [of s] Cons.IH [of seg] l by (cases ss) (auto split: if_splits)
  qed
qed simp


subsection \<open>Validated filters and names\<close>

lemma validated_char: "validate_topic_filter f \<Longrightarrow> i < length f \<Longrightarrow> filter_char_ok f i"
  by (auto simp: validate_topic_filter_def list_all_iff split: if_splits)

lemma validated_hash: "validate_topic_filter f \<Longrightarrow> CHR ''#'' \<notin> set (butlast f)"
proof
  assume v: "validate_topic_filter f" and h: "CHR ''#'' \<in> set (butlast f)"
  then obtain i where "i < length f - 1" "i < length f" "f ! i = CHR ''#''" by (auto simp: in_set_conv_nth nth_butlast)
  then show False using validated_char [OF v, of i] by (simp add: filter_char_ok_def Let_def)
qed

text \<open>The wildcard \<open>#\<close> is the last level of a validated filter, and a validated name has no wildcard.\<close>

definition hash_last :: "string list \<Rightarrow> bool" where
  "hash_last path \<longleftrightarrow> ''#'' \<notin> set (butlast path)"

lemma validated_hash_last: "validate_topic_filter f \<Longrightarrow> hash_last (split_topic f)"
proof -
  assume "validate_topic_filter f"
  then have h: "CHR ''#'' \<notin> set (butlast f)" by (rule validated_hash)
  then have b: "''#'' \<notin> set (butlast (levels f))" using set_butlast_levels [of "''#''" f] by auto
  have "''#'' \<notin> set (levels f)" if "ends_with_slash f"
  proof -
    have "f = butlast f @ [CHR ''/'']" using that unfolding ends_with_slash_def by (metis append_butlast_last_id)
    then have "set f = set (butlast f @ [CHR ''/''])" by (rule arg_cong)
    then have "CHR ''#'' \<notin> set f" using h by simp
    then show ?thesis using set_levels [of "''#''" f] by auto
  qed
  then show ?thesis using b by (simp add: hash_last_def split_topic_levels)
qed

lemma hash_last_Cons: "hash_last (''#'' # path) \<Longrightarrow> path = []"
  by (auto simp: hash_last_def split: if_splits)

lemma hash_last_tl: "hash_last (k # path) \<Longrightarrow> hash_last path"
  by (auto simp: hash_last_def split: if_splits)

lemma validated_name_chars: "validate_topic_name name \<Longrightarrow> CHR ''+'' \<notin> set name \<and> CHR ''#'' \<notin> set name"
  unfolding validate_topic_name_def list_all_iff by (cases "name = [] \<or> length name > 65535") auto

lemma validated_name:
  assumes "validate_topic_name name" and "seg \<in> set (split_topic name)"
  shows "seg \<noteq> ''+'' \<and> seg \<noteq> ''#''"
  using set_split_topic [OF assms(2)] validated_name_chars [OF assms(1)] by auto

lemma hd_split_topic: "hd (split_topic t) = hd (levels t)"
  by (simp add: split_topic_levels)

lemma hd_levels: "c \<noteq> CHR ''/'' \<Longrightarrow> (hd (levels t) \<noteq> [] \<and> hd (hd (levels t)) = c) \<longleftrightarrow> t \<noteq> [] \<and> t ! 0 = c"
  by (cases t) auto

lemma validated_hd:
  assumes "validate_topic_filter f"
  shows "f \<noteq> [] \<and> (f ! 0 = CHR ''#'' \<or> f ! 0 = CHR ''+'') \<longleftrightarrow>
    hd (split_topic f) = ''#'' \<or> hd (split_topic f) = ''+''"
proof (cases f)
  case (Cons c t)
  have c: "filter_char_ok f 0" using validated_char [OF assms, of 0] Cons by simp
  have "c = CHR ''#'' \<Longrightarrow> t = []" and "c = CHR ''+'' \<Longrightarrow> t = [] \<or> t ! 0 = CHR ''/''"
    using c Cons by (cases t; simp add: filter_char_ok_def split: if_splits)+
  then have "c = CHR ''#'' \<or> c = CHR ''+'' \<Longrightarrow> hd (levels t) = []" by (cases t) auto
  moreover have "hd (levels f) = (if c = CHR ''/'' then [] else c # hd (levels t))" using Cons by simp
  ultimately show ?thesis using Cons by (auto simp: hd_split_topic)
qed (simp add: split_topic_levels)

text \<open>A name below \<open>$\<close> is not for filters that begin with a wildcard.\<close>

definition dollar :: "string list \<Rightarrow> bool" where
  "dollar name_segs \<longleftrightarrow> hd name_segs \<noteq> [] \<and> hd (hd name_segs) = CHR ''$''"

lemma dollar_split: "dollar (split_topic name) \<longleftrightarrow> name \<noteq> [] \<and> name ! 0 = CHR ''$''"
  using hd_levels [of "CHR ''$''" name] by (simp add: dollar_def hd_split_topic)

lemma topic_matches_segs:
  "validate_topic_filter f \<Longrightarrow> topic_matches f name \<longleftrightarrow>
     \<not> (dollar (split_topic name) \<and> (hd (split_topic f) = ''#'' \<or> hd (split_topic f) = ''+'')) \<and>
     match_segs (split_topic f) (split_topic name)"
  using validated_hd [of f] by (auto simp: topic_matches_def dollar_split)

end
