(* ===== verification/Mqtt_Trie.thy ===== *)
theory Mqtt_Trie
  imports Mqtt_Topic
begin

text \<open>
  The tries of the MQTT broker. \<open>subscription_map\<close> and \<open>retained_store\<close> (\<open>src/src/protocol/mqtt/\<close>) each have a
  \<open>trie_node\<close> of their own with the same shape: children by topic level, and what is stored at the node, a map of
  subscribers or an optional message. The node is modelled once, over the type of what it stores; both
  classes walk and prune it in the same way. A child map is an association list in the order of its keys,
  the order of \<open>std::map\<close> and one of those an \<open>std::unordered_map\<close> may have.
\<close>

datatype 'a trie_node = Trie_node (children: "(string, 'a trie_node) smap") (stored: 'a)

text \<open>The node reached by a path.\<close>

fun trie_walk :: "string list \<Rightarrow> 'a trie_node \<Rightarrow> 'a trie_node option" where
  "trie_walk [] node = Some node"
| "trie_walk (key # path) node =
     (case map_of (children node) key of None \<Rightarrow> None | Some child \<Rightarrow> trie_walk path child)"

text \<open>The walk that adds missing nodes, and the change of what is stored at its end.\<close>

fun trie_update :: "'a \<Rightarrow> ('a \<Rightarrow> 'a) \<Rightarrow> string list \<Rightarrow> 'a trie_node \<Rightarrow> 'a trie_node" where
  "trie_update fresh f [] node = Trie_node (children node) (f (stored node))"
| "trie_update fresh f (key # path) node =
     (let child = (case map_of (children node) key of None \<Rightarrow> Trie_node [] fresh | Some child \<Rightarrow> child)
      in Trie_node (smap_insert key (trie_update fresh f path child) (children node)) (stored node))"

text \<open>
  The walk along existing nodes, the change at its end, and the way back, on which a child that is left without
  children and with nothing stored is erased from its parent; the first child that is not stays, and with it
  all nodes above.
\<close>

definition node_vacant :: "('a \<Rightarrow> bool) \<Rightarrow> 'a trie_node \<Rightarrow> bool" where
  "node_vacant vacant node \<longleftrightarrow> vacant (stored node) \<and> children node = []"

fun trie_remove :: "('a \<Rightarrow> bool) \<Rightarrow> ('a \<Rightarrow> 'a) \<Rightarrow> string list \<Rightarrow> 'a trie_node \<Rightarrow> 'a trie_node" where
  "trie_remove vacant f [] node = Trie_node (children node) (f (stored node))"
| "trie_remove vacant f (key # path) node =
     (case map_of (children node) key of
        None \<Rightarrow> node
      | Some child \<Rightarrow>
          let child' = trie_remove vacant f path child
          in if node_vacant vacant child' then Trie_node (smap_erase key (children node)) (stored node)
             else Trie_node (smap_insert key child' (children node)) (stored node))"


subsection \<open>The items of a trie\<close>

text \<open>Every node has its children sorted by their keys and a well-formed content.\<close>

fun trie_ok :: "('a \<Rightarrow> bool) \<Rightarrow> 'a trie_node \<Rightarrow> bool" where
  "trie_ok good (Trie_node cs p) \<longleftrightarrow> good p \<and> smap_sorted cs \<and> (\<forall>c \<in> snd ` set cs. trie_ok good c)"

text \<open>All items of a trie, with the paths of their nodes, in the order of a walk from the root down.\<close>

fun trie_items :: "('a \<Rightarrow> 'b list) \<Rightarrow> 'a trie_node \<Rightarrow> (string list \<times> 'b) list" where
  "trie_items items (Trie_node cs p) =
     map (Pair []) (items p) @ concat (map (\<lambda>(k, c). map (apfst ((#) k)) (trie_items items c)) cs)"

lemma trie_ok_child: "trie_ok good node \<Longrightarrow> map_of (children node) k = Some c \<Longrightarrow> trie_ok good c"
  by (cases node) (force dest: map_of_SomeD)

lemma trie_ok_sorted: "trie_ok good node \<Longrightarrow> smap_sorted (children node)"
  by (cases node) simp

lemma trie_ok_good: "trie_ok good node \<Longrightarrow> good (stored node)"
  by (cases node) simp

lemma set_smap_insert_snd: "snd ` set (smap_insert k v m) \<subseteq> insert v (snd ` set m)"
  by (induction k v m rule: smap_insert.induct) auto

lemma trie_ok_insert:
  "trie_ok good node \<Longrightarrow> trie_ok good c \<Longrightarrow> trie_ok good (Trie_node (smap_insert k c (children node)) (stored node))"
  using set_smap_insert_snd [of k c "children node"] smap_insert_sorted by (cases node) fastforce

lemma trie_ok_erase: "trie_ok good node \<Longrightarrow> trie_ok good (Trie_node (smap_erase k (children node)) (stored node))"
  by (cases node) (auto simp: smap_erase_def intro: smap_erase_sorted [unfolded smap_erase_def])

lemma trie_ok_stored: "trie_ok good node \<Longrightarrow> good p \<Longrightarrow> trie_ok good (Trie_node (children node) p)"
  by (cases node) simp

lemma trie_ok_leaf: "trie_ok good (Trie_node [] p) \<longleftrightarrow> good p"
  by (simp add: smap_sorted_def)

text \<open>Sums over a map: only the children of given keys count.\<close>

abbreviation sum_children :: "(string \<Rightarrow> 'c \<Rightarrow> 'b multiset) \<Rightarrow> (string, 'c) smap \<Rightarrow> 'b multiset" where
  "sum_children g m \<equiv> (\<Sum>(k, c) \<leftarrow> m. g k c)"

lemma mset_concat_map: "mset (concat (map f xs)) = (\<Sum>x \<leftarrow> xs. mset (f x))"
  by (induction xs) auto

lemma sum_children_none: "k \<notin> fst ` set m \<Longrightarrow> sum_children (\<lambda>k' c. if k' = k then g c else {#}) m = {#}"
  by (induction m) (auto split: prod.splits)

lemma sum_children_one:
  "distinct (map fst m) \<Longrightarrow>
     sum_children (\<lambda>k' c. if k' = k then g c else {#}) m = (case map_of m k of None \<Rightarrow> {#} | Some c \<Rightarrow> g c)"
proof (induction m)
  case (Cons x m)
  obtain k' c where x: "x = (k', c)" by fastforce
  show ?case
  proof (cases "k' = k")
    case True
    then have "k \<notin> fst ` set m" using Cons.prems x by simp
    then show ?thesis using True x sum_children_none [of k m g] by simp
  next
    case False
    then show ?thesis using Cons x by simp
  qed
qed simp

lemma smap_sorted_distinct: "smap_sorted m \<Longrightarrow> distinct (map fst m)"
  by (auto simp: smap_sorted_def strict_sorted_iff)

lemma sum_children_insert:
  "smap_sorted m \<Longrightarrow> sum_children g (smap_insert k v m) = g k v + sum_children g (smap_erase k m)"
proof (induction k v m rule: smap_insert.induct)
  case (2 k v k' v' m)
  have s: "smap_sorted m" "\<forall>x \<in> set m. k' < fst x" using 2(2) by (auto simp: smap_sorted_def)
  consider (less) "k < k'" | (same) "k = k'" | (greater) "k' < k" by fastforce
  then show ?case
  proof cases
    case less
    then have "smap_erase k ((k', v') # m) = (k', v') # m"
      unfolding smap_erase_def using s(2) by (intro filter_True) auto
    then show ?thesis using less by simp
  next
    case same
    then have "smap_erase k ((k', v') # m) = m"
      using s(2) by (auto simp: smap_erase_def intro!: filter_True)
    then show ?thesis using same by simp
  next
    case greater
    then have n: "\<not> k < k'" "k \<noteq> k'" by auto
    then have "smap_erase k ((k', v') # m) = (k', v') # smap_erase k m" by (simp add: smap_erase_def)
    then show ?thesis using 2(1) [OF n s(1)] n by (simp add: add.left_commute)
  qed
qed (simp add: smap_erase_def)

lemma sum_children_erase:
  "sum_children g m = sum_children (\<lambda>k' c. if k' = k then g k c else {#}) m + sum_children g (smap_erase k m)"
proof (induction m)
  case (Cons x m)
  obtain k' c where x: "x = (k', c)" by fastforce
  show ?case
  proof (cases "k' = k")
    case True
    then show ?thesis unfolding x by (simp add: smap_erase_def Cons [unfolded smap_erase_def])
  next
    case False
    then show ?thesis unfolding x by (simp add: smap_erase_def Cons [unfolded smap_erase_def])
  qed
qed (simp add: smap_erase_def)

lemma sum_children_split:
  "smap_sorted m \<Longrightarrow>
     sum_children g m = (case map_of m k of None \<Rightarrow> {#} | Some c \<Rightarrow> g k c) + sum_children g (smap_erase k m)"
  by (subst sum_children_erase [of g m k]) (simp only: sum_children_one [OF smap_sorted_distinct])

lemma filter_sum_children:
  "filter_mset P (sum_children g m) = sum_children (\<lambda>k c. filter_mset P (g k c)) m"
  by (induction m) auto

lemma sum_children_cong: "(\<And>k c. (k, c) \<in> set m \<Longrightarrow> g k c = h k c) \<Longrightarrow> sum_children g m = sum_children h m"
  by (induction m) auto

lemma sum_children_zero: "(\<And>k c. (k, c) \<in> set m \<Longrightarrow> g k c = {#}) \<Longrightarrow> sum_children g m = {#}"
  by (induction m) auto

text \<open>The items at and below a node, as a sum.\<close>

definition below :: "('a \<Rightarrow> 'b list) \<Rightarrow> string \<Rightarrow> 'a trie_node \<Rightarrow> (string list \<times> 'b) multiset" where
  "below items k c = image_mset (apfst ((#) k)) (mset (trie_items items c))"

lemma mset_trie_items:
  "mset (trie_items items node) =
     image_mset (Pair []) (mset (items (stored node))) + sum_children (below items) (children node)"
  by (cases node) (simp add: mset_concat_map below_def split_def)

declare trie_items.simps [simp del] trie_ok.simps [simp del]

lemma filter_below: "filter_mset P (below items k c) = image_mset (apfst ((#) k)) {#x \<in># mset (trie_items items c). P (apfst ((#) k) x)#}"
  by (simp add: below_def filter_mset_image_mset)

lemma filter_below_other: "k \<noteq> k' \<Longrightarrow> filter_mset (\<lambda>x. fst x \<noteq> k # path) (below items k' c) = below items k' c"
  by (simp add: filter_below) (simp add: below_def)

lemma filter_below_same:
  "filter_mset (\<lambda>x. fst x \<noteq> k # path) (below items k c) =
     image_mset (apfst ((#) k)) {#x \<in># mset (trie_items items c). fst x \<noteq> path#}"
  by (simp add: filter_below)

lemma filter_erased:
  "filter_mset (\<lambda>x. fst x \<noteq> k # path) (sum_children (below items) (smap_erase k m)) =
     sum_children (below items) (smap_erase k m)"
  unfolding filter_sum_children
  by (rule sum_children_cong) (auto simp: smap_erase_def intro!: filter_below_other)

text \<open>What is stored at a path.\<close>

definition stored_at :: "'a \<Rightarrow> string list \<Rightarrow> 'a trie_node \<Rightarrow> 'a" where
  "stored_at fresh path node = (case trie_walk path node of None \<Rightarrow> fresh | Some n \<Rightarrow> stored n)"

lemma mset_sum_children: "sum_children (\<lambda>k v. {#(k, v)#}) m = mset m"
  by (induction m) auto

lemma mset_smap_erase: "mset (smap_erase k m) = {#x \<in># mset m. fst x \<noteq> k#}"
  by (simp add: smap_erase_def)

lemma mset_smap_insert: "smap_sorted m \<Longrightarrow> mset (smap_insert k v m) = add_mset (k, v) {#x \<in># mset m. fst x \<noteq> k#}"
  for m :: "(string, 'v) smap"
  using sum_children_insert [of m "\<lambda>k v. {#(k, v)#}" k v] unfolding mset_sum_children mset_smap_erase by simp

text \<open>
  What the two classes store at a node: its items, the content of a new node, when a node counts as vacant,
  and when its content is well formed.
\<close>

locale trie_content =
  fixes items :: "'a \<Rightarrow> 'b list" and fresh :: 'a and vacant :: "'a \<Rightarrow> bool" and good :: "'a \<Rightarrow> bool"
  assumes fresh_items: "items fresh = []"
    and vacant_items: "vacant p \<longleftrightarrow> items p = []"
    and fresh_good: "good fresh"
begin

lemma update_ok:
  "trie_ok good node \<Longrightarrow> (\<And>p. good p \<Longrightarrow> good (f p)) \<Longrightarrow> trie_ok good (trie_update fresh f path node)"
proof (induction path arbitrary: node)
  case Nil
  then show ?case using trie_ok_stored trie_ok_good by fastforce
next
  case (Cons key path)
  define child where "child = (case map_of (children node) key of None \<Rightarrow> Trie_node [] fresh | Some child \<Rightarrow> child)"
  have "trie_ok good child" using Cons.prems(1) trie_ok_child [OF Cons.prems(1), of key] fresh_good
    by (auto simp: child_def trie_ok_leaf split: option.splits)
  then have "trie_ok good (trie_update fresh f path child)" using Cons.IH Cons.prems(2) by blast
  then show ?case using trie_ok_insert [OF Cons.prems(1)] by (simp add: child_def [symmetric])
qed

lemma remove_ok:
  "trie_ok good node \<Longrightarrow> (\<And>p. good p \<Longrightarrow> good (f p)) \<Longrightarrow> trie_ok good (trie_remove vacant f path node)"
proof (induction path arbitrary: node)
  case Nil
  then show ?case using trie_ok_stored trie_ok_good by fastforce
next
  case (Cons key path)
  show ?case
  proof (cases "map_of (children node) key")
    case None
    then show ?thesis using Cons.prems by simp
  next
    case (Some child)
    then have "trie_ok good (trie_remove vacant f path child)"
      using Cons.IH [OF trie_ok_child [OF Cons.prems(1) Some] Cons.prems(2)] by blast
    then show ?thesis
      using Some trie_ok_insert [OF Cons.prems(1)] trie_ok_erase [OF Cons.prems(1)] by (simp add: Let_def)
  qed
qed

abbreviation contents :: "'a trie_node \<Rightarrow> (string list \<times> 'b) multiset" where
  "contents node \<equiv> mset (trie_items items node)"

lemma own_items:
  "{#x \<in># contents node. fst x \<noteq> k # path#} = image_mset (Pair []) (mset (items (stored node))) +
     filter_mset (\<lambda>x. fst x \<noteq> k # path) (sum_children (below items) (children node))"
  by (subst mset_trie_items) (simp add: filter_mset_image_mset)

lemma child_items:
  "{#x \<in># contents node. fst x \<noteq> []#} = sum_children (below items) (children node)"
proof -
  have "filter_mset (\<lambda>x. fst x \<noteq> []) (below items k c) = below items k c" for k c
    unfolding filter_below by (simp add: below_def)
  then show ?thesis by (subst mset_trie_items) (simp add: filter_sum_children filter_mset_image_mset)
qed

lemma stored_at_good: "trie_ok good node \<Longrightarrow> good (stored_at fresh path node)"
proof (induction path arbitrary: node)
  case (Cons k path)
  show ?case
  proof (cases "map_of (children node) k")
    case (Some c)
    then show ?thesis using Cons.IH [OF trie_ok_child [OF Cons.prems Some]] by (simp add: stored_at_def)
  qed (simp add: stored_at_def fresh_good)
qed (simp add: stored_at_def trie_ok_good)

lemma contents_at:
  "trie_ok good node \<Longrightarrow>
     {#x \<in># contents node. fst x = path#} = image_mset (Pair path) (mset (items (stored_at fresh path node)))"
proof (induction path arbitrary: node)
  case Nil
  have "filter_mset (\<lambda>x. fst x = []) (sum_children (below items) (children node)) = {#}"
    unfolding filter_sum_children by (rule sum_children_zero) (simp add: filter_below)
  then show ?case by (subst mset_trie_items) (simp add: filter_mset_image_mset stored_at_def)
next
  case (Cons k path)
  let ?m = "children node"
  have s: "smap_sorted ?m" using Cons.prems by (rule trie_ok_sorted)
  have "filter_mset (\<lambda>x. fst x = k # path) (sum_children (below items) (smap_erase k ?m)) = {#}"
    unfolding filter_sum_children by (rule sum_children_zero) (auto simp: smap_erase_def filter_below)
  then have "{#x \<in># contents node. fst x = k # path#} =
      (case map_of ?m k of None \<Rightarrow> {#} | Some c \<Rightarrow> image_mset (apfst ((#) k)) {#x \<in># contents c. fst x = path#})"
    unfolding mset_trie_items [of items node] sum_children_split [OF s, of "below items" k]
    by (simp add: filter_mset_image_mset filter_below split: option.splits)
  then show ?case using Cons.IH trie_ok_child [OF Cons.prems, of k]
    by (simp add: stored_at_def fresh_items multiset.map_comp comp_def split: option.splits)
qed

lemma update_contents:
  "trie_ok good node \<Longrightarrow>
     contents (trie_update fresh f path node) =
       {#x \<in># contents node. fst x \<noteq> path#} + image_mset (Pair path) (mset (items (f (stored_at fresh path node))))"
proof (induction path arbitrary: node)
  case Nil
  then show ?case unfolding child_items by (simp add: mset_trie_items stored_at_def)
next
  case (Cons k path)
  let ?m = "children node"
  define child where "child = (case map_of ?m k of None \<Rightarrow> Trie_node [] fresh | Some c \<Rightarrow> c)"
  have ok: "trie_ok good child" using Cons.prems trie_ok_child [OF Cons.prems, of k] fresh_good
    by (auto simp: child_def trie_ok_leaf split: option.splits)
  have at: "stored_at fresh (k # path) node = stored_at fresh path child"
    by (cases path) (auto simp: stored_at_def child_def split: option.splits)
  have s: "smap_sorted ?m" using Cons.prems by (rule trie_ok_sorted)
  have c: "contents child = (case map_of ?m k of None \<Rightarrow> {#} | Some c \<Rightarrow> contents c)"
    by (auto simp: child_def fresh_items mset_trie_items split: option.splits)
  have "sum_children (below items) (smap_insert k (trie_update fresh f path child) ?m) =
      below items k (trie_update fresh f path child) + sum_children (below items) (smap_erase k ?m)"
    using s by (rule sum_children_insert)
  moreover have "below items k (trie_update fresh f path child) =
      image_mset (apfst ((#) k)) {#x \<in># contents child. fst x \<noteq> path#} +
      image_mset (Pair (k # path)) (mset (items (f (stored_at fresh (k # path) node))))"
    unfolding below_def Cons.IH [OF ok] at by (simp add: multiset.map_comp comp_def)
  moreover have "filter_mset (\<lambda>x. fst x \<noteq> k # path) (sum_children (below items) ?m) =
      image_mset (apfst ((#) k)) {#x \<in># contents child. fst x \<noteq> path#} + sum_children (below items) (smap_erase k ?m)"
    unfolding sum_children_split [OF s, of "below items" k] filter_union_mset filter_erased c
    by (auto simp: filter_below_same split: option.splits)
  moreover have "contents (trie_update fresh f (k # path) node) =
      image_mset (Pair []) (mset (items (stored node))) +
      sum_children (below items) (smap_insert k (trie_update fresh f path child) ?m)"
    unfolding trie_update.simps Let_def child_def [symmetric] by (subst mset_trie_items) simp
  ultimately show ?case
    unfolding own_items by (simp only: union_assoc union_commute union_lcomm)
qed

lemma vacant_contents: "node_vacant vacant node \<Longrightarrow> contents node = {#}"
  by (simp add: mset_trie_items node_vacant_def vacant_items)

lemma remove_contents:
  "trie_ok good node \<Longrightarrow> trie_walk path node = Some n \<Longrightarrow>
     contents (trie_remove vacant f path node) =
       {#x \<in># contents node. fst x \<noteq> path#} + image_mset (Pair path) (mset (items (f (stored n))))"
proof (induction path arbitrary: node)
  case Nil
  then show ?case unfolding child_items by (simp add: mset_trie_items)
next
  case (Cons k path)
  let ?m = "children node"
  obtain child where m: "map_of ?m k = Some child" "trie_walk path child = Some n"
    using Cons.prems(2) by (auto split: option.splits)
  have ok: "trie_ok good child" using trie_ok_child [OF Cons.prems(1) m(1)] .
  have s: "smap_sorted ?m" using Cons.prems(1) by (rule trie_ok_sorted)
  define child' where "child' = trie_remove vacant f path child"
  have b: "below items k child' =
      image_mset (apfst ((#) k)) {#x \<in># contents child. fst x \<noteq> path#} +
      image_mset (Pair (k # path)) (mset (items (f (stored n))))"
    unfolding below_def child'_def Cons.IH [OF ok m(2)] by (simp add: multiset.map_comp comp_def)
  have "trie_remove vacant f (k # path) node =
      (if node_vacant vacant child' then Trie_node (smap_erase k ?m) (stored node)
       else Trie_node (smap_insert k child' ?m) (stored node))"
    using m(1) by (simp add: child'_def)
  moreover have "node_vacant vacant child' \<Longrightarrow> below items k child' = {#}"
    using vacant_contents by (simp add: below_def)
  ultimately have "contents (trie_remove vacant f (k # path) node) =
      image_mset (Pair []) (mset (items (stored node))) + (below items k child' + sum_children (below items) (smap_erase k ?m))"
    by (simp add: mset_trie_items [of items "Trie_node _ _"] sum_children_insert [OF s])
  moreover have "filter_mset (\<lambda>x. fst x \<noteq> k # path) (sum_children (below items) ?m) =
      image_mset (apfst ((#) k)) {#x \<in># contents child. fst x \<noteq> path#} + sum_children (below items) (smap_erase k ?m)"
    unfolding sum_children_split [OF s, of "below items" k] filter_union_mset filter_erased m(1)
    by (simp add: filter_below_same)
  ultimately show ?case
    unfolding own_items b by (simp only: union_assoc union_commute union_lcomm)
qed

end

end
