(* ===== verification/Mqtt_Subscriptions.thy ===== *)
theory Mqtt_Subscriptions
  imports Mqtt_Trie
begin

text \<open>
  The subscriptions of the MQTT broker, \<open>subscription_map\<close> of \<open>src/src/protocol/mqtt/mqtt_subscription_map.cpp\<close>: a
  trie of topic filters with the subscribers of each filter. What it promises is that \<open>match\<close> finds, for a
  topic name, each subscription whose filter matches by \<open>topic_matches\<close>, once.
\<close>

datatype qos = at_most_once | at_least_once | exactly_once

datatype retain_handling = send | send_only_new_subscription | not_send

record subscribe_entry =
  topic_filter :: string
  max_qos :: qos
  no_local :: bool
  retain_as_published :: bool
  rh :: retain_handling
  subscription_id :: u32

type_synonym subscribers = "(string, subscribe_entry) smap"
type_synonym subscription_entry_ref = "string \<times> subscribe_entry"

record subscription_map =
  sm_root :: "subscribers trie_node"
  sm_total_subscriptions :: nat

definition empty_subscription_map :: subscription_map where
  "empty_subscription_map = \<lparr>sm_root = Trie_node [] [], sm_total_subscriptions = 0\<rparr>"

definition sm_split :: "string \<Rightarrow> string list" where
  "sm_split topic = split_loop topic 0"

text \<open>The walk of \<open>insert\<close> creates the nodes that are missing; \<open>insert_or_assign\<close> tells whether the client is new there.\<close>

definition sm_insert :: "string \<Rightarrow> string \<Rightarrow> subscribe_entry \<Rightarrow> subscription_map \<Rightarrow> subscription_map" where
  "sm_insert f client_id entry m =
     (let path = sm_split f;
          inserted = (map_of (stored_at [] path (sm_root m)) client_id = None)
      in \<lparr>sm_root = trie_update [] (smap_insert client_id entry) path (sm_root m),
          sm_total_subscriptions = (if inserted then sm_total_subscriptions m + 1 else sm_total_subscriptions m)\<rparr>)"

definition sm_erase :: "string \<Rightarrow> string \<Rightarrow> subscription_map \<Rightarrow> bool \<times> subscription_map" where
  "sm_erase f client_id m =
     (case trie_walk (sm_split f) (sm_root m) of
        None \<Rightarrow> (False, m)
      | Some node \<Rightarrow>
          if map_of (stored node) client_id = None then (False, m)
          else (True, \<lparr>sm_root = trie_remove (\<lambda>s. s = []) (smap_erase client_id) (sm_split f) (sm_root m),
                       sm_total_subscriptions = sm_total_subscriptions m - 1\<rparr>))"

text \<open>The number of subscriptions erased at and below a node, and the node that is left.\<close>

fun erase_client_recursive :: "string \<Rightarrow> subscribers trie_node \<Rightarrow> nat \<times> subscribers trie_node" where
  "erase_client_recursive client_id (Trie_node cs s) =
     (let results = map (\<lambda>(k, c). (k, erase_client_recursive client_id c)) cs;
          erased = (if map_of s client_id = None then 0 else 1)
      in (erased + sum_list (map (\<lambda>(k, n, c). n) results),
          Trie_node (filter (\<lambda>(k, c). \<not> node_vacant (\<lambda>s. s = []) c) (map (\<lambda>(k, n, c). (k, c)) results))
            (smap_erase client_id s)))"

definition sm_erase_client :: "string \<Rightarrow> subscription_map \<Rightarrow> subscription_map" where
  "sm_erase_client client_id m =
     (case erase_client_recursive client_id (sm_root m) of
        (n, root) \<Rightarrow> \<lparr>sm_root = root, sm_total_subscriptions = sm_total_subscriptions m - n\<rparr>)"

fun match_recursive ::
    "string list \<Rightarrow> nat \<Rightarrow> string \<Rightarrow> subscribers trie_node \<Rightarrow> subscription_entry_ref list" where
  "match_recursive segments depth original_topic node =
     (let dollar_block = (depth = 0 \<and> original_topic \<noteq> [] \<and> hd original_topic = CHR ''$'');
          hash = (case map_of (children node) ''#'' of
                    None \<Rightarrow> []
                  | Some child \<Rightarrow> if dollar_block then [] else stored child)
      in hash @
         (case segments of
            [] \<Rightarrow> stored node
          | segment # rest \<Rightarrow>
              (case map_of (children node) ''+'' of
                 None \<Rightarrow> []
               | Some child \<Rightarrow> if dollar_block then [] else match_recursive rest (depth + 1) original_topic child) @
              (case map_of (children node) segment of
                 None \<Rightarrow> []
               | Some child \<Rightarrow> match_recursive rest (depth + 1) original_topic child)))"

definition sm_match :: "string \<Rightarrow> subscription_map \<Rightarrow> subscription_entry_ref list" where
  "sm_match topic m = match_recursive (sm_split topic) 0 topic (sm_root m)"

definition sm_size :: "subscription_map \<Rightarrow> nat" where
  "sm_size m = sm_total_subscriptions m"

definition sm_empty :: "subscription_map \<Rightarrow> bool" where
  "sm_empty m \<longleftrightarrow> sm_total_subscriptions m = 0"

definition sm_clear :: "subscription_map \<Rightarrow> subscription_map" where
  "sm_clear m = \<lparr>sm_root = Trie_node [] [], sm_total_subscriptions = 0\<rparr>"

declare match_recursive.simps [simp del]

interpretation subs: trie_content "\<lambda>s. s" "[]" "\<lambda>s. s = []" smap_sorted
  by unfold_locales (simp_all add: smap_sorted_def)

abbreviation contents :: "subscribers trie_node \<Rightarrow> (string list \<times> subscription_entry_ref) multiset" where
  "contents node \<equiv> mset (trie_items (\<lambda>s. s) node)"


subsection \<open>Matching\<close>

text \<open>The filters a topic matches, with the wildcards barred from the first level where they are.\<close>

definition path_matches :: "bool \<Rightarrow> string list \<Rightarrow> string list \<Rightarrow> bool" where
  "path_matches barred path segs \<longleftrightarrow>
     \<not> (barred \<and> path \<noteq> [] \<and> (hd path = ''#'' \<or> hd path = ''+'')) \<and> match_segs path segs"

lemma path_matches_Cons:
  "path_matches barred (k # path) [] \<longleftrightarrow> \<not> barred \<and> k = ''#''"
  "seg \<noteq> ''#'' \<Longrightarrow> seg \<noteq> ''+'' \<Longrightarrow> path_matches barred (k # path) (seg # rest) \<longleftrightarrow>
     k = ''#'' \<and> \<not> barred \<or> k = ''+'' \<and> \<not> barred \<and> match_segs path rest \<or> k = seg \<and> match_segs path rest"
  by (auto simp: path_matches_def)

lemma path_matches_free: "path_matches False path segs = match_segs path segs"
  by (simp add: path_matches_def)

lemma filter_mset_False: "(\<And>x. x \<in># M \<Longrightarrow> \<not> P x) \<Longrightarrow> filter_mset P M = {#}"
  by (simp add: filter_mset_eq_mempty_iff)

lemma in_below: "x \<in># below items k c \<longleftrightarrow> (\<exists>y. y \<in># mset (trie_items items c) \<and> x = apfst ((#) k) y)"
  unfolding below_def by (metis (no_types, lifting) image_eqI imageE set_image_mset)

text \<open>Below the wildcard \<open>#\<close> there is nothing but its own subscribers.\<close>

lemma below_hash:
  fixes c :: "subscribers trie_node"
  assumes "\<forall>x \<in># below (\<lambda>s. s) ''#'' c. hash_last (fst x)"
  shows "image_mset snd (below (\<lambda>s. s) ''#'' c) = mset (stored c)"
proof -
  have "fst x = []" if "x \<in># contents c" for x
  proof -
    have "apfst ((#) ''#'') x \<in># below (\<lambda>s. s) ''#'' c" unfolding in_below using that by blast
    then have "hash_last (''#'' # fst x)" using assms by fastforce
    then show ?thesis by (rule hash_last_Cons)
  qed
  then have "{#x \<in># contents c. fst x \<noteq> []#} = {#}" by (intro filter_mset_False) simp
  then have "contents c = image_mset (Pair []) (mset (stored c))"
    unfolding subs.child_items by (subst mset_trie_items) simp
  then show ?thesis by (simp add: below_def multiset.map_comp comp_def)
qed

lemma filter_below_paths:
  "filter_mset (\<lambda>x. P (fst x)) (below items k c) =
     image_mset (apfst ((#) k)) {#x \<in># mset (trie_items items c). P (k # fst x)#}"
  unfolding filter_below by (rule arg_cong) (simp add: split_beta)

lemma filter_below_match:
  assumes "seg \<noteq> ''#''" and "seg \<noteq> ''+''"
  shows "filter_mset (\<lambda>x. path_matches barred (fst x) (seg # rest)) (below items k c) =
    (if k = ''#'' then if barred then {#} else below items ''#'' c else {#}) +
    ((if k = ''+'' then if barred then {#} else
        image_mset (apfst ((#) ''+'')) {#x \<in># mset (trie_items items c). match_segs (fst x) rest#} else {#}) +
     (if k = seg then image_mset (apfst ((#) seg)) {#x \<in># mset (trie_items items c). match_segs (fst x) rest#} else {#}))"
  unfolding filter_below_paths [of "\<lambda>p. path_matches barred p (seg # rest)"] path_matches_Cons(2) [OF assms]
  using assms by (simp add: below_def)

lemma sum_children_plus: "sum_children (\<lambda>k c. g k c + h k c) m = sum_children g m + sum_children h m"
  by (induction m) (auto simp: ac_simps)

lemma filter_below_end:
  "filter_mset (\<lambda>x. path_matches barred (fst x) []) (below items k c) =
    (if k = ''#'' then if barred then {#} else below items ''#'' c else {#})"
  unfolding filter_below_paths [of "\<lambda>p. path_matches barred p []"] path_matches_Cons(1) by (simp add: below_def)

lemma below_in_items:
  assumes "map_of (children node) k = Some c" and "x \<in># below items k c"
  shows "x \<in># mset (trie_items items node)"
proof -
  have "x \<in># sum_children (below items) m" if "(k, c) \<in> set m" for m
    using that assms(2) by (induction m) auto
  then show ?thesis unfolding mset_trie_items using map_of_SomeD [OF assms(1)] by simp
qed

lemma child_hash_last:
  assumes "map_of (children node) k = Some c" and "\<forall>x \<in># mset (trie_items items node). hash_last (fst x)"
  shows "\<forall>x \<in># mset (trie_items items c). hash_last (fst x)"
proof
  fix x assume "x \<in># mset (trie_items items c)"
  then have "apfst ((#) k) x \<in># below items k c" unfolding in_below by blast
  then have "hash_last (fst (apfst ((#) k) x))" using below_in_items [OF assms(1)] assms(2) by blast
  then show "hash_last (fst x)" using hash_last_tl by simp
qed

lemma hash_items:
  assumes "map_of (children node) ''#'' = Some c" and "\<forall>x \<in># contents node. hash_last (fst x)"
  shows "image_mset snd (below (\<lambda>s. s) ''#'' c) = mset (stored c)"
  by (rule below_hash) (use assms below_in_items in blast)

lemma match_end:
  assumes "trie_ok smap_sorted node" and "\<forall>x \<in># contents node. hash_last (fst x)"
  shows "image_mset snd {#x \<in># contents node. path_matches barred (fst x) []#} =
    (case map_of (children node) ''#'' of None \<Rightarrow> {#} | Some c \<Rightarrow> if barred then {#} else mset (stored c)) +
    mset (stored node)"
proof -
  have d: "distinct (map fst (children node))" using smap_sorted_distinct [OF trie_ok_sorted [OF assms(1)]] .
  show ?thesis
    unfolding mset_trie_items [of _ node] filter_union_mset filter_sum_children filter_below_end sum_children_one [OF d]
    using hash_items [OF _ assms(2)]
    by (auto simp: filter_mset_image_mset path_matches_def multiset.map_comp comp_def split: option.splits)
qed

lemma match_step:
  assumes "trie_ok smap_sorted node" and "\<forall>x \<in># contents node. hash_last (fst x)"
    and "seg \<noteq> ''#''" and "seg \<noteq> ''+''"
  shows "image_mset snd {#x \<in># contents node. path_matches barred (fst x) (seg # rest)#} =
    (case map_of (children node) ''#'' of None \<Rightarrow> {#} | Some c \<Rightarrow> if barred then {#} else mset (stored c)) +
    ((case map_of (children node) ''+'' of
        None \<Rightarrow> {#}
      | Some c \<Rightarrow> if barred then {#} else image_mset snd {#x \<in># contents c. match_segs (fst x) rest#}) +
     (case map_of (children node) seg of
        None \<Rightarrow> {#} | Some c \<Rightarrow> image_mset snd {#x \<in># contents c. match_segs (fst x) rest#}))"
proof -
  have d: "distinct (map fst (children node))" using smap_sorted_distinct [OF trie_ok_sorted [OF assms(1)]] .
  have own: "filter_mset (\<lambda>x. path_matches barred (fst x) (seg # rest)) (image_mset (Pair []) (mset (stored node))) = {#}"
    by (simp add: filter_mset_image_mset path_matches_def)
  show ?thesis
    unfolding mset_trie_items [of _ node] filter_union_mset own filter_sum_children filter_below_match [OF assms(3,4)]
      sum_children_plus sum_children_one [OF d]
    using hash_items [OF _ assms(2)]
    by (auto simp: multiset.map_comp comp_def split: option.splits)
qed

lemma match_recursive_exact:
  assumes "trie_ok smap_sorted node" and "\<forall>x \<in># contents node. hash_last (fst x)"
    and "''#'' \<notin> set segs" and "''+'' \<notin> set segs"
  shows "mset (match_recursive segs depth topic node) =
    image_mset snd {#x \<in># contents node.
      path_matches (depth = 0 \<and> topic \<noteq> [] \<and> hd topic = CHR ''$'') (fst x) segs#}"
  using assms
proof (induction segs arbitrary: depth node)
  case Nil
  then show ?case unfolding match_end [OF Nil.prems(1,2)] match_recursive.simps [of "[]"]
    by (simp add: Let_def split: option.splits)
next
  case (Cons seg segs)
  have IH: "mset (match_recursive segs (depth + 1) topic c) = image_mset snd {#x \<in># contents c. match_segs (fst x) segs#}"
    if "map_of (children node) k = Some c" for k c
    using Cons.IH [OF trie_ok_child [OF Cons.prems(1) that] child_hash_last [OF that Cons.prems(2)], of "depth + 1"]
      Cons.prems(3,4) by (simp add: path_matches_free)
  have seg: "seg \<noteq> ''#''" "seg \<noteq> ''+''" using Cons.prems(3,4) by auto
  define barred where "barred \<longleftrightarrow> depth = 0 \<and> topic \<noteq> [] \<and> hd topic = CHR ''$''"
  show ?case
    unfolding match_step [OF Cons.prems(1,2) seg] match_recursive.simps [of "seg # segs"] barred_def [symmetric] Let_def
    by (cases "map_of (children node) ''#''"; cases "map_of (children node) ''+''"; cases "map_of (children node) seg")
      (simp_all add: IH [of "''+''", simplified] IH [of seg, simplified])
qed


subsection \<open>Updates\<close>

text \<open>The subscription of a client at a path.\<close>

abbreviation of_client :: "string list \<Rightarrow> string \<Rightarrow> string list \<times> subscription_entry_ref \<Rightarrow> bool" where
  "of_client path client_id x \<equiv> fst x = path \<and> fst (snd x) = client_id"

lemma split_contents:
  "trie_ok smap_sorted node \<Longrightarrow>
     {#x \<in># contents node. fst x \<noteq> path#} +
       image_mset (Pair path) {#y \<in># mset (stored_at [] path node). fst y \<noteq> client_id#} =
     {#x \<in># contents node. \<not> of_client path client_id x#}"
proof -
  assume ok: "trie_ok smap_sorted node"
  have "image_mset (Pair path) {#y \<in># mset (stored_at [] path node). fst y \<noteq> client_id#} =
      {#x \<in># image_mset (Pair path) (mset (stored_at [] path node)). fst (snd x) \<noteq> client_id#}"
    by (simp add: filter_mset_image_mset)
  also have "\<dots> = {#x \<in># contents node. fst x = path \<and> fst (snd x) \<noteq> client_id#}"
    unfolding subs.contents_at [OF ok, symmetric] by (simp add: filter_filter_mset conj_commute)
  finally show ?thesis
    using multiset_partition [of "{#x \<in># contents node. \<not> of_client path client_id x#}" "\<lambda>x. fst x \<noteq> path"]
    by (auto simp: filter_filter_mset intro!: arg_cong2 [of _ _ _ _ plus] filter_mset_cong)
qed

lemma insert_contents:
  assumes "trie_ok smap_sorted node"
  shows "contents (trie_update [] (smap_insert client_id entry) path node) =
    add_mset (path, client_id, entry) {#x \<in># contents node. \<not> of_client path client_id x#}"
  using subs.update_contents [OF assms, of "smap_insert client_id entry" path]
    mset_smap_insert [OF subs.stored_at_good [OF assms]] split_contents [OF assms, of path client_id] by simp

lemma erase_contents:
  assumes "trie_ok smap_sorted node" and "trie_walk path node = Some n"
  shows "contents (trie_remove (\<lambda>s. s = []) (smap_erase client_id) path node) =
    {#x \<in># contents node. \<not> of_client path client_id x#}"
  using subs.remove_contents [OF assms, of "smap_erase client_id"] split_contents [OF assms(1), of path client_id] assms(2)
  by (simp add: mset_smap_erase stored_at_def)

lemma client_at:
  assumes "trie_ok smap_sorted node"
  shows "map_of (stored_at [] path node) client_id = None \<longleftrightarrow> (\<forall>x \<in># contents node. \<not> of_client path client_id x)"
proof -
  have "map_of (stored_at [] path node) client_id = None \<longleftrightarrow>
      (\<forall>x \<in># image_mset (Pair path) (mset (stored_at [] path node)). fst (snd x) \<noteq> client_id)"
    by (auto simp: map_of_eq_None_iff)
  then show ?thesis unfolding subs.contents_at [OF assms, symmetric] by fastforce
qed

lemma erase_client_simps:
  "fst (erase_client_recursive cid (Trie_node cs s)) =
     (if map_of s cid = None then 0 else 1) + (\<Sum>(k, c) \<leftarrow> cs. fst (erase_client_recursive cid c))"
  "snd (erase_client_recursive cid (Trie_node cs s)) =
     Trie_node (filter (\<lambda>(k, c). \<not> node_vacant (\<lambda>s. s = []) c) (map (\<lambda>(k, c). (k, snd (erase_client_recursive cid c))) cs))
       (smap_erase cid s)"
  by (simp_all add: Let_def comp_def split_def)

declare erase_client_recursive.simps [simp del]

lemma sum_children_survivors:
  "sum_children (below (\<lambda>s. s)) (filter (\<lambda>(k, c). \<not> node_vacant (\<lambda>s. s = []) c) (map (\<lambda>(k, c). (k, h c)) cs)) =
     sum_children (\<lambda>k c. below (\<lambda>s. s) k (h c)) cs"
  for h :: "subscribers trie_node \<Rightarrow> subscribers trie_node"
proof (induction cs)
  case (Cons x cs)
  have "node_vacant (\<lambda>s. s = []) (h c) \<Longrightarrow> below (\<lambda>s. s) k (h c) = {#}" for k c
    using subs.vacant_contents [of "h c"] by (simp add: below_def)
  then show ?case using Cons by (auto split: prod.splits)
qed simp

lemma erase_client_contents:
  "contents (snd (erase_client_recursive cid node)) = {#x \<in># contents node. fst (snd x) \<noteq> cid#}"
proof (induction cid node rule: erase_client_recursive.induct)
  case (1 cid cs s)
  have kid: "below (\<lambda>s. s) k (snd (erase_client_recursive cid c)) =
      filter_mset (\<lambda>x. fst (snd x) \<noteq> cid) (below (\<lambda>s. s) k c)" if "(k, c) \<in> set cs" for k c
    using 1 [OF that] unfolding filter_below by (simp add: below_def)
  have "contents (snd (erase_client_recursive cid (Trie_node cs s))) =
      image_mset (Pair []) {#x \<in># mset s. fst x \<noteq> cid#} +
      sum_children (\<lambda>k c. below (\<lambda>s. s) k (snd (erase_client_recursive cid c))) cs"
    unfolding erase_client_simps mset_trie_items trie_node.sel sum_children_survivors mset_smap_erase ..
  also have "\<dots> = image_mset (Pair []) {#x \<in># mset s. fst x \<noteq> cid#} +
      filter_mset (\<lambda>x. fst (snd x) \<noteq> cid) (sum_children (below (\<lambda>s. s)) cs)"
    unfolding filter_sum_children by (rule arg_cong, rule sum_children_cong) (rule kid)
  finally show ?case
    unfolding mset_trie_items [of _ "Trie_node cs s"] by (simp add: filter_mset_image_mset)
qed

lemma erase_client_ok: "trie_ok smap_sorted node \<Longrightarrow> trie_ok smap_sorted (snd (erase_client_recursive cid node))"
proof (induction cid node rule: erase_client_recursive.induct)
  case (1 cid cs s)
  have p: "smap_sorted s" "smap_sorted cs" "\<forall>c \<in> snd ` set cs. trie_ok smap_sorted c"
    using 1(2) by (simp_all add: trie_ok.simps)
  have "sorted_wrt (<) (map fst (map (\<lambda>(k, c). (k, snd (erase_client_recursive cid c))) cs))"
    using p(2) by (simp add: smap_sorted_def comp_def split_def)
  then have "smap_sorted (filter P (map (\<lambda>(k, c). (k, snd (erase_client_recursive cid c))) cs))" for P
    unfolding smap_sorted_def by (simp add: sorted_wrt_map sorted_wrt_filter)
  moreover have "trie_ok smap_sorted (snd (erase_client_recursive cid c))" if "(k, c) \<in> set cs" for k c
    using 1(1) [OF that] p(3) that by force
  ultimately show ?case unfolding erase_client_simps trie_ok.simps using smap_erase_sorted [OF p(1)] by auto
qed

lemma size_sum_children: "size (sum_children g m) = (\<Sum>(k, c) \<leftarrow> m. size (g k c))"
  by (induction m) auto

lemma size_client: "distinct (map fst s) \<Longrightarrow> size {#x \<in># mset s. fst x = cid#} = (if map_of s cid = None then 0 else 1)"
proof (induction s)
  case (Cons x s)
  have none: "{#y \<in># mset s. fst y = cid#} = {#}" if "cid \<notin> fst ` set s"
    using that by (intro filter_mset_False) (auto simp: image_iff)
  show ?case
  proof (cases "fst x = cid")
    case True
    then show ?thesis using Cons.prems none by (cases x) auto
  next
    case False
    then show ?thesis using Cons by (cases x) simp
  qed
qed simp

lemma erase_client_count:
  "trie_ok smap_sorted node \<Longrightarrow> fst (erase_client_recursive cid node) = size {#x \<in># contents node. fst (snd x) = cid#}"
proof (induction cid node rule: erase_client_recursive.induct)
  case (1 cid cs s)
  have p: "smap_sorted s" "\<forall>c \<in> snd ` set cs. trie_ok smap_sorted c"
    using 1(2) by (simp_all add: trie_ok.simps)
  have "fst (erase_client_recursive cid c) = size (filter_mset (\<lambda>x. fst (snd x) = cid) (below (\<lambda>s. s) k c))"
    if "(k, c) \<in> set cs" for k c
    using 1(1) [OF that] p(2) that unfolding filter_below by force
  then have "(\<Sum>(k, c) \<leftarrow> cs. fst (erase_client_recursive cid c)) =
      (\<Sum>(k, c) \<leftarrow> cs. size (filter_mset (\<lambda>x. fst (snd x) = cid) (below (\<lambda>s. s) k c)))"
    by (intro arg_cong [of _ _ sum_list] map_cong) auto
  then show ?case
    using size_client [OF smap_sorted_distinct [OF p(1)], of cid]
    unfolding mset_trie_items [of _ "Trie_node cs s"] erase_client_simps
    by (simp add: filter_sum_children size_sum_children filter_mset_image_mset)
qed


subsection \<open>The subscriptions as a list\<close>

text \<open>
  The specification keeps the subscriptions, by filter and client, in a list; a topic is matched against every
  filter.
\<close>

datatype subscription_op =
  Subscribe string string subscribe_entry | Unsubscribe string string | Drop_client string | Drop_all

type_synonym subscriptions = "((string \<times> string) \<times> subscribe_entry) list"

fun sm_step :: "subscription_op \<Rightarrow> subscription_map \<Rightarrow> subscription_map" where
  "sm_step (Subscribe f c e) m = sm_insert f c e m"
| "sm_step (Unsubscribe f c) m = snd (sm_erase f c m)"
| "sm_step (Drop_client c) m = sm_erase_client c m"
| "sm_step Drop_all m = sm_clear m"

fun spec_step :: "subscription_op \<Rightarrow> subscriptions \<Rightarrow> subscriptions" where
  "spec_step (Subscribe f c e) S = ((f, c), e) # filter (\<lambda>x. fst x \<noteq> (f, c)) S"
| "spec_step (Unsubscribe f c) S = filter (\<lambda>x. fst x \<noteq> (f, c)) S"
| "spec_step (Drop_client c) S = filter (\<lambda>x. snd (fst x) \<noteq> c) S"
| "spec_step Drop_all S = []"

definition spec_match :: "string \<Rightarrow> subscriptions \<Rightarrow> subscription_entry_ref list" where
  "spec_match topic S = map (\<lambda>((f, c), e). (c, e)) (filter (\<lambda>((f, c), e). topic_matches f topic) S)"

fun filter_validated :: "subscription_op \<Rightarrow> bool" where
  "filter_validated (Subscribe f c e) = validate_topic_filter f"
| "filter_validated _ = True"

abbreviation in_trie :: "(string \<times> string) \<times> subscribe_entry \<Rightarrow> string list \<times> subscription_entry_ref" where
  "in_trie x \<equiv> (sm_split (fst (fst x)), snd (fst x), snd x)"

definition represents :: "subscription_map \<Rightarrow> subscriptions \<Rightarrow> bool" where
  "represents m S \<longleftrightarrow>
     trie_ok smap_sorted (sm_root m) \<and> contents (sm_root m) = image_mset in_trie (mset S) \<and>
     distinct (map fst S) \<and> (\<forall>x \<in> set S. validate_topic_filter (fst (fst x))) \<and> sm_total_subscriptions m = length S"

lemma sm_split_topic: "sm_split = split_topic"
  by (simp add: fun_eq_iff sm_split_def split_topic_def)

lemma in_trie_of_client: "of_client (sm_split f) c (in_trie x) \<longleftrightarrow> fst x = (f, c)"
  using split_topic_inject by (auto simp: sm_split_topic prod_eq_iff)

lemma filter_in_trie:
  "{#x \<in># image_mset in_trie M. \<not> of_client (sm_split f) c x#} = image_mset in_trie {#x \<in># M. fst x \<noteq> (f, c)#}"
proof -
  have "{#x \<in># M. \<not> of_client (sm_split f) c (in_trie x)#} = {#x \<in># M. fst x \<noteq> (f, c)#}"
    unfolding in_trie_of_client ..
  then show ?thesis unfolding filter_mset_image_mset by (rule arg_cong)
qed

lemma length_without:
  "distinct (map fst S) \<Longrightarrow>
     length (filter (\<lambda>x. fst x \<noteq> k) S) = (if k \<in> fst ` set S then length S - 1 else length S)"
proof (induction S)
  case (Cons x S)
  have "filter (\<lambda>x. fst x \<noteq> fst x') S = S" if "fst x' \<notin> fst ` set S" for x'
    using that by (intro filter_True) (metis image_eqI)
  moreover have "k \<in> fst ` set S \<Longrightarrow> length S > 0" by auto
  ultimately show ?case using Cons by auto
qed simp

lemma client_known:
  assumes "trie_ok smap_sorted node" and "contents node = image_mset in_trie (mset S)"
  shows "map_of (stored_at [] (sm_split f) node) c = None \<longleftrightarrow> (f, c) \<notin> fst ` set S"
proof -
  have "(\<forall>x \<in># image_mset in_trie (mset S). \<not> of_client (sm_split f) c x) \<longleftrightarrow>
      (\<forall>y \<in> set S. \<not> of_client (sm_split f) c (in_trie y))" by simp
  also have "\<dots> \<longleftrightarrow> (f, c) \<notin> fst ` set S"
    unfolding in_trie_of_client image_iff eq_commute [of "(f, c)"] by blast
  finally show ?thesis unfolding client_at [OF assms(1)] assms(2) .
qed

lemma represents_insert:
  assumes r: "represents m S" and v: "validate_topic_filter f"
  shows "represents (sm_insert f c e m) (spec_step (Subscribe f c e) S)"
proof -
  have ok: "trie_ok smap_sorted (sm_root m)" and ct: "contents (sm_root m) = image_mset in_trie (mset S)"
    and d: "distinct (map fst S)" and t: "sm_total_subscriptions m = length S"
    and vs: "\<forall>x \<in> set S. validate_topic_filter (fst (fst x))" using r by (simp_all add: represents_def)
  have "contents (sm_root (sm_insert f c e m)) = image_mset in_trie (mset (spec_step (Subscribe f c e) S))"
    using insert_contents [OF ok, of c e "sm_split f", unfolded ct filter_in_trie]
    by (simp add: sm_insert_def Let_def)
  moreover have "distinct (map fst (spec_step (Subscribe f c e) S))" using d by (auto simp: distinct_map_filter)
  moreover have "trie_ok smap_sorted (sm_root (sm_insert f c e m))"
    unfolding sm_insert_def Let_def subscription_map.simps by (rule subs.update_ok [OF ok smap_insert_sorted])
  moreover have "sm_total_subscriptions (sm_insert f c e m) = length (spec_step (Subscribe f c e) S)"
  proof (cases "(f, c) \<in> fst ` set S")
    case True
    then have "length S > 0" by auto
    then show ?thesis using True t length_without [OF d, of "(f, c)"] client_known [OF ok ct, of f c]
      by (simp add: sm_insert_def Let_def)
  next
    case False
    then show ?thesis using t length_without [OF d, of "(f, c)"] client_known [OF ok ct, of f c]
      by (simp add: sm_insert_def Let_def)
  qed
  moreover have "\<forall>x \<in> set (spec_step (Subscribe f c e) S). validate_topic_filter (fst (fst x))" using v vs by simp
  ultimately show ?thesis unfolding represents_def by blast
qed

lemma represents_erase:
  assumes r: "represents m S"
  shows "represents (snd (sm_erase f c m)) (spec_step (Unsubscribe f c) S)"
    and "fst (sm_erase f c m) \<longleftrightarrow> (f, c) \<in> fst ` set S"
proof -
  have ok: "trie_ok smap_sorted (sm_root m)" and ct: "contents (sm_root m) = image_mset in_trie (mset S)"
    and d: "distinct (map fst S)" and t: "sm_total_subscriptions m = length S"
    and vs: "\<forall>x \<in> set S. validate_topic_filter (fst (fst x))" using r by (simp_all add: represents_def)
  show e: "fst (sm_erase f c m) \<longleftrightarrow> (f, c) \<in> fst ` set S"
    using client_known [OF ok ct, of f c] by (auto simp: sm_erase_def stored_at_def split: option.splits)
  show "represents (snd (sm_erase f c m)) (spec_step (Unsubscribe f c) S)"
  proof (cases "fst (sm_erase f c m)")
    case False
    then have "snd (sm_erase f c m) = m" by (auto simp: sm_erase_def split: option.splits)
    moreover have "filter (\<lambda>x. fst x \<noteq> (f, c)) S = S" using False e by (intro filter_True) (metis image_eqI)
    ultimately show ?thesis using r by simp
  next
    case True
    then obtain n where n: "trie_walk (sm_split f) (sm_root m) = Some n"
      "snd (sm_erase f c m) = \<lparr>sm_root = trie_remove (\<lambda>s. s = []) (smap_erase c) (sm_split f) (sm_root m),
         sm_total_subscriptions = sm_total_subscriptions m - 1\<rparr>"
      by (auto simp: sm_erase_def split: option.splits if_splits)
    have "contents (sm_root (snd (sm_erase f c m))) = image_mset in_trie (mset (spec_step (Unsubscribe f c) S))"
      using erase_contents [OF ok n(1), of c, unfolded ct filter_in_trie] n(2) by simp
    moreover have "trie_ok smap_sorted (sm_root (snd (sm_erase f c m)))"
      unfolding n(2) subscription_map.simps by (rule subs.remove_ok [OF ok smap_erase_sorted])
    moreover have "sm_total_subscriptions (snd (sm_erase f c m)) = length (spec_step (Unsubscribe f c) S)"
      using t length_without [OF d, of "(f, c)"] True e n(2) by simp
    moreover have "distinct (map fst (spec_step (Unsubscribe f c) S))" using d by (simp add: distinct_map_filter)
    moreover have "\<forall>x \<in> set (spec_step (Unsubscribe f c) S). validate_topic_filter (fst (fst x))" using vs by simp
    ultimately show ?thesis unfolding represents_def by blast
  qed
qed

lemma represents_erase_client:
  assumes r: "represents m S"
  shows "represents (sm_erase_client c m) (spec_step (Drop_client c) S)"
proof -
  have ok: "trie_ok smap_sorted (sm_root m)" and ct: "contents (sm_root m) = image_mset in_trie (mset S)"
    and d: "distinct (map fst S)" and t: "sm_total_subscriptions m = length S"
    and vs: "\<forall>x \<in> set S. validate_topic_filter (fst (fst x))" using r by (simp_all add: represents_def)
  have "fst (erase_client_recursive c (sm_root m)) = length (filter (\<lambda>x. snd (fst x) = c) S)"
    unfolding erase_client_count [OF ok] ct by (simp add: filter_mset_image_mset size_mset [symmetric] del: size_mset)
  moreover have "length S = length (filter (\<lambda>x. snd (fst x) = c) S) + length (filter (\<lambda>x. snd (fst x) \<noteq> c) S)"
    by (induction S) auto
  ultimately show ?thesis
    using erase_client_contents [of c "sm_root m"] erase_client_ok [OF ok, of c] d t vs ct
    by (auto simp: represents_def sm_erase_client_def case_prod_beta filter_mset_image_mset distinct_map_filter)
qed

lemma represents_run:
  "list_all filter_validated ops \<Longrightarrow> represents (fold sm_step ops empty_subscription_map) (fold spec_step ops [])"
proof (induction ops rule: rev_induct)
  case Nil
  then show ?case by (simp add: represents_def empty_subscription_map_def trie_ok_leaf smap_sorted_def mset_trie_items)
next
  case (snoc x ops)
  then have r: "represents (fold sm_step ops empty_subscription_map) (fold spec_step ops [])" by simp
  show ?case
  proof (cases x)
    case Drop_all
    then show ?thesis by (simp add: represents_def sm_clear_def trie_ok_leaf smap_sorted_def mset_trie_items)
  qed (use snoc.prems r represents_insert represents_erase(1) represents_erase_client in simp_all)
qed

lemma represents_match:
  assumes r: "represents m S" and topic: "validate_topic_name topic"
  shows "mset (sm_match topic m) = mset (spec_match topic S)"
proof -
  have ok: "trie_ok smap_sorted (sm_root m)" and ct: "contents (sm_root m) = image_mset in_trie (mset S)"
    and vs: "\<forall>x \<in> set S. validate_topic_filter (fst (fst x))" using r by (simp_all add: represents_def)
  have hl: "\<forall>x \<in># contents (sm_root m). hash_last (fst x)"
    unfolding ct using vs validated_hash_last by (auto simp: sm_split_topic)
  have "''#'' \<notin> set (sm_split topic)" "''+'' \<notin> set (sm_split topic)"
    using validated_name [OF topic] by (auto simp: sm_split_topic)
  note ex = match_recursive_exact [OF ok hl this, of 0 topic]
  have "path_matches (topic \<noteq> [] \<and> hd topic = CHR ''$'') (sm_split f) (sm_split topic) \<longleftrightarrow> topic_matches f topic"
    if "validate_topic_filter f" for f
    using topic_matches_segs [OF that, of topic]
    by (auto simp: path_matches_def sm_split_topic dollar_split hd_conv_nth)
  then have "{#x \<in># mset S. path_matches (topic \<noteq> [] \<and> hd topic = CHR ''$'') (sm_split (fst (fst x))) (sm_split topic)#} =
      {#x \<in># mset S. topic_matches (fst (fst x)) topic#}"
    using vs by (intro filter_mset_cong) auto
  then show ?thesis unfolding sm_match_def ex ct spec_match_def
    by (simp add: filter_mset_image_mset multiset.map_comp comp_def split_def)
qed


text \<open>
  C30: After every sequence of \<open>insert\<close>, \<open>erase\<close>, \<open>erase_client\<close> and \<open>clear\<close> with validated filters, \<open>match\<close> of a
  validated topic name gives exactly the subscriptions whose filter matches the name by \<open>topic_matches\<close>, each
  once and with its last options; \<open>size\<close> is the number of subscriptions, and \<open>erase\<close> tells whether there was one.
\<close>

theorem subscription_map_matches:
  assumes "list_all filter_validated ops" and "validate_topic_name topic"
  defines "m \<equiv> fold sm_step ops empty_subscription_map" and "S \<equiv> fold spec_step ops []"
  shows "mset (sm_match topic m) = mset (spec_match topic S) \<and> sm_size m = length S \<and>
    (fst (sm_erase f c m) \<longleftrightarrow> (f, c) \<in> fst ` set S)"
proof -
  have r: "represents m S" unfolding m_def S_def using assms(1) by (rule represents_run)
  then show ?thesis
    using represents_match [OF r assms(2)] represents_erase(2) [OF r] by (simp add: represents_def sm_size_def)
qed

theorem subscription_map_matches_witness:
  "\<exists>e1 e2. let ops = [Subscribe ''a/+'' ''x'' e1, Subscribe ''#'' ''y'' e2, Subscribe ''a/c'' ''y'' e1, Drop_client ''z''];
       m = fold sm_step ops empty_subscription_map
     in mset (sm_match ''a/b'' m) = {#(''x'', e1), (''y'', e2)#} \<and> sm_size m = 3 \<and> fst (sm_erase ''#'' ''y'' m)"
proof -
  define e1 :: subscribe_entry where "e1 = \<lparr>topic_filter = ''a/+'', max_qos = at_least_once, no_local = False,
      retain_as_published = False, rh = send, subscription_id = 0\<rparr>"
  define e2 :: subscribe_entry where "e2 = \<lparr>topic_filter = ''#'', max_qos = at_most_once, no_local = True,
      retain_as_published = False, rh = not_send, subscription_id = 7\<rparr>"
  let ?ops = "[Subscribe ''a/+'' ''x'' e1, Subscribe ''#'' ''y'' e2, Subscribe ''a/c'' ''y'' e1, Drop_client ''z'']"
  have v: "list_all filter_validated ?ops"
    by (simp add: validate_topic_filter_def filter_char_ok_def upt_rec)
  have t: "validate_topic_name ''a/b''" by (simp add: validate_topic_name_def)
  have "mset (spec_match ''a/b'' (fold spec_step ?ops [])) = {#(''x'', e1), (''y'', e2)#}"
    by (simp add: spec_match_def topic_matches_def split_topic_levels ends_with_slash_def)
  then show ?thesis using subscription_map_matches [OF v t, of "''#''" "''y''"]
    by (intro exI [of _ e1] exI [of _ e2]) (simp add: Let_def)
qed


text \<open>
  C39: A topic or filter that ends in \<open>/\<close> is split into one empty level too many. So the filter \<open>a/+\<close> does not match
  the topic \<open>a/\<close>, which has two levels, while \<open>a/+/+\<close>, a filter of three levels, does; the subscription map
  delivers accordingly.
\<close>

theorem trailing_slash_extra_level:
  "split_topic (t @ ''/'') = levels t @ [[], []] \<and> levels (t @ ''/'') = levels t @ [[]] \<and>
   \<not> topic_matches ''a/+'' ''a/'' \<and> topic_matches ''a/+/+'' ''a/'' \<and>
   sm_match ''a/'' (sm_insert ''a/+'' c e empty_subscription_map) = [] \<and>
   sm_match ''a/'' (sm_insert ''a/+/+'' c e empty_subscription_map) = [(c, e)]"
proof -
  have l: "levels (t @ ''/'') = levels t @ [[]]"
  proof (induction t)
    case (Cons a t)
    then show ?case by (cases "levels t") auto
  qed simp
  then have "split_topic (t @ ''/'') = levels t @ [[], []]" by (simp add: split_topic_levels ends_with_slash_def)
  moreover have "\<not> topic_matches ''a/+'' ''a/''" "topic_matches ''a/+/+'' ''a/''"
    by (simp_all add: topic_matches_def split_topic_levels ends_with_slash_def)
  moreover have "sm_match ''a/'' (sm_insert ''a/+'' c e empty_subscription_map) = []"
    "sm_match ''a/'' (sm_insert ''a/+/+'' c e empty_subscription_map) = [(c, e)]"
    by (simp_all add: sm_match_def sm_insert_def empty_subscription_map_def sm_split_topic split_topic_levels
        ends_with_slash_def match_recursive.simps)
  ultimately show ?thesis using l by blast
qed

end
