(* ===== verification/Mqtt_Retained.thy ===== *)
theory Mqtt_Retained
  imports Mqtt_Subscriptions
begin

text \<open>
  The retained messages of the MQTT broker, \<open>retained_store\<close> of \<open>src/src/protocol/mqtt/mqtt_retained.cpp\<close>: each
  message is kept twice, in a map by topic and in a trie that is searched with a filter. The two stay in step,
  and the search finds what matching the filter against every topic of the map finds, but for the filter \<open>#\<close>. The
  properties of a message (\<open>props\<close>) are only copied; their type is a parameter.
\<close>

record 'p retained_message =
  rm_topic :: string
  rm_payload :: string
  rm_qos_value :: qos
  rm_props :: 'p

record 'p retained_store =
  rs_messages :: "(string, 'p retained_message) smap"
  rs_root :: "'p retained_message option trie_node"

definition empty_retained_store :: "'p retained_store" where
  "empty_retained_store = \<lparr>rs_messages = [], rs_root = Trie_node [] None\<rparr>"

definition rs_split :: "string \<Rightarrow> string list" where
  "rs_split s = split_loop s 0"

definition rs_trie_insert :: "string \<Rightarrow> 'p retained_message \<Rightarrow> 'p retained_message option trie_node \<Rightarrow>
    'p retained_message option trie_node" where
  "rs_trie_insert topic message root = trie_update None (\<lambda>_. Some message) (rs_split topic) root"

definition rs_trie_erase :: "string \<Rightarrow> 'p retained_message option trie_node \<Rightarrow>
    'p retained_message option trie_node" where
  "rs_trie_erase topic root =
     (case trie_walk (rs_split topic) root of
        None \<Rightarrow> root
      | Some _ \<Rightarrow> trie_remove (\<lambda>message. message = None) (\<lambda>_. None) (rs_split topic) root)"

definition rs_remove :: "string \<Rightarrow> 'p retained_store \<Rightarrow> bool \<times> 'p retained_store" where
  "rs_remove topic s =
     (if map_of (rs_messages s) topic = None then (False, s)
      else (True, s\<lparr>rs_messages := smap_erase topic (rs_messages s), rs_root := rs_trie_erase topic (rs_root s)\<rparr>))"

definition rs_store :: "string \<Rightarrow> 'p retained_message \<Rightarrow> 'p retained_store \<Rightarrow> 'p retained_store" where
  "rs_store topic message s =
     (if rm_payload message = [] then snd (rs_remove topic s)
      else s\<lparr>rs_messages := smap_insert topic message (rs_messages s),
             rs_root := rs_trie_insert topic message (rs_root s)\<rparr>)"

definition opt_list :: "'a option \<Rightarrow> 'a list" where
  "opt_list x = (case x of None \<Rightarrow> [] | Some y \<Rightarrow> [y])"

fun collect_all :: "'p retained_message option trie_node \<Rightarrow> 'p retained_message list" where
  "collect_all (Trie_node cs message) = opt_list message @ concat (map (\<lambda>(k, c). collect_all c) cs)"

fun rs_trie_match :: "string list \<Rightarrow> nat \<Rightarrow> 'p retained_message option trie_node \<Rightarrow> 'p retained_message list" where
  "rs_trie_match [] depth node = opt_list (stored node)"
| "rs_trie_match (segment # segments) depth node =
     (if segment = ''#'' then collect_all node
      else if segment = ''+'' then
        concat (map (\<lambda>(child_segment, child).
            if depth = 0 \<and> child_segment \<noteq> [] \<and> hd child_segment = CHR ''$'' then []
            else rs_trie_match segments (depth + 1) child) (children node))
      else
        case map_of (children node) segment of
          None \<Rightarrow> []
        | Some child \<Rightarrow> rs_trie_match segments (depth + 1) child)"

definition rs_match :: "string \<Rightarrow> 'p retained_store \<Rightarrow> 'p retained_message list" where
  "rs_match f s = rs_trie_match (rs_split f) 0 (rs_root s)"

definition rs_find :: "string \<Rightarrow> 'p retained_store \<Rightarrow> 'p retained_message option" where
  "rs_find topic s = map_of (rs_messages s) topic"

definition rs_size :: "'p retained_store \<Rightarrow> nat" where
  "rs_size s = length (rs_messages s)"

definition rs_clear :: "'p retained_store \<Rightarrow> 'p retained_store" where
  "rs_clear s = \<lparr>rs_messages = [], rs_root = Trie_node [] None\<rparr>"

interpretation ret: trie_content opt_list None "\<lambda>message. message = None" "\<lambda>_. True"
  by unfold_locales (simp_all add: opt_list_def split: option.splits)

abbreviation messages_in :: "'p retained_message option trie_node \<Rightarrow> (string list \<times> 'p retained_message) multiset" where
  "messages_in node \<equiv> mset (trie_items opt_list node)"


subsection \<open>Searching the trie\<close>

lemma image_snd_below: "image_mset snd (below items k c) = image_mset snd (mset (trie_items items c))"
  by (simp add: below_def multiset.map_comp comp_def)

lemma image_sum_children: "image_mset h (sum_children g m) = sum_children (\<lambda>k c. image_mset h (g k c)) m"
  by (induction m) auto

lemma collect_all_items: "mset (collect_all node) = image_mset snd (messages_in node)"
proof (induction node rule: collect_all.induct)
  case (1 cs message)
  have "mset (concat (map (\<lambda>(k, c). collect_all c) cs)) = sum_children (\<lambda>k c. mset (collect_all c)) cs"
    by (induction cs) auto
  also have "\<dots> = sum_children (\<lambda>k c. image_mset snd (below opt_list k c)) cs"
    by (rule sum_children_cong) (simp add: 1 image_snd_below)
  finally show ?case
    unfolding mset_trie_items by (simp add: image_sum_children multiset.map_comp comp_def)
qed

text \<open>The topics a filter finds: \<open>+\<close> is barred from topics below \<open>$\<close>.\<close>

definition found_by :: "bool \<Rightarrow> string list \<Rightarrow> string list \<Rightarrow> bool" where
  "found_by first segs path \<longleftrightarrow>
     \<not> (first \<and> segs \<noteq> [] \<and> hd segs = ''+'' \<and> path \<noteq> [] \<and> hd path \<noteq> [] \<and> hd (hd path) = CHR ''$'') \<and> match_segs segs path"

lemma found_by_Nil [simp]: "found_by first [] path \<longleftrightarrow> path = []"
  by (simp add: found_by_def)

lemma found_by_hash [simp]: "found_by first (''#'' # segs) path"
  by (simp add: found_by_def)

lemma found_by_plus:
  "\<not> found_by first (''+'' # segs) []"
  "found_by first (''+'' # segs) (k # path) \<longleftrightarrow> \<not> (first \<and> k \<noteq> [] \<and> hd k = CHR ''$'') \<and> match_segs segs path"
  by (auto simp: found_by_def)

lemma found_by_exact:
  assumes "seg \<noteq> ''#''" and "seg \<noteq> ''+''"
  shows "\<not> found_by first (seg # segs) []" "found_by first (seg # segs) (k # path) \<longleftrightarrow> k = seg \<and> match_segs segs path"
  using assms by (auto simp: found_by_def)

lemma found_by_below: "found_by False segs path = match_segs segs path"
  by (simp add: found_by_def)

lemma filter_own_none:
  "\<not> P [] \<Longrightarrow> filter_mset (\<lambda>x. P (fst x)) (mset (trie_items items node)) =
     sum_children (\<lambda>k c. image_mset (apfst ((#) k)) {#x \<in># mset (trie_items items c). P (k # fst x)#}) (children node)"
  unfolding mset_trie_items [of items node] filter_union_mset filter_sum_children filter_below_paths
  by (simp add: filter_mset_image_mset)

lemma rs_trie_match_exact:
  "trie_ok (\<lambda>_. True) node \<Longrightarrow>
     mset (rs_trie_match segs depth node) = image_mset snd {#x \<in># messages_in node. found_by (depth = 0) segs (fst x)#}"
proof (induction segs arbitrary: depth node)
  case Nil
  have "{#x \<in># messages_in node. fst x = []#} = image_mset (Pair []) (mset (opt_list (stored node)))"
    using ret.contents_at [OF Nil, of "[]"] by (simp add: stored_at_def)
  then show ?case by (simp add: multiset.map_comp comp_def)
next
  case (Cons seg segs)
  let ?m = "children node"
  have IH: "mset (rs_trie_match segs (depth + 1) c) = image_mset snd {#x \<in># messages_in c. match_segs segs (fst x)#}"
    if "map_of ?m k = Some c" for k c
    using Cons.IH [OF trie_ok_child [OF Cons.prems that], of "depth + 1"] by (simp add: found_by_below)
  have d: "distinct (map fst ?m)" using smap_sorted_distinct [OF trie_ok_sorted [OF Cons.prems]] .
  consider (hash) "seg = ''#''" | (plus) "seg = ''+''" | (exact) "seg \<noteq> ''#''" "seg \<noteq> ''+''" by blast
  then show ?case
  proof cases
    case hash
    then show ?thesis by (simp add: collect_all_items)
  next
    case plus
    have "mset (rs_trie_match (''+'' # segs) depth node) = sum_children (\<lambda>k c.
        mset (if depth = 0 \<and> k \<noteq> [] \<and> hd k = CHR ''$'' then [] else rs_trie_match segs (depth + 1) c)) ?m"
      by (simp add: mset_concat_map split_def)
    also have "\<dots> = sum_children (\<lambda>k c. image_mset snd (image_mset (apfst ((#) k))
        {#x \<in># messages_in c. found_by (depth = 0) (''+'' # segs) (k # fst x)#})) ?m"
      by (rule sum_children_cong)
        (simp add: found_by_plus IH [OF map_of_is_SomeI [OF d]] multiset.map_comp comp_def del: One_nat_def)
    finally show ?thesis
      using filter_own_none [of "found_by (depth = 0) (''+'' # segs)" opt_list node] found_by_plus(1) plus
      by (simp add: image_sum_children)
  next
    case exact
    have "{#x \<in># messages_in node. found_by (depth = 0) (seg # segs) (fst x)#} =
        sum_children (\<lambda>k c. if k = seg then image_mset (apfst ((#) seg)) {#x \<in># messages_in c. match_segs segs (fst x)#} else {#}) ?m"
      unfolding filter_own_none [of "found_by (depth = 0) (seg # segs)", OF found_by_exact(1) [OF exact]]
      by (rule sum_children_cong) (simp add: found_by_exact [OF exact])
    then show ?thesis
      unfolding sum_children_one [OF d] using exact IH [of seg]
      by (cases "map_of ?m seg") (simp_all add: multiset.map_comp comp_def)
  qed
qed


subsection \<open>The map and the trie\<close>

definition in_step :: "'p retained_store \<Rightarrow> bool" where
  "in_step s \<longleftrightarrow> smap_sorted (rs_messages s) \<and> trie_ok (\<lambda>_. True) (rs_root s) \<and>
     messages_in (rs_root s) = image_mset (apfst rs_split) (mset (rs_messages s))"

lemma rs_split_topic: "rs_split = split_topic"
  by (simp add: fun_eq_iff rs_split_def split_topic_def)

lemma rs_split_eq: "rs_split t = rs_split u \<longleftrightarrow> t = u"
  using split_topic_inject by (auto simp: rs_split_topic)

lemma filter_other_topics:
  "{#x \<in># image_mset (apfst rs_split) M. fst x \<noteq> rs_split t#} = image_mset (apfst rs_split) {#x \<in># M. fst x \<noteq> t#}"
  unfolding filter_mset_image_mset by (simp add: rs_split_eq)

lemma trie_walk_stored: "trie_walk path node = None \<Longrightarrow> stored_at None path node = None"
  by (simp add: stored_at_def)

lemma rs_trie_insert_contents:
  assumes "trie_ok (\<lambda>_. True) root"
  shows "messages_in (rs_trie_insert topic message root) =
    add_mset (rs_split topic, message) {#x \<in># messages_in root. fst x \<noteq> rs_split topic#}"
  using ret.update_contents [OF assms, of "\<lambda>_. Some message" "rs_split topic"]
  by (simp add: rs_trie_insert_def opt_list_def)

lemma rs_trie_erase_contents:
  assumes "trie_ok (\<lambda>_. True) root"
  shows "messages_in (rs_trie_erase topic root) = {#x \<in># messages_in root. fst x \<noteq> rs_split topic#}"
proof (cases "trie_walk (rs_split topic) root")
  case None
  then have "{#x \<in># messages_in root. fst x = rs_split topic#} = {#}"
    using ret.contents_at [OF assms, of "rs_split topic"] by (simp add: stored_at_def opt_list_def)
  moreover have "messages_in root =
      {#x \<in># messages_in root. fst x = rs_split topic#} + {#x \<in># messages_in root. fst x \<noteq> rs_split topic#}"
    by (rule multiset_partition)
  ultimately have "messages_in root = {#x \<in># messages_in root. fst x \<noteq> rs_split topic#}" by (metis add_0)
  then show ?thesis using None by (simp add: rs_trie_erase_def)
next
  case (Some n)
  then show ?thesis
    using ret.remove_contents [OF assms Some, of "\<lambda>_. None"] by (simp add: rs_trie_erase_def opt_list_def)
qed

lemma in_step_remove:
  assumes "in_step s"
  shows "in_step (snd (rs_remove topic s))"
proof (cases "map_of (rs_messages s) topic = None")
  case False
  have ok: "trie_ok (\<lambda>_. True) (rs_root s)" using assms by (simp add: in_step_def)
  have "trie_ok (\<lambda>_. True) (rs_trie_erase topic (rs_root s))"
    using ok ret.remove_ok [OF ok] by (simp add: rs_trie_erase_def split: option.splits)
  moreover have "messages_in (rs_trie_erase topic (rs_root s)) =
      image_mset (apfst rs_split) (mset (smap_erase topic (rs_messages s)))"
    using assms unfolding rs_trie_erase_contents [OF ok] mset_smap_erase by (simp add: in_step_def filter_other_topics)
  ultimately show ?thesis using assms False smap_erase_sorted by (auto simp: rs_remove_def in_step_def)
qed (use assms in \<open>simp add: rs_remove_def\<close>)

lemma in_step_store:
  assumes "in_step s"
  shows "in_step (rs_store topic message s)"
proof (cases "rm_payload message = []")
  case True
  then show ?thesis using in_step_remove [OF assms] by (simp add: rs_store_def)
next
  case False
  have ok: "trie_ok (\<lambda>_. True) (rs_root s)" and m: "smap_sorted (rs_messages s)" using assms by (simp_all add: in_step_def)
  have "trie_ok (\<lambda>_. True) (rs_trie_insert topic message (rs_root s))"
    unfolding rs_trie_insert_def by (rule ret.update_ok [OF ok TrueI])
  moreover have "messages_in (rs_trie_insert topic message (rs_root s)) =
      image_mset (apfst rs_split) (mset (smap_insert topic message (rs_messages s)))"
    using assms unfolding rs_trie_insert_contents [OF ok] mset_smap_insert [OF m]
    by (simp add: in_step_def filter_other_topics)
  ultimately show ?thesis using False m smap_insert_sorted by (auto simp: rs_store_def in_step_def)
qed

lemma in_step_empty: "in_step \<lparr>rs_messages = [], rs_root = Trie_node [] None\<rparr>"
  by (simp add: in_step_def trie_ok_leaf smap_sorted_def mset_trie_items opt_list_def)


subsection \<open>Runs of the store\<close>

datatype 'p retained_op = Store string "'p retained_message" | Remove string | Clear_all

fun rs_step :: "'p retained_op \<Rightarrow> 'p retained_store \<Rightarrow> 'p retained_store" where
  "rs_step (Store topic message) s = rs_store topic message s"
| "rs_step (Remove topic) s = snd (rs_remove topic s)"
| "rs_step Clear_all s = rs_clear s"

text \<open>What a topic holds: the last message stored for it with a payload, unless it was removed.\<close>

fun retained_after :: "'p retained_op \<Rightarrow> (string \<rightharpoonup> 'p retained_message) \<Rightarrow> (string \<rightharpoonup> 'p retained_message)" where
  "retained_after (Store topic message) m = m(topic := if rm_payload message = [] then None else Some message)"
| "retained_after (Remove topic) m = m(topic := None)"
| "retained_after Clear_all m = Map.empty"

lemma rs_remove_map: "map_of (rs_messages (snd (rs_remove topic s))) = (map_of (rs_messages s))(topic := None)"
  by (auto simp: rs_remove_def map_of_smap_erase fun_eq_iff)

lemma retained_run:
  "in_step (fold rs_step ops empty_retained_store) \<and>
     map_of (rs_messages (fold rs_step ops empty_retained_store)) = fold retained_after ops Map.empty"
proof (induction ops rule: rev_induct)
  case Nil
  then show ?case by (simp add: empty_retained_store_def in_step_empty)
next
  case (snoc x ops)
  then have i: "in_step (fold rs_step ops empty_retained_store)"
    and m: "map_of (rs_messages (fold rs_step ops empty_retained_store)) = fold retained_after ops Map.empty" by auto
  have "smap_sorted (rs_messages (fold rs_step ops empty_retained_store))" using i by (simp add: in_step_def)
  then show ?case
    using in_step_store [OF i] in_step_remove [OF i] in_step_empty m
    by (cases x) (simp_all add: rs_store_def rs_remove_map map_of_smap_insert rs_clear_def fun_upd_def)
qed

text \<open>The search is \<open>topic_matches\<close>, but for names below \<open>$\<close> and the filter \<open>#\<close>.\<close>

lemma found_by_topic:
  assumes "validate_topic_filter f"
  shows "found_by True (rs_split f) (rs_split t) \<longleftrightarrow>
    topic_matches f t \<or> hd (split_topic f) = ''#'' \<and> dollar (split_topic t)"
proof -
  obtain seg segs where s: "split_topic f = seg # segs" by (cases "split_topic f") auto
  show ?thesis
    unfolding topic_matches_segs [OF assms] found_by_def rs_split_topic s dollar_def by auto
qed

lemma rs_match_exact:
  assumes "in_step s" and "validate_topic_filter f"
  shows "mset (rs_match f s) = mset (map snd (filter (\<lambda>(t, _). topic_matches f t \<or>
    hd (split_topic f) = ''#'' \<and> dollar (split_topic t)) (rs_messages s)))"
proof -
  have ok: "trie_ok (\<lambda>_. True) (rs_root s)"
    and c: "messages_in (rs_root s) = image_mset (apfst rs_split) (mset (rs_messages s))"
    using assms(1) by (simp_all add: in_step_def)
  have "mset (rs_match f s) = image_mset snd {#x \<in># messages_in (rs_root s). found_by True (rs_split f) (fst x)#}"
    unfolding rs_match_def rs_trie_match_exact [OF ok] by simp
  also have "\<dots> = image_mset snd {#x \<in># mset (rs_messages s). found_by True (rs_split f) (rs_split (fst x))#}"
    unfolding c by (simp add: filter_mset_image_mset multiset.map_comp comp_def)
  finally show ?thesis unfolding found_by_topic [OF assms(2)] by (simp add: split_def)
qed


text \<open>What a filter is to find among the retained messages.\<close>

definition retained_matching :: "(string \<Rightarrow> bool) \<Rightarrow> (string \<rightharpoonup> 'p retained_message) \<Rightarrow> 'p retained_message multiset" where
  "retained_matching wanted R = image_mset (\<lambda>t. the (R t)) (mset_set {t \<in> dom R. wanted t})"

lemma retained_matching_map:
  assumes "distinct (map fst m)"
  shows "mset (map snd (filter (\<lambda>(t, _). wanted t) m)) = retained_matching wanted (map_of m)"
proof -
  have d: "distinct (map fst (filter (\<lambda>(t, _). wanted t) m))" using assms by (simp add: distinct_map_filter)
  have "{t \<in> dom (map_of m). wanted t} = set (map fst (filter (\<lambda>(t, _). wanted t) m))"
    by (force simp: dom_map_of_conv_image_fst)
  then have "retained_matching wanted (map_of m) =
      image_mset (\<lambda>t. the (map_of m t)) (mset (map fst (filter (\<lambda>(t, _). wanted t) m)))"
    unfolding retained_matching_def using mset_set_set [OF d] by simp
  also have "\<dots> = mset (map (\<lambda>x. the (map_of m (fst x))) (filter (\<lambda>(t, _). wanted t) m))"
    by (simp add: multiset.map_comp comp_def)
  also have "map (\<lambda>x. the (map_of m (fst x))) (filter (\<lambda>(t, _). wanted t) m) = map snd (filter (\<lambda>(t, _). wanted t) m)"
    using assms by (intro map_cong) auto
  finally show ?thesis by simp
qed


text \<open>
  C31: After every sequence of \<open>store\<close>, \<open>remove\<close> and \<open>clear\<close>, \<open>find\<close> gives the last message stored for a topic that
  has a payload and was not removed since, \<open>size\<close> is the number of such topics, and \<open>match\<close> with a validated
  filter gives exactly the messages of the topics that \<open>topic_matches\<close> accepts, each once; the filter \<open>#\<close> gives
  those of the topics below \<open>$\<close> as well.
\<close>

theorem retained_store_matches:
  assumes "validate_topic_filter f"
  shows "let s = fold rs_step ops empty_retained_store; R = fold retained_after ops Map.empty in
    rs_find t s = R t \<and> rs_size s = card (dom R) \<and>
    mset (rs_match f s) =
      retained_matching (\<lambda>t. topic_matches f t \<or> hd (split_topic f) = ''#'' \<and> dollar (split_topic t)) R"
proof -
  define s where "s = fold rs_step ops empty_retained_store"
  have i: "in_step s" and m: "map_of (rs_messages s) = fold retained_after ops Map.empty"
    using retained_run [of ops] by (simp_all add: s_def)
  have d: "distinct (map fst (rs_messages s))" using i smap_sorted_distinct by (auto simp: in_step_def)
  then have "card (dom (map_of (rs_messages s))) = length (rs_messages s)"
    unfolding dom_map_of_conv_image_fst by (metis distinct_card length_map set_map)
  then show ?thesis
    using rs_match_exact [OF i assms] retained_matching_map [OF d] m
    by (simp add: Let_def rs_find_def rs_size_def s_def)
qed

theorem retained_store_matches_witness:
  "\<exists>m1 m2. let ops = [Store ''a/b'' m1, Store ''a/c'' m1, Store ''d'' m2, Remove ''a/c''];
       s = fold rs_step ops (empty_retained_store :: nat retained_store)
     in rs_find ''d'' s = Some m2 \<and> rs_size s = 2 \<and> mset (rs_match ''a/+'' s) = {#m1#}"
proof -
  define m1 :: "nat retained_message" where
    "m1 = \<lparr>rm_topic = ''a/b'', rm_payload = ''1'', rm_qos_value = at_most_once, rm_props = 0\<rparr>"
  define m2 :: "nat retained_message" where
    "m2 = \<lparr>rm_topic = ''d'', rm_payload = ''2'', rm_qos_value = at_least_once, rm_props = 0\<rparr>"
  let ?ops = "[Store ''a/b'' m1, Store ''a/c'' m1, Store ''d'' m2, Remove ''a/c'']"
  have v: "validate_topic_filter ''a/+''"
    by (simp add: validate_topic_filter_def filter_char_ok_def upt_rec)
  have R: "fold retained_after ?ops Map.empty = [''a/b'' \<mapsto> m1, ''d'' \<mapsto> m2]"
    by (simp add: m1_def m2_def fun_eq_iff)
  have "{t \<in> dom [''a/b'' \<mapsto> m1, ''d'' \<mapsto> m2]. topic_matches ''a/+'' t \<or> hd (split_topic ''a/+'') = ''#'' \<and> dollar (split_topic t)} =
      {''a/b''}"
    by (auto simp: topic_matches_def split_topic_levels ends_with_slash_def)
  then have "let s = fold rs_step ?ops (empty_retained_store :: nat retained_store)
      in rs_find ''d'' s = Some m2 \<and> rs_size s = 2 \<and> mset (rs_match ''a/+'' s) = {#m1#}"
    using retained_store_matches [OF v, of ?ops "''d''", unfolded R Let_def] unfolding Let_def retained_matching_def
    by (simp del: fold_simps)
  then show ?thesis unfolding Let_def by blast
qed

end
