(* ===== verification/Websocket_Frame.thy ===== *)
theory Websocket_Frame
  imports Core_Buffer
begin

text \<open>
  The frames of WebSocket, from \<open>src/src/protocol/websocket/wire/websocket_frame.cpp\<close> and \<open>websocket_frame.cppm\<close>: the
  parser of the frame header, the masking of payloads in steps of eight and four bytes, and the builders. The
  byte order of the host is a parameter, as in the theory of the buffers. The masking key is drawn from a
  \<open>std::mt19937\<close>: its value, of type \<open>std::uint_fast32_t\<close>, is an argument, and so is the size of that type, which
  is 4 or 8 bytes.
\<close>

subsection \<open>Headers\<close>

type_synonym opcode = u8

definition op_close :: opcode where
  "op_close = 0x8"

definition is_control :: "opcode \<Rightarrow> bool" where
  "is_control op \<longleftrightarrow> op \<ge> 0x8"

record ws_frame_header =
  fh_fin :: bool
  fh_rsv1 :: bool
  fh_rsv2 :: bool
  fh_rsv3 :: bool
  fh_op :: opcode
  fh_masked :: bool
  fh_payload_length :: u64
  fh_masking_key :: u32

datatype ws_errc =
  success | need_more_data | invalid_frame | reserved_opcode | control_frame_too_large | fragmented_control |
  masked_from_server | unmasked_from_client | invalid_close_payload | invalid_utf8 | handshake_failed |
  not_connected | already_closed | ws_protocol_error

text \<open>The payload length and the size of the header up to it.\<close>

definition parse_length :: "bytes \<Rightarrow> ws_errc + u64 \<times> nat" where
  "parse_length data =
     (let size = data ! 1 AND 0x7F in
      if size \<le> 125 then Inr (ucast size, 2)
      else if size = 126 then
        if length data < 4 then Inl need_more_data
        else
          let payload_length = push_bit 8 (ucast (data ! 2)) OR ucast (data ! 3)
          in if payload_length < 126 then Inl invalid_frame else Inr (payload_length, 4)
      else
        if length data < 10 then Inl need_more_data
        else if data ! 2 AND 0x80 \<noteq> 0 then Inl invalid_frame
        else
          let payload_length = foldl (\<lambda>n i. push_bit 8 n OR ucast (data ! (2 + i))) 0 [0..<8]
          in if payload_length \<le> 0xffff then Inl invalid_frame else Inr (payload_length, 10))"

definition parse_frame_header :: "endian \<Rightarrow> bytes \<Rightarrow> ws_errc + ws_frame_header \<times> nat" where
  "parse_frame_header native data =
     (if length data < 2 then Inl need_more_data
      else
        case parse_length data of
          Inl e \<Rightarrow> Inl e
        | Inr (payload_length, header_size) \<Rightarrow>
            let b0 = data ! 0; b1 = data ! 1;
                hdr = \<lparr>fh_fin = (b0 AND 0x80 \<noteq> 0), fh_rsv1 = (b0 AND 0x40 \<noteq> 0), fh_rsv2 = (b0 AND 0x20 \<noteq> 0),
                       fh_rsv3 = (b0 AND 0x10 \<noteq> 0), fh_op = b0 AND 0x0F, fh_masked = (b1 AND 0x80 \<noteq> 0),
                       fh_payload_length = payload_length, fh_masking_key = 0\<rparr>
            in if fh_masked hdr \<and> length data < header_size + 4 then Inl need_more_data
               else
                 let (hdr, header_size) =
                       (if fh_masked hdr
                        then (hdr\<lparr>fh_masking_key := object_value native (take 4 (drop header_size data))\<rparr>, header_size + 4)
                        else (hdr, header_size))
                 in if is_control (fh_op hdr) \<and> (fh_payload_length hdr > 125 \<or> \<not> fh_fin hdr) then
                      Inl (if fh_payload_length hdr > 125 then control_frame_too_large else fragmented_control)
                    else Inr (hdr, header_size))"


subsection \<open>Masking\<close>

text \<open>
  \<open>apply_mask_impl\<close> runs over the data eight bytes at a time, then four, then one, and gives the bits of all
  words it wrote together; the flag is its template argument. The result of the loop is what it wrote, what is
  left of the span, and the bits.
\<close>

function mask_wide :: "bool \<Rightarrow> endian \<Rightarrow> u64 \<Rightarrow> bytes \<Rightarrow> u64 \<Rightarrow> bytes \<times> bytes \<times> u64" where
  "mask_wide check_ascii native wide_key data high_bits =
     (if length data \<ge> 8 then
        let v = object_value native (take 8 data) XOR wide_key;
            high_bits' = (if check_ascii then high_bits OR v else high_bits);
            (out, rest, h) = mask_wide check_ascii native wide_key (drop 8 data) high_bits'
        in (object_bytes native 8 v @ out, rest, h)
      else ([], data, high_bits))"
  by pat_completeness auto
termination by (relation "measure (\<lambda>(_, _, _, data, _). length data)") auto

declare mask_wide.simps [simp del]

definition mask_four :: "bool \<Rightarrow> endian \<Rightarrow> u32 \<Rightarrow> bytes \<Rightarrow> u64 \<Rightarrow> bytes \<times> bytes \<times> u64" where
  "mask_four check_ascii native key data high_bits =
     (if length data \<ge> 4 then
        let v = object_value native (take 4 data) XOR key
        in (object_bytes native 4 v, drop 4 data, if check_ascii then high_bits OR ucast v else high_bits)
      else ([], data, high_bits))"

definition mask_tail :: "bool \<Rightarrow> endian \<Rightarrow> u32 \<Rightarrow> bytes \<Rightarrow> u64 \<Rightarrow> bytes \<times> u64" where
  "mask_tail check_ascii native key data high_bits =
     (let out = map (\<lambda>i. data ! i XOR object_bytes native 4 key ! (i mod 4)) [0..<length data]
      in (out, if check_ascii then foldl (\<lambda>h b. h OR ucast b) high_bits out else high_bits))"

definition apply_mask_impl :: "bool \<Rightarrow> endian \<Rightarrow> bytes \<Rightarrow> u32 \<Rightarrow> bytes \<times> bool" where
  "apply_mask_impl check_ascii native data key =
     (let wide_key = ucast key OR push_bit 32 (ucast key);
          (out8, data4, high8) = mask_wide check_ascii native wide_key data 0;
          (out4, data1, high4) = mask_four check_ascii native key data4 high8;
          (out1, high1) = mask_tail check_ascii native key data1 high4
      in (out8 @ out4 @ out1, check_ascii \<and> high1 AND 0x8080808080808080 = 0))"

definition apply_mask :: "endian \<Rightarrow> bytes \<Rightarrow> u32 \<Rightarrow> bytes" where
  "apply_mask native data key = fst (apply_mask_impl False native data key)"


subsection \<open>Building frames\<close>

text \<open>The key in memory: \<open>memcpy\<close> takes the first four bytes of an object of \<open>fast32_size\<close> bytes.\<close>

definition key_bytes :: "endian \<Rightarrow> nat \<Rightarrow> u64 \<Rightarrow> bytes" where
  "key_bytes native fast32_size key = take 4 (object_bytes native fast32_size key)"

definition length_bytes :: "u8 \<Rightarrow> bytes \<Rightarrow> bytes" where
  "length_bytes basic_size payload =
     (if basic_size = 126 then
        let n = of_nat (length payload) :: u16 in [ucast (drop_bit 8 n), ucast n]
      else if basic_size = 127 then
        let n = of_nat (length payload) :: u64 in map (\<lambda>i. ucast (drop_bit (i * 8) n)) (rev [0..<8])
      else [])"

definition append_frame_into ::
    "endian \<Rightarrow> nat \<Rightarrow> u64 \<Rightarrow> bytes \<Rightarrow> opcode \<Rightarrow> bytes \<Rightarrow> bool \<Rightarrow> bool \<Rightarrow> bytes" where
  "append_frame_into native fast32_size key frames op payload do_mask fin =
     (if \<not> do_mask \<and> length payload \<le> 125 then
        frames @ [op OR (if fin then 0x80 else 0)] @ [of_nat (length payload)] @ payload
      else
        let (basic_size, header_size) =
              (if length payload \<le> 125 then (of_nat (length payload), 2)
               else if length payload \<le> 0xffff then (126, 2 + 2)
               else (127, 2 + 8));
            header_size = (if do_mask then header_size + 4 else header_size);
            start = length frames;
            d = vec_resize (start + header_size + length payload) frames;
            d = mem_write start [op OR (if fin then 0x80 else 0)] d;
            d = mem_write (start + 1) [basic_size OR (if do_mask then 0x80 else 0)] d;
            d = mem_write (start + 2) (length_bytes basic_size payload) d;
            offset = 2 + length (length_bytes basic_size payload)
        in if do_mask then
             let d = mem_write (start + offset) (key_bytes native fast32_size key) d;
                 offset = offset + 4;
                 d = mem_write (start + offset) payload d
             in mem_write (start + offset)
                  (apply_mask native (take (length payload) (drop (start + offset) d)) (ucast key)) d
           else mem_write (start + offset) payload d)"

definition build_frame_into ::
    "endian \<Rightarrow> nat \<Rightarrow> u64 \<Rightarrow> bytes \<Rightarrow> opcode \<Rightarrow> bytes \<Rightarrow> bool \<Rightarrow> bool \<Rightarrow> bytes" where
  "build_frame_into native fast32_size key frame op payload do_mask fin =
     append_frame_into native fast32_size key [] op payload do_mask fin"

definition build_frame :: "endian \<Rightarrow> nat \<Rightarrow> u64 \<Rightarrow> opcode \<Rightarrow> bytes \<Rightarrow> bool \<Rightarrow> bool \<Rightarrow> bytes" where
  "build_frame native fast32_size key op payload do_mask fin =
     build_frame_into native fast32_size key [] op payload do_mask fin"

definition build_close_frame :: "endian \<Rightarrow> nat \<Rightarrow> u64 \<Rightarrow> u16 \<Rightarrow> bytes \<Rightarrow> bool \<Rightarrow> bytes" where
  "build_close_frame native fast32_size key code reason do_mask =
     build_frame native fast32_size key op_close ([ucast (drop_bit 8 code), ucast code] @ reason) do_mask True"


subsection \<open>Masking byte by byte\<close>

text \<open>The reference: each byte with the next byte of the key, the key repeated.\<close>

fun mask_bytes :: "bytes \<Rightarrow> bytes \<Rightarrow> bytes" where
  "mask_bytes k [] = []"
| "mask_bytes k (b # bs) = (b XOR hd k) # mask_bytes (rotate1 k) bs"

lemma length_mask_bytes [simp]: "length (mask_bytes k bs) = length bs"
  by (induction k bs rule: mask_bytes.induct) auto

lemma mask_bytes_append: "mask_bytes k (xs @ ys) = mask_bytes k xs @ mask_bytes (rotate (length xs) k) ys"
proof (induction k xs rule: mask_bytes.induct)
  case (2 k b bs)
  then show ?case by (simp add: rotate1_rotate_swap)
qed simp

text \<open>Masking twice gives the data back.\<close>

lemma mask_bytes_twice [simp]: "mask_bytes k (mask_bytes k bs) = bs"
  by (induction k bs rule: mask_bytes.induct) (auto simp: xor.assoc)

lemma mask_bytes_nth: "k \<noteq> [] \<Longrightarrow> i < length bs \<Longrightarrow> mask_bytes k bs ! i = bs ! i XOR k ! (i mod length k)"
proof (induction k bs arbitrary: i rule: mask_bytes.induct)
  case (2 k b bs)
  show ?case
  proof (cases i)
    case 0
    then show ?thesis using 2(2) by (simp add: hd_conv_nth)
  next
    case (Suc j)
    then have "mask_bytes (rotate1 k) bs ! j = bs ! j XOR rotate1 k ! (j mod length k)" using 2 by simp
    moreover have "rotate1 k ! (j mod length k) = k ! (Suc j mod length k)"
      using 2(2) nth_rotate1 [of "j mod length k" k] by (simp add: mod_Suc_eq)
    ultimately show ?thesis using Suc by simp
  qed
qed simp

lemma length_object_bytes [simp]: "length (object_bytes native k v) = k"
  by (simp add: object_bytes_def)

lemma mask_tail_bytes: "fst (mask_tail check native key data h) = mask_bytes (object_bytes native 4 key) data"
proof (rule nth_equalityI)
  fix i assume "i < length (fst (mask_tail check native key data h))"
  then have "i < length data" by (simp add: mask_tail_def Let_def)
  moreover have "object_bytes native 4 key \<noteq> []"
    using length_object_bytes [of native 4 key] by fastforce
  ultimately show "fst (mask_tail check native key data h) ! i = mask_bytes (object_bytes native 4 key) data ! i"
    using mask_bytes_nth [of "object_bytes native 4 key" i data] by (simp add: mask_tail_def Let_def)
qed (simp add: mask_tail_def Let_def)

text \<open>Bytewise operations on an integer are operations on its bytes.\<close>

lemma be_bytes_xor: "be_bytes k (x XOR y) = map2 (XOR) (be_bytes k x) (be_bytes k y)"
  by (simp add: be_bytes_def map2_map_map drop_bit_xor unsigned_xor_eq)

lemma be_bytes_and: "be_bytes k (x AND y) = map2 (AND) (be_bytes k x) (be_bytes k y)"
  by (simp add: be_bytes_def map2_map_map drop_bit_and unsigned_and_eq)

lemma object_bytes_xor: "object_bytes native k (x XOR y) = map2 (XOR) (object_bytes native k x) (object_bytes native k y)"
  by (simp add: object_bytes_def le_bytes_rev be_bytes_xor rev_map zip_rev)

lemma object_bytes_of: "length bs = k \<Longrightarrow> 8 * k \<le> LENGTH('a) \<Longrightarrow> object_bytes native k (object_value native bs :: 'a::len word) = bs"
  by (simp add: object_bytes_def object_value_def le_bytes_rev le_value_def be_bytes_of)

lemma object_bytes_wide:
  "object_bytes native 8 (ucast key OR push_bit 32 (ucast key) :: u64) = object_bytes native 4 key @ object_bytes native 4 key"
  for key :: u32
proof -
  have "be_bytes 8 (ucast key OR push_bit 32 (ucast key) :: u64) = be_bytes 4 key @ be_bytes 4 key"
    unfolding byte_lists by simp (intro conjI bit_word_eqI; auto simp: bit_simps dest: bit_imp_le_length)
  then show ?thesis by (simp add: object_bytes_def le_bytes_rev)
qed

lemma mask_bytes_step:
  assumes "length K = 4"
  shows "length bs = 4 \<Longrightarrow> mask_bytes K bs = map2 (XOR) bs K" "length bs = 8 \<Longrightarrow> mask_bytes K bs = map2 (XOR) bs (K @ K)"
proof -
  have ne: "K \<noteq> []" using assms by auto
  show "mask_bytes K bs = map2 (XOR) bs K" if "length bs = 4"
    using that assms by (intro nth_equalityI) (auto simp: mask_bytes_nth [OF ne])
  show "mask_bytes K bs = map2 (XOR) bs (K @ K)" if "length bs = 8"
    using that assms by (intro nth_equalityI) (auto simp: mask_bytes_nth [OF ne] nth_append mod_if)
qed

text \<open>The key begins anew after four or eight bytes.\<close>

lemma mask_bytes_blocks:
  assumes "length K = 4"
  shows "length bs \<ge> 8 \<Longrightarrow> mask_bytes K bs = map2 (XOR) (take 8 bs) (K @ K) @ mask_bytes K (drop 8 bs)"
    and "length bs \<ge> 4 \<Longrightarrow> mask_bytes K bs = map2 (XOR) (take 4 bs) K @ mask_bytes K (drop 4 bs)"
proof -
  have r: "rotate 8 K = K" "rotate 4 K = K" using assms rotate_conv_mod [of 8 K] rotate_conv_mod [of 4 K] by simp_all
  show "mask_bytes K bs = map2 (XOR) (take 8 bs) (K @ K) @ mask_bytes K (drop 8 bs)" if "length bs \<ge> 8"
    using that mask_bytes_append [of K "take 8 bs" "drop 8 bs"] mask_bytes_step(2) [OF assms, of "take 8 bs"] r by simp
  show "mask_bytes K bs = map2 (XOR) (take 4 bs) K @ mask_bytes K (drop 4 bs)" if "length bs \<ge> 4"
    using that mask_bytes_append [of K "take 4 bs" "drop 4 bs"] mask_bytes_step(1) [OF assms, of "take 4 bs"] r by simp
qed

text \<open>The collected bits tell whether a byte has its highest bit set.\<close>

abbreviation ascii :: "byte \<Rightarrow> bool" where
  "ascii b \<equiv> \<not> bit b 7"

abbreviation plain :: "u64 \<Rightarrow> bool" where
  "plain h \<equiv> h AND 0x8080808080808080 = 0"

lemma plain_or: "plain (a OR b) \<longleftrightarrow> plain a \<and> plain b"
  by (simp add: bit.conj_disj_distrib2 or_eq_0_iff)

lemma ascii_and: "b AND 0x80 = 0 \<longleftrightarrow> ascii b" for b :: byte
  using and_exp_eq_0_iff_not_bit [of b 7] by simp

lemma plain_bytes: "plain v \<longleftrightarrow> list_all ascii (be_bytes 8 v)"
proof -
  have "be_bytes 8 (0x8080808080808080 :: u64) = [0x80, 0x80, 0x80, 0x80, 0x80, 0x80, 0x80, 0x80]"
    by (simp add: byte_lists)
  also have "\<dots> = replicate 8 0x80" by (simp add: eval_nat_numeral)
  finally have m: "be_bytes 8 (0x8080808080808080 :: u64) = replicate 8 0x80" .
  have zeros: "be_bytes 8 (0 :: u64) ! i = 0" if "i < 8" for i using that by (simp add: be_bytes_def)
  have "plain v \<longleftrightarrow> be_bytes 8 (v AND 0x8080808080808080) = be_bytes 8 (0 :: u64)"
    using be_bytes_inject [of 8 "v AND 0x8080808080808080" 0] by auto
  also have "\<dots> \<longleftrightarrow> (\<forall>i < 8. be_bytes 8 v ! i AND 0x80 = 0)"
    unfolding be_bytes_and m list_eq_iff_nth_eq by (simp add: zeros)
  finally show ?thesis unfolding ascii_and by (simp add: list_all_length)
qed

lemma list_all_rev [simp]: "list_all P (rev xs) \<longleftrightarrow> list_all P xs"
  by (simp add: list_all_iff)

lemma plain_object: "plain v \<longleftrightarrow> list_all ascii (object_bytes native 8 v)"
  by (simp add: plain_bytes object_bytes_def le_bytes_rev)

lemma plain_narrow:
  "plain (ucast v4) \<longleftrightarrow> list_all ascii (object_bytes native 4 v4)" "plain (ucast b) \<longleftrightarrow> ascii b"
  for v4 :: u32 and b :: byte
proof -
  have "be_bytes 8 (ucast v4 :: u64) = [0, 0, 0, 0] @ be_bytes 4 v4"
    unfolding byte_lists by simp (intro conjI bit_word_eqI; auto simp: bit_simps dest: bit_imp_le_length)
  then show "plain (ucast v4) \<longleftrightarrow> list_all ascii (object_bytes native 4 v4)"
    by (simp add: plain_bytes object_bytes_def le_bytes_rev)
  have "be_bytes 8 (ucast b :: u64) = [0, 0, 0, 0, 0, 0, 0, b]"
    unfolding byte_lists by simp (intro conjI bit_word_eqI; auto simp: bit_simps dest: bit_imp_le_length)
  then show "plain (ucast b) \<longleftrightarrow> ascii b" by (simp add: plain_bytes)
qed

lemma foldl_plain: "plain (foldl (\<lambda>h b. h OR ucast b) h bs) \<longleftrightarrow> plain h \<and> list_all ascii bs" for bs :: bytes
  by (induction bs arbitrary: h) (auto simp: plain_or plain_narrow(2))

lemma mask_wide_bytes:
  fixes key :: u32 and native
  defines "K \<equiv> object_bytes native 4 key"
  assumes "mask_wide check native (ucast key OR push_bit 32 (ucast key)) data h = (out, rest, h')"
  shows "out @ mask_bytes K rest = mask_bytes K data \<and> (check \<longrightarrow> (plain h' \<longleftrightarrow> plain h \<and> list_all ascii out))"
  using assms(2)
proof (induction "length data" arbitrary: data h out rule: less_induct)
  case less
  show ?case
  proof (cases "length data \<ge> 8")
    case False
    then show ?thesis using less.prems by (simp add: mask_wide.simps [of _ _ _ data])
  next
    case True
    define v where "v = (object_value native (take 8 data) XOR (ucast key OR push_bit 32 (ucast key)) :: u64)"
    obtain o1 r1 h1 where m: "mask_wide check native (ucast key OR push_bit 32 (ucast key)) (drop 8 data)
        (if check then h OR v else h) = (o1, r1, h1)" by (metis prod_cases3)
    have e: "out = object_bytes native 8 v @ o1" "rest = r1" "h' = h1"
      using less.prems m True by (simp_all add: mask_wide.simps [of _ _ _ data] v_def [symmetric] Let_def)
    have v: "object_bytes native 8 v = map2 (XOR) (take 8 data) (K @ K)"
      using True by (simp add: v_def object_bytes_xor object_bytes_wide object_bytes_of K_def)
    have "length (drop 8 data) < length data" using True by simp
    from less.hyps [OF this, of "if check then h OR v else h" o1] m e
    have IH: "o1 @ mask_bytes K rest = mask_bytes K (drop 8 data)"
      "check \<longrightarrow> (plain h' \<longleftrightarrow> plain (h OR v) \<and> list_all ascii o1)" by auto
    have "mask_bytes K data = object_bytes native 8 v @ mask_bytes K (drop 8 data)"
      using mask_bytes_blocks(1) [of K data] True v by (simp add: K_def)
    then show ?thesis using IH e(1) plain_object [of v native] by (auto simp: plain_or)
  qed
qed

lemma apply_mask_impl_bytes:
  "apply_mask_impl check native data key =
     (mask_bytes (object_bytes native 4 key) data,
      check \<and> list_all ascii (mask_bytes (object_bytes native 4 key) data))"
proof -
  let ?K = "object_bytes native 4 key"
  obtain o8 d4 h8 where w: "mask_wide check native (ucast key OR push_bit 32 (ucast key)) data 0 = (o8, d4, h8)"
    by (metis prod_cases3)
  obtain o4 d1 h4 where f: "mask_four check native key d4 h8 = (o4, d1, h4)" by (metis prod_cases3)
  obtain o1 h1 where t: "mask_tail check native key d1 h4 = (o1, h1)" by fastforce
  have w': "o8 @ mask_bytes ?K d4 = mask_bytes ?K data" "check \<longrightarrow> (plain h8 \<longleftrightarrow> list_all ascii o8)"
    using mask_wide_bytes [OF w] by auto
  have f': "o4 @ mask_bytes ?K d1 = mask_bytes ?K d4 \<and> (check \<longrightarrow> (plain h4 \<longleftrightarrow> plain h8 \<and> list_all ascii o4))"
  proof (cases "length d4 \<ge> 4")
    case True
    define v where "v = object_value native (take 4 d4) XOR key"
    have e: "o4 = object_bytes native 4 v" "d1 = drop 4 d4" "h4 = (if check then h8 OR ucast v else h8)"
      using f True by (auto simp: mask_four_def Let_def v_def)
    have "object_bytes native 4 v = map2 (XOR) (take 4 d4) ?K"
      using True by (simp add: v_def object_bytes_xor object_bytes_of)
    then show ?thesis using e mask_bytes_blocks(2) [of ?K d4] True plain_narrow(1) [of v native] by (simp add: plain_or)
  next
    case False
    then show ?thesis using f by (auto simp: mask_four_def)
  qed
  have t': "o1 = mask_bytes ?K d1" "check \<longrightarrow> (plain h1 \<longleftrightarrow> plain h4 \<and> list_all ascii o1)"
    using t mask_tail_bytes [of check native key d1 h4] by (auto simp: mask_tail_def Let_def foldl_plain)
  have all: "mask_bytes ?K data = o8 @ o4 @ o1" using w'(1) f' t'(1) by simp
  have "apply_mask_impl check native data key = (o8 @ o4 @ o1, check \<and> plain h1)"
    using w f t by (simp add: apply_mask_impl_def Let_def)
  then show ?thesis using all w'(2) f' t'(2) by auto
qed


subsection \<open>What the builders write\<close>

definition basic_size :: "bytes \<Rightarrow> u8" where
  "basic_size payload =
     (if length payload \<le> 125 then of_nat (length payload) else if length payload \<le> 0xffff then 126 else 127)"

lemma basic_size_small: "length payload \<le> 125 \<Longrightarrow> unat (basic_size payload) = length payload"
  by (simp add: basic_size_def unat_of_nat)

lemma length_bytes_cases:
  "length_bytes (basic_size payload) payload =
     (if length payload \<le> 125 then []
      else if length payload \<le> 0xffff then be_bytes 2 (of_nat (length payload) :: u16)
      else be_bytes 8 (of_nat (length payload) :: u64))"
proof (cases "length payload \<le> 125")
  case True
  have "unat (basic_size payload) \<noteq> unat (126 :: u8)" "unat (basic_size payload) \<noteq> unat (127 :: u8)"
    unfolding basic_size_small [OF True] using True by simp_all
  then have "basic_size payload \<noteq> 126" "basic_size payload \<noteq> 127" by metis+
  then show ?thesis using True by (simp add: length_bytes_def)
next
  case False
  then show ?thesis
    by (simp add: length_bytes_def basic_size_def byte_lists Let_def)
qed

lemma mem_write_fill: "p = length a \<Longrightarrow> mem_write p b (a @ z) = a @ b @ drop (length b) z"
  by (simp add: mem_write_def)

lemma length_key_bytes: "4 \<le> fast32_size \<Longrightarrow> length (key_bytes native fast32_size key) = 4"
  by (simp add: key_bytes_def)

lemma append_frame_layout:
  assumes "4 \<le> fast32_size"
  shows "append_frame_into native fast32_size key frames op payload do_mask fin =
    frames @ [op OR (if fin then 0x80 else 0), basic_size payload OR (if do_mask then 0x80 else 0)] @
    length_bytes (basic_size payload) payload @
    (if do_mask then key_bytes native fast32_size key @ apply_mask native payload (ucast key) else payload)"
proof (cases "\<not> do_mask \<and> length payload \<le> 125")
  case True
  then show ?thesis using length_bytes_cases [of payload] by (simp add: append_frame_into_def basic_size_def)
next
  case False
  define ext where "ext = length_bytes (basic_size payload) payload"
  define h where "h = 2 + length ext + (if do_mask then 4 else 0)"
  let ?b0 = "op OR (if fin then 0x80 else 0)" and ?b1 = "basic_size payload OR (if do_mask then 0x80 else 0)"
  let ?s = "length frames" and ?K = "key_bytes native fast32_size key"
  define d where "d = vec_resize (?s + h + length payload) frames"
  have d: "d = frames @ replicate (h + length payload) 0" by (simp add: d_def vec_resize_def)
  define d3 where "d3 = mem_write (?s + 2) ext (mem_write (?s + 1) [?b1] (mem_write ?s [?b0] d))"
  have d3: "d3 = frames @ [?b0, ?b1] @ ext @ replicate (h + length payload - 2 - length ext) 0"
    unfolding d3_def d by (simp add: mem_write_fill [of _ frames] mem_write_fill [of _ "frames @ [?b0]", simplified]
        mem_write_fill [of _ "frames @ [?b0, ?b1]", simplified])
  have le: "length ext = (if length payload \<le> 125 then 0 else if length payload \<le> 0xffff then 2 else 8)"
    unfolding ext_def length_bytes_cases by simp
  have pair: "(if length payload \<le> 125 then (of_nat (length payload), 2)
      else if length payload \<le> 0xffff then (126, 2 + 2) else (127, 2 + 8)) = (basic_size payload, 2 + length ext)"
    by (simp add: basic_size_def le)
  have hs: "(if do_mask then 2 + length ext + 4 else 2 + length ext) = h" by (simp add: h_def)
  have def: "append_frame_into native fast32_size key frames op payload do_mask fin =
      (let offset = 2 + length ext in
       if do_mask then
         let e = mem_write (?s + (offset + 4)) payload (mem_write (?s + offset) ?K d3)
         in mem_write (?s + (offset + 4)) (apply_mask native (take (length payload) (drop (?s + (offset + 4)) e)) (ucast key)) e
       else mem_write (?s + offset) payload d3)"
    unfolding append_frame_into_def if_not_P [OF False] pair d3_def d_def hs [symmetric] Let_def prod.case
      ext_def [symmetric] add.assoc by (rule refl)
  show ?thesis
  proof (cases do_mask)
    case mask: True
    let ?pre = "frames @ [?b0, ?b1] @ ext"
    have K: "length ?K = 4" using length_key_bytes [OF assms] .
    have p: "?s + (2 + length ext) = length ?pre" "?s + (2 + length ext + 4) = length (?pre @ ?K)" using K by simp_all
    have r: "h + length payload - 2 - length ext = 4 + length payload" using mask by (simp add: h_def)
    have e1: "mem_write (?s + (2 + length ext)) ?K d3 = ?pre @ ?K @ replicate (length payload) 0"
      unfolding p(1) d3 r using mem_write_fill [OF refl, of ?pre ?K "replicate (4 + length payload) 0"] K by simp
    have e2: "mem_write (?s + (2 + length ext + 4)) payload (?pre @ ?K @ replicate (length payload) 0) = ?pre @ ?K @ payload"
      unfolding p(2) using mem_write_fill [OF refl, of "?pre @ ?K" payload "replicate (length payload) 0"] by simp
    have l: "length (apply_mask native payload (ucast key)) = length payload"
      by (simp add: apply_mask_def apply_mask_impl_bytes)
    have e3: "mem_write (?s + (2 + length ext + 4)) (apply_mask native payload (ucast key)) (?pre @ ?K @ payload) =
        ?pre @ ?K @ apply_mask native payload (ucast key)"
      unfolding p(2) using mem_write_fill [OF refl, of "?pre @ ?K" "apply_mask native payload (ucast key)" payload] l by simp
    have tk: "take (length payload) (drop (?s + (2 + length ext + 4)) (?pre @ ?K @ payload)) = payload"
      unfolding p(2) by simp
    define pos where "pos = ?s + (2 + length ext + 4)"
    define e where "e = mem_write pos payload (mem_write (?s + (2 + length ext)) ?K d3)"
    have "append_frame_into native fast32_size key frames op payload do_mask fin =
        mem_write pos (apply_mask native (take (length payload) (drop pos e)) (ucast key)) e"
      unfolding def Let_def e_def pos_def by (rule if_P [OF mask])
    moreover have "e = ?pre @ ?K @ payload" unfolding e_def e1 pos_def e2 ..
    ultimately have "append_frame_into native fast32_size key frames op payload do_mask fin =
        ?pre @ ?K @ apply_mask native payload (ucast key)"
      using tk e3 unfolding pos_def by metis
    then show ?thesis using mask unfolding ext_def by simp
  next
    case no_mask: False
    have r: "h + length payload - 2 - length ext = length payload" using no_mask by (simp add: h_def)
    have "mem_write (?s + (2 + length ext)) payload d3 = frames @ [?b0, ?b1] @ ext @ payload"
      unfolding d3 r using mem_write_fill [of "?s + (2 + length ext)" "frames @ [?b0, ?b1] @ ext" payload] by simp
    then show ?thesis using no_mask def unfolding Let_def ext_def by simp
  qed
qed


subsection \<open>Parsing what was built\<close>

lemma flag_bits:
  fixes op :: u8
  assumes "op < 0x10"
  shows "(op OR (if fin then 0x80 else 0)) AND 0x0F = op" "(op OR (if fin then 0x80 else 0)) AND 0x80 \<noteq> 0 \<longleftrightarrow> fin"
    "(op OR (if fin then 0x80 else 0)) AND 0x40 = 0" "(op OR (if fin then 0x80 else 0)) AND 0x20 = 0"
    "(op OR (if fin then 0x80 else 0)) AND 0x10 = 0"
proof -
  have "op AND mask 4 = op" by (rule less_mask_eq) (use assms in simp)
  then have op: "op AND 0x0F = op" by (simp add: mask_eq_exp_minus_1)
  have low: "op AND x = op AND (0x0F AND x)" for x using op by (metis and.assoc)
  have z: "op AND 0x80 = 0" "op AND 0x40 = 0" "op AND 0x20 = 0" "op AND 0x10 = 0"
    using low [of "0x80"] low [of "0x40"] low [of "0x20"] low [of "0x10"] by simp_all
  show "(op OR (if fin then 0x80 else 0)) AND 0x0F = op" using op by (simp add: bit.conj_disj_distrib2)
  show "(op OR (if fin then 0x80 else 0)) AND 0x80 \<noteq> 0 \<longleftrightarrow> fin" "(op OR (if fin then 0x80 else 0)) AND 0x40 = 0"
    "(op OR (if fin then 0x80 else 0)) AND 0x20 = 0" "(op OR (if fin then 0x80 else 0)) AND 0x10 = 0"
    using z by (auto simp: bit.conj_disj_distrib2)
qed

lemma size_bits:
  fixes size :: u8
  assumes "size < 0x80"
  shows "(size OR (if m then 0x80 else 0)) AND 0x7F = size" "(size OR (if m then 0x80 else 0)) AND 0x80 \<noteq> 0 \<longleftrightarrow> m"
proof -
  have "size AND mask 7 = size" by (rule less_mask_eq) (use assms in simp)
  then have s: "size AND 0x7F = size" by (simp add: mask_eq_exp_minus_1)
  have "size AND 0x80 = size AND (0x7F AND 0x80)" using s by (metis and.assoc)
  then have z: "size AND 0x80 = 0" by simp
  show "(size OR (if m then 0x80 else 0)) AND 0x7F = size" using s by (simp add: bit.conj_disj_distrib2)
  show "(size OR (if m then 0x80 else 0)) AND 0x80 \<noteq> 0 \<longleftrightarrow> m" using z by (auto simp: bit.conj_disj_distrib2)
qed

lemma basic_size_less: "basic_size payload < 0x80"
proof (cases "length payload \<le> 125")
  case True
  then show ?thesis using basic_size_small [OF True] by (simp add: word_less_nat_alt)
qed (simp add: basic_size_def)

lemma two_bytes: "push_bit 8 (ucast (ucast (drop_bit 8 n) :: byte)) OR ucast (ucast n :: byte) = (ucast n :: u64)" for n :: u16
  by (rule bit_word_eqI) (auto simp: bit_simps dest: bit_imp_le_length)

lemma foldl_nth: "foldl (\<lambda>n i. f n (data ! (2 + i))) z [0..<8] = foldl f z (map (\<lambda>i. data ! (2 + i)) [0..<8])"
  by (simp add: foldl_map)

lemma top_bit_clear:
  assumes "k < 2 ^ 63"
  shows "(ucast (drop_bit 56 (of_nat k :: u64)) :: byte) AND 0x80 = 0"
proof -
  have "\<not> bit k 63" using assms by (simp add: bit_iff_odd)
  then show ?thesis unfolding ascii_and by (simp add: bit_simps)
qed

lemma parse_length_built:
  assumes len: "length payload < 2 ^ 63"
  shows "parse_length ([b0, basic_size payload OR (if m then 0x80 else 0)] @
      length_bytes (basic_size payload) payload @ rest) =
    Inr (of_nat (length payload), 2 + length (length_bytes (basic_size payload) payload))"
proof -
  let ?n = "length payload"
  let ?data = "[b0, basic_size payload OR (if m then 0x80 else 0)] @ length_bytes (basic_size payload) payload @ rest"
  have sz: "?data ! 1 AND 0x7F = basic_size payload" using size_bits(1) [OF basic_size_less] by simp
  consider (small) "?n \<le> 125" | (medium) "125 < ?n" "?n \<le> 0xffff" | (large) "0xffff < ?n" by linarith
  then show ?thesis
  proof cases
    case small
    then have "unat (basic_size payload) = ?n" "unat (125 :: u8) = 125" using basic_size_small by simp_all
    moreover have "basic_size payload \<le> 125" using small calculation by (simp add: word_le_nat_alt)
    moreover have "(ucast (basic_size payload) :: u64) = of_nat ?n"
      using small by (simp add: basic_size_def unsigned_of_nat take_bit_nat_eq_self)
    ultimately show ?thesis using sz small unfolding parse_length_def by (simp add: length_bytes_cases)
  next
    case medium
    then have s: "basic_size payload = 126" by (simp add: basic_size_def)
    have n: "(ucast (of_nat ?n :: u16) :: u64) = of_nat ?n"
      using medium by (simp add: unsigned_of_nat take_bit_nat_eq_self)
    have "unat (of_nat ?n :: u64) = ?n" using medium by (simp add: unat_of_nat)
    then have "\<not> (of_nat ?n :: u64) < 126" using medium by (simp add: word_less_nat_alt)
    moreover have "length_bytes 126 payload =
        [ucast (drop_bit 8 (of_nat ?n :: u16)), ucast (of_nat ?n :: u16)]" by (simp add: length_bytes_def Let_def)
    ultimately show ?thesis using sz s medium n two_bytes [of "of_nat ?n"]
      unfolding parse_length_def by (simp add: Let_def)
  next
    case large
    then have s: "basic_size payload = 127" by (simp add: basic_size_def)
    have e: "length_bytes (basic_size payload) payload = be_bytes 8 (of_nat ?n :: u64)"
      using large by (simp add: length_bytes_cases)
    have "unat (of_nat ?n :: u64) = ?n" using len by (simp add: unat_of_nat)
    then have gt: "\<not> (of_nat ?n :: u64) \<le> 0xffff" using large by (simp add: word_le_nat_alt)
    have "map (\<lambda>i. ?data ! (2 + i)) [0..<8] = be_bytes 8 (of_nat ?n :: u64)"
      unfolding e by (intro nth_equalityI) (auto simp: nth_append)
    then have f: "foldl (\<lambda>n i. push_bit 8 n OR ucast (?data ! (2 + i))) 0 [0..<8] = (of_nat ?n :: u64)"
      unfolding foldl_nth [of "\<lambda>n b. push_bit 8 n OR ucast b"] by (simp flip: be_value_def)
    have "?data ! 2 = ucast (drop_bit 56 (of_nat ?n :: u64))" unfolding e by (simp add: byte_lists)
    then have t: "?data ! 2 AND 0x80 = 0" using top_bit_clear [OF len] by simp
    have "length ?data \<ge> 10" unfolding e by simp
    then show ?thesis unfolding parse_length_def sz Let_def using s t f gt e by simp
  qed
qed

text \<open>The key the receiver reads is the key the payload was masked with, on a little-endian sender or with a key of four bytes.\<close>

lemma key_bytes_ucast:
  assumes "native = little \<and> fast32_size = 8 \<or> fast32_size = 4"
  shows "key_bytes native fast32_size key = object_bytes native 4 (ucast key :: u32)"
proof -
  have b: "be_bytes 4 (ucast key :: u32) = be_bytes 4 key" "le_bytes 4 (ucast key :: u32) = le_bytes 4 key"
    unfolding byte_lists by simp_all (intro conjI bit_word_eqI; auto simp: bit_simps)+
  have "take 4 (le_bytes 8 key) = le_bytes 4 key" by (simp add: byte_lists)
  then show ?thesis using assms b by (auto simp: key_bytes_def object_bytes_def)
qed

text \<open>
  A big-endian sender whose \<open>std::uint_fast32_t\<close> has eight bytes copies the upper half of the key, which is zero,
  while it masks with the lower half.
\<close>

lemma key_bytes_big_endian: "key < 2 ^ 32 \<Longrightarrow> key_bytes big 8 key = [0, 0, 0, 0]"
proof -
  assume "key < 2 ^ 32"
  then have "key AND mask 32 = key" by (rule less_mask_eq)
  then have "bit key n \<Longrightarrow> n < 32" for n by (metis bit_and_iff bit_mask_iff)
  then show ?thesis
    unfolding key_bytes_def object_bytes_def byte_lists
    by simp (intro conjI bit_word_eqI; force simp: bit_simps)
qed

text \<open>What is sent of the payload, as the receiver sees it.\<close>

definition unmasked :: "endian \<Rightarrow> ws_frame_header \<Rightarrow> bytes \<Rightarrow> bytes" where
  "unmasked native hdr body = (if fh_masked hdr then apply_mask native body (fh_masking_key hdr) else body)"


text \<open>
  C32: A frame that \<open>build_frame\<close> built on a host of one byte order, followed by whatever comes next, and read on a
  host of the same or of the other byte order. A control frame with more than 125 bytes of payload is refused
  as too large, and one without the \<open>FIN\<close> bit as fragmented; \<open>build_frame\<close> checks neither. Every other frame is
  parsed into its opcode, its \<open>FIN\<close> bit, its masking and its payload length; the payload follows the header,
  unmasking in steps of eight and four bytes gives it back, and the check for ASCII that unmasking does on the
  way is right. The opcode is one of four bits and the payload shorter than \<open>2 ^ 63\<close> bytes; for a masked frame the
  sender is little-endian or its \<open>uint_fast32_t\<close>, in which the key is kept, has four bytes. The lemma above shows
  what happens otherwise.
\<close>

theorem websocket_frame_round_trip:
  assumes "op < 0x10" and "length payload < 2 ^ 63"
    and "fast32_size \<in> {4, 8}" and "do_mask \<longrightarrow> native = little \<or> fast32_size = 4"
  shows "case parse_frame_header native' (build_frame native fast32_size key op payload do_mask fin @ rest) of
      Inl e \<Rightarrow> is_control op \<and>
        (if length payload > 125 then e = control_frame_too_large else \<not> fin \<and> e = fragmented_control)
    | Inr (hdr, n) \<Rightarrow>
        \<not> (is_control op \<and> (length payload > 125 \<or> \<not> fin)) \<and>
        fh_op hdr = op \<and> fh_fin hdr = fin \<and> \<not> fh_rsv1 hdr \<and> \<not> fh_rsv2 hdr \<and> \<not> fh_rsv3 hdr \<and>
        fh_masked hdr = do_mask \<and> unat (fh_payload_length hdr) = length payload \<and>
        n + length payload = length (build_frame native fast32_size key op payload do_mask fin) \<and>
        (let body = drop n (build_frame native fast32_size key op payload do_mask fin) in
         unmasked native' hdr body = payload \<and>
         (do_mask \<longrightarrow> apply_mask_impl True native' body (fh_masking_key hdr) = (payload, list_all ascii payload)))"
proof -
  let ?b0 = "op OR (if fin then 0x80 else 0)" and ?b1 = "basic_size payload OR (if do_mask then 0x80 else 0)"
  let ?ext = "length_bytes (basic_size payload) payload"
  define K where "K = object_bytes native 4 (ucast key :: u32)"
  define body where "body = (if do_mask then mask_bytes K payload else payload)"
  define pre where "pre = (if do_mask then K else [])"
  have frame: "build_frame native fast32_size key op payload do_mask fin = [?b0, ?b1] @ ?ext @ pre @ body"
    unfolding build_frame_def build_frame_into_def using assms(3,4) key_bytes_ucast [of native fast32_size key]
    by (subst append_frame_layout) (auto simp: K_def body_def pre_def apply_mask_def apply_mask_impl_bytes)
  define k' where "k' = (object_value native' K :: u32)"
  have K: "object_bytes native' 4 k' = K" "length K = 4" unfolding k'_def by (simp_all add: K_def object_bytes_of)
  define hdr where "hdr = \<lparr>fh_fin = fin, fh_rsv1 = False, fh_rsv2 = False, fh_rsv3 = False, fh_op = op,
    fh_masked = do_mask, fh_payload_length = of_nat (length payload), fh_masking_key = (if do_mask then k' else 0)\<rparr>"
  have len: "unat (of_nat (length payload) :: u64) = length payload" using assms(2) by (simp add: unat_of_nat)
  have big: "(of_nat (length payload) :: u64) > 125 \<longleftrightarrow> length payload > 125"
    using len by (simp add: word_less_nat_alt)
  have key: "take 4 (drop (2 + length ?ext) ([?b0, ?b1] @ ?ext @ pre @ body @ rest)) = K" if do_mask
    using that K(2) by (simp add: pre_def)
  have room: "do_mask \<Longrightarrow> length ([?b0, ?b1] @ ?ext @ pre @ body @ rest) \<ge> 2 + length ?ext + 4"
    using K(2) by (simp add: pre_def)
  have parsed: "parse_frame_header native' ([?b0, ?b1] @ ?ext @ pre @ body @ rest) =
      (if is_control op \<and> (length payload > 125 \<or> \<not> fin)
       then Inl (if length payload > 125 then control_frame_too_large else fragmented_control)
       else Inr (hdr, 2 + length ?ext + length pre))"
    using parse_length_built [OF assms(2), of ?b0 do_mask "pre @ body @ rest"] big key room K(2)
      flag_bits [OF assms(1), of fin] size_bits(2) [OF basic_size_less [of payload], of do_mask]
    unfolding parse_frame_header_def hdr_def k'_def by (cases do_mask) (auto simp: Let_def pre_def)
  have "drop (2 + length ?ext + length pre) ([?b0, ?b1] @ ?ext @ pre @ body) = body" by simp
  then show ?thesis unfolding frame using parsed len K(1)
    by (auto simp: hdr_def unmasked_def apply_mask_def apply_mask_impl_bytes body_def)
qed

theorem websocket_frame_round_trip_witness:
  "\<exists>hdr n. parse_frame_header big (build_frame little 8 0x11223344 1 [72, 101, 108, 108, 111] True True @ [0x89]) = Inr (hdr, n) \<and>
    fh_op hdr = 1 \<and> unat (fh_payload_length hdr) = 5 \<and> n = 6 \<and>
    apply_mask_impl True big (drop n (build_frame little 8 0x11223344 1 [72, 101, 108, 108, 111] True True)) (fh_masking_key hdr) =
      ([72, 101, 108, 108, 111], True)"
proof -
  let ?f = "build_frame little 8 0x11223344 1 [72, 101, 108, 108, 111] True True"
  have "length ?f = 11"
    unfolding build_frame_def build_frame_into_def
    by (subst append_frame_layout) (simp_all add: length_bytes_cases key_bytes_def apply_mask_def apply_mask_impl_bytes)
  moreover have "list_all ascii [72, 101, 108, 108, 111]" by simp
  ultimately show ?thesis
    using websocket_frame_round_trip [where op = 1 and payload = "[72, 101, 108, 108, 111]" and
      fast32_size = 8 and do_mask = True and native = little and native' = big and key = "0x11223344" and
      fin = True and rest = "[0x89]"]
    by (auto simp: is_control_def Let_def split: sum.splits)
qed

end
