(* ===== verification/Spec2Isabelle.thy ===== *)
theory Spec2Isabelle
  imports Raft_Cluster Raft_Node_Commit Raft_Wire Raft_Leveldb_Store Core_Buffer Quic_Frame Quic_Stream_Line Mqtt_Retained Websocket_Frame
begin

text \<open>
  A verification of parts of cnetmod, a C++ networking library: its Raft consensus stack, the core buffers, the
  frames and streams of QUIC, the routing tables of the MQTT broker, and the frames of WebSocket.

  \<^bold>\<open>The program and the theories.\<close> All paths are below \<open>src/src/\<close>.

  \<^item> \<open>Prelude\<close>: machine integers, exceptions as values, and the parts of the standard library the sources use
    (sorted vectors, \<open>std::map\<close> as a list in key order). \<open>Byte_Codec\<close>: appending encoders, reading decoders, and
    integers as bytes in either order; every codec below is proved with it.
  \<^item> Raft (\<open>protocol/raft/\<close>). \<open>Raft_Types\<close> is \<open>raft_types.cppm\<close>; \<open>Raft_Configuration\<close> is \<open>raft_configuration.cpp\<close>;
    \<open>Raft_Progress\<close> is \<open>progress.cpp\<close>; \<open>Raft_Storage\<close> is the abstract class of \<open>storage.cppm\<close>, a record of functions, with
    its contract as the locale \<open>raft_store\<close>; \<open>Raft_Memory_Store\<close> and \<open>Raft_Leveldb_Store\<close> are its two
    implementations; \<open>Raft_Log_Manager\<close> is \<open>log_manager.cpp\<close>; \<open>Raft_Fsm\<close> is \<open>raft_fsm.cpp\<close>; \<open>Raft_Node\<close> is \<open>node.cpp\<close>, one
    definition per member function; \<open>Raft_Wire\<close> is \<open>raft_wire.cpp\<close>. The node calls the configuration, the
    progress table, the log manager and the state machine caller; these call the storage. A member function
    takes the environment (storage, user's state machine, clock reading), its arguments and the node, and
    returns its result and the node it leaves.
  \<^item> \<open>Core_Buffer\<close> is \<open>core/buffer_impl.cpp\<close> with the byte swaps of \<open>utils/converter_impl.cpp\<close>. The byte order of the
    host is a parameter.
  \<^item> QUIC (\<open>protocol/quic/\<close>). \<open>Quic_Types\<close> holds what is shared; \<open>Quic_Varint\<close> is \<open>varint.cpp\<close>; \<open>Quic_Frame\<close> is
    \<open>quic_frame.cpp\<close>; \<open>Quic_Stream\<close> and \<open>Quic_Stream_Line\<close> are \<open>quic_stream.cpp\<close>, the latter its reading up to a
    delimiter, which collects in a \<open>dynamic_buffer\<close>.
  \<^item> MQTT (\<open>protocol/mqtt/\<close>). \<open>Mqtt_Topic\<close> is \<open>common/topic_filter.cppm\<close>; \<open>Mqtt_Trie\<close> is the trie that
    \<open>Mqtt_Subscriptions\<close> (\<open>mqtt_subscription_map.cpp\<close>) and \<open>Mqtt_Retained\<close> (\<open>mqtt_retained.cpp\<close>) both have.
  \<^item> \<open>Websocket_Frame\<close> is \<open>protocol/websocket/wire/websocket_frame.cpp\<close> with \<open>websocket_frame.cppm\<close>.

  \<^bold>\<open>What is shown.\<close>

  \<^item> Safety of elections: \<open>Raft_Node_Votes\<close> follows the term, the vote and the role of a node through every call,
    \<open>Raft_Node_Durable\<close> relates them to the store, and \<open>Raft_Cluster\<close> is a step relation of nodes that call,
    crash and restart while messages are lost, repeated, reordered or forged; a term has at most one leader. The
    step itself allows everything; what the theorem asks of a run is written in its statement: responses that
    grant a vote are not forged, no election starts at the greatest term, and a restarted node finds its term and
    vote in its storage. The last two are not idle: theorems show that the term wraps to 0, and that a vote
    is lost when saving it fails. The quorums the proof rests on are the locales \<open>cross_quorum\<close> and \<open>quorum_system\<close>,
    interpreted on the configurations.
  \<^item> Logs: appends from a leader merge the logs and are idempotent, and the conflict hint is exact. The memory
    store implements the storage contract \<open>raft_store\<close>. The persistent store, whose reads and writes may throw, keeps
    the same abstract view on any database with LevelDB's documented behaviour: what returns is right, and
    what throws says why.
  \<^item> Committing and applying (\<open>Raft_Node_Commit\<close>): the commit index of a leader is the greatest its term allows,
    the loop that applies ends, and the state machine gets the committed entries in order and each once. Three
    theorems show where the code departs from Raft: a follower commits entries its leader did not vouch for, a late snapshot undoes applied
    commands, and a leader that is the only new voter commits a joint configuration alone.
  \<^item> Codecs: Raft messages, QUIC frames and variable-length integers, fields in buffers and WebSocket frames
    are read back as they were written; decoded QUIC frames are well formed, frames of Raft delimit themselves, and
    variable-length integers are as short as can be. Two decoders fail on
    hostile input: a stored length wraps, and a range count makes the QUIC decoder throw.
  \<^item> Streams and buffers: the locale \<open>byte_queue\<close> is the contract of a buffer, interpreted on \<open>dynamic_buffer\<close> and on the
    in-order buffer of a stream; a stream delivers the peer's bytes in order, whatever frames arrive, and
    reading it ends.
  \<^item> Routing: the locale \<open>trie_content\<close> gives the contents of a trie after an update or a removal, interpreted on
    subscribers and on messages. Searches find exactly what \<open>topic_matches\<close> accepts, with two departures from
    MQTT shown: a trailing \<open>/\<close> counts twice, and the filter \<open>#\<close> finds retained messages below \<open>$\<close>.
  \<^item> Masking of WebSocket payloads eight bytes at a time is masking byte by byte.

  \<^bold>\<open>Bounds and fuel.\<close> Sequence numbers, terms, indexes and lengths of the wire are words and wrap as in C++. Sizes of
  containers are natural numbers; where the code adds sizes and the sum may wrap (\<open>dynamic_buffer\<close>, \<open>get_string\<close> of the
  LevelDB store) the sum is taken modulo \<open>2 ^ 64\<close>. Loops recurse structurally or by a measure, with three
  exceptions. The loop of \<open>apply_committed\<close> is the partial function \<open>apply_while\<close>, which is shown to return; \<open>apply_loop\<close>,
  with the number of entries between the applied and the commit index as fuel, gives the same result and is
  what evaluates. \<open>receive_until_delimiter\<close> is a partial function that is shown to return on every
  stream. \<open>fc_apply_loop\<close>, the loop of \<open>fsm_caller::apply_committed\<close>, is a partial function as well; it returns for every
  committed index but the greatest one, where its own index wraps.

  \<^bold>\<open>Parameters.\<close> Code outside the sources is an argument: the user's state machine, LevelDB, the clock, the random
  masking key and the byte order of the host. What is assumed of LevelDB is \<open>leveldb_laws\<close>: reads and iterators see the
  contents or report an error, and a write that reports none has been applied. An in-memory journal whose
  iterators fail satisfies it. The node takes its storage as a record of functions in which reads do not throw;
  theorems about the node speak of storages that keep to \<open>raft_store\<close> or, for the hard state alone, to
  \<open>hard_state_store\<close>. An exception that a read of the persistent store throws into the node is outside the model.

  \<^bold>\<open>Not modelled.\<close>

  \<^item> The coroutine runtime, executors, event loops, sockets, TLS, files, processes and logging: calls of the
    operating system and of libraries. The runtime and the TCP transport of Raft belong here; the cluster
    allows every order of calls they could make.
  \<^item> Packet protection and the connection of QUIC, which need a cryptographic library, and its congestion
    control, which computes with floating point numbers.
  \<^item> The rest of the MQTT broker and client, and the other protocols and services: HTTP, gRPC, AMQP, Kafka, CoAP, DNS,
    Modbus, SOCKS5, mail, the database clients and the object-relational mapping, the OpenAI client, the
    application framework and the bindings. They have codecs and state machines that could be treated in the
    same way; no theory here is about them.
  \<^item> Of the modelled files: opening the database in \<open>leveldb_store\<close>, the views and the vector wrapper of \<open>buffer_impl.cpp\<close>,
    error texts, hashing and the configuration of QUIC, \<open>drain_receive_buffer\<close>, which does nothing, and the
    mutable reference \<open>retained_store::messages\<close> hands out.
\<close>

end
